(* ===== verification/Hdx_Prelude.thy ===== *)
theory Hdx_Prelude
  imports Main "HOL-Library.Word" "HOL-Library.List_Lexorder" "HOL-Library.Char_ord"
begin

unbundle bit_operations_syntax

text \<open>
  Shared vocabulary of the development: bytes and byte windows, little-endian codecs, results
  that carry an error, and the generic list lemmas the component theories use. Bytes are
  8-bit words; the code's \<open>u64\<close> is \<open>64 word\<close> where wrapping matters and \<open>nat\<close> where the
  value is read from a 16- or 32-bit field and cannot overflow.
\<close>

text \<open>
  Byte strings and names are compared as Rust compares them, lexicographically:
  \<open>List_Lexorder\<close> over words and over characters (\<open>Char_ord\<close>).
\<close>

type_synonym byte = "8 word"
type_synonym u16 = "16 word"
type_synonym u32 = "32 word"
type_synonym u64 = "64 word"

named_theorems window_simps "byte windows"
named_theorems codec_simps "little-endian codecs"

subsection \<open>Results\<close>

text \<open>Rust's \<open>?\<close> operator on a \<open>Result\<close>, and \<open>ensure!\<close> followed by the rest of the body.\<close>

definition bindR :: "'e + 'a \<Rightarrow> ('a \<Rightarrow> 'e + 'b) \<Rightarrow> 'e + 'b" where
  "bindR r f = (case r of Inl e \<Rightarrow> Inl e | Inr x \<Rightarrow> f x)"

definition ensureR :: "bool \<Rightarrow> 'e \<Rightarrow> 'e + 'a \<Rightarrow> 'e + 'a" where
  "ensureR c e k = (if c then k else Inl e)"

lemma bindR_simps [simp]: "bindR (Inl e) f = Inl e" "bindR (Inr x) f = f x"
  by (simp_all add: bindR_def)

lemma bindR_eq_Inr: "bindR r f = Inr y \<longleftrightarrow> (\<exists>x. r = Inr x \<and> f x = Inr y)"
  by (cases r) simp_all

lemma bindR_eq_Inl: "bindR r f = Inl e \<longleftrightarrow> r = Inl e \<or> (\<exists>x. r = Inr x \<and> f x = Inl e)"
  by (cases r) simp_all

lemma ensureR_simps [simp]: "ensureR True e k = k" "ensureR False e k = Inl e"
  by (simp_all add: ensureR_def)

lemma ensureR_eq_Inr: "ensureR c e k = Inr y \<longleftrightarrow> c \<and> k = Inr y"
  by (simp add: ensureR_def)

lemmas result_simps = bindR_eq_Inr bindR_eq_Inl ensureR_eq_Inr

lemma bindR_cong [fundef_cong]:
  "r = r' \<Longrightarrow> (\<And>x. r' = Inr x \<Longrightarrow> f x = g x) \<Longrightarrow> bindR r f = bindR r' g"
  by (cases r') auto

lemma ensureR_cong [fundef_cong]:
  "c = c' \<Longrightarrow> e = e' \<Longrightarrow> (c' \<Longrightarrow> k = k') \<Longrightarrow> ensureR c e k = ensureR c' e' k'"
  by (auto simp: ensureR_def)

subsection \<open>Windows of a list\<close>

text \<open>\<open>window xs at len\<close> is the Rust slice \<open>xs[at..at + len]\<close>, clamped at the end.\<close>

definition window :: "'a list \<Rightarrow> nat \<Rightarrow> nat \<Rightarrow> 'a list" where
  "window xs at len = take len (drop at xs)"

lemma length_window [window_simps]: "length (window xs at len) = min len (length xs - at)"
  by (simp add: window_def min.commute)

lemma window_0_len [window_simps]: "window xs at 0 = []"
  by (simp add: window_def)

lemma window_whole [window_simps]: "window xs 0 (length xs) = xs"
  by (simp add: window_def)

lemma nth_window [window_simps]:
  "i < len \<Longrightarrow> at + i < length xs \<Longrightarrow> window xs at len ! i = xs ! (at + i)"
  by (simp add: window_def)

lemma window_window [window_simps]:
  "window (window xs a n) b k = window xs (a + b) (min k (n - b))"
  by (simp add: window_def drop_take add.commute)

lemma window_append: "window xs a n @ window xs (a + n) k = window xs a (n + k)"
  by (simp add: window_def take_add) (simp add: add.commute)

lemma window_past_end: "length xs \<le> at \<Longrightarrow> window xs at len = []"
  by (simp add: window_def)

lemma window_clamp: "window xs at (min n (length xs - at)) = window xs at n"
  by (simp add: window_def min_def)

lemma window_append_left: "at + len \<le> length xs \<Longrightarrow> window (xs @ ys) at len = window xs at len"
  by (simp add: window_def)

lemma window_append_right:
  "length xs \<le> at \<Longrightarrow> window (xs @ ys) at len = window ys (at - length xs) len"
  by (simp add: window_def)

lemma set_window_subset: "set (window xs at len) \<subseteq> set xs"
  by (auto simp: window_def dest: in_set_takeD in_set_dropD)

text \<open>A piece of a concatenation is found at the total length of the pieces before it.\<close>

lemma window_concat_nth:
  "i < length xs \<Longrightarrow> window (concat xs) (sum_list (map length (take i xs))) (length (xs ! i)) = xs ! i"
proof (induction xs arbitrary: i)
  case (Cons x xs)
  show ?case
  proof (cases i)
    case 0
    then show ?thesis by (simp add: window_def)
  next
    case (Suc k)
    then show ?thesis using Cons by (simp add: window_append_right)
  qed
qed simp

subsection \<open>Little-endian integers\<close>

fun le_nat :: "byte list \<Rightarrow> nat" where
  "le_nat [] = 0"
| "le_nat (b # bs) = unat b + 256 * le_nat bs"

fun nat_le :: "nat \<Rightarrow> nat \<Rightarrow> byte list" where
  "nat_le 0 n = []"
| "nat_le (Suc k) n = of_nat (n mod 256) # nat_le k (n div 256)"

lemma length_nat_le [simp]: "length (nat_le k n) = k"
  by (induction k arbitrary: n) simp_all

lemma unat_byte_of_nat_mod: "unat (of_nat (n mod 256) :: byte) = n mod 256"
  by (simp add: unat_of_nat)

lemma le_nat_nat_le [codec_simps]: "le_nat (nat_le k n) = n mod 256 ^ k"
proof (induction k arbitrary: n)
  case (Suc k)
  have "n mod 256 ^ Suc k = n mod 256 + 256 * (n div 256 mod 256 ^ k)"
    by (simp add: mod_mult2_eq)
  then show ?case by (simp only: nat_le.simps le_nat.simps Suc unat_byte_of_nat_mod)
qed simp

lemma byte_lt_256: "unat (b :: byte) < 256"
  using unsigned_less [of b] by simp

lemma le_nat_zeros: "le_nat (replicate k 0) = 0"
  by (induction k) simp_all

lemma le_nat_bound: "le_nat bs < 256 ^ length bs"
proof (induction bs)
  case (Cons b bs)
  have "unat b + 256 * le_nat bs < 256 + 256 * le_nat bs"
    using byte_lt_256 by simp
  also have "\<dots> = 256 * Suc (le_nat bs)" by simp
  also have "\<dots> \<le> 256 * 256 ^ length bs" using Cons by (metis Suc_leI mult_le_mono2)
  finally show ?case by simp
qed simp

lemma nat_le_le_nat [codec_simps]: "nat_le (length bs) (le_nat bs) = bs"
proof (induction bs)
  case (Cons b bs)
  have "(unat b + 256 * le_nat bs) mod 256 = unat b"
    using byte_lt_256 [of b] by simp
  moreover have "(unat b + 256 * le_nat bs) div 256 = le_nat bs"
    using byte_lt_256 [of b] by simp
  ultimately show ?case using Cons by simp
qed simp

definition le16 :: "byte list \<Rightarrow> nat \<Rightarrow> nat" where
  "le16 b i = le_nat (window b i 2)"

definition le32 :: "byte list \<Rightarrow> nat \<Rightarrow> nat" where
  "le32 b i = le_nat (window b i 4)"

definition le64 :: "byte list \<Rightarrow> nat \<Rightarrow> nat" where
  "le64 b i = le_nat (window b i 8)"

lemma le_nat_window_bound: "le_nat (window b i n) < 256 ^ n"
proof -
  have "le_nat (window b i n) < 256 ^ length (window b i n)" by (rule le_nat_bound)
  also have "\<dots> \<le> 256 ^ n" by (rule power_increasing) (simp_all add: length_window)
  finally show ?thesis .
qed

lemma le16_bound: "le16 b i < 65536"
  using le_nat_window_bound [of b i 2] by (simp add: le16_def)

lemma le32_bound: "le32 b i < 4294967296"
  using le_nat_window_bound [of b i 4] by (simp add: le32_def)

subsection \<open>Words as little-endian bytes\<close>

definition word_bytes :: "u64 \<Rightarrow> byte list" where
  "word_bytes w = nat_le 8 (unat w)"

definition bytes_word :: "byte list \<Rightarrow> u64" where
  "bytes_word bs = of_nat (le_nat bs)"

lemma length_word_bytes [simp]: "length (word_bytes w) = 8"
  by (simp add: word_bytes_def)

lemma bytes_word_bytes [codec_simps]: "bytes_word (word_bytes w) = w"
proof -
  have "unat w < 256 ^ 8" using unsigned_less [of w] by simp
  then show ?thesis by (simp add: word_bytes_def bytes_word_def le_nat_nat_le)
qed

lemma window_word_bytes_concat [codec_simps]:
  "i < length ws \<Longrightarrow> window (concat (map word_bytes ws)) (8 * i) 8 = word_bytes (ws ! i)"
proof (induction ws arbitrary: i)
  case (Cons w ws)
  show ?case
  proof (cases i)
    case 0
    then show ?thesis by (simp add: window_def)
  next
    case (Suc j)
    have "window (word_bytes w @ concat (map word_bytes ws)) (8 + 8 * j) 8
        = window (concat (map word_bytes ws)) (8 * j) 8"
      by (simp add: window_append_right)
    with Cons Suc show ?thesis by simp
  qed
qed simp

lemma length_word_bytes_concat [simp]: "length (concat (map word_bytes ws)) = 8 * length ws"
  by (induction ws) simp_all

subsection \<open>Rounding\<close>

text \<open>Rust's \<open>div_ceil\<close> and \<open>next_multiple_of\<close> on unsigned integers (positive divisor).\<close>

definition div_ceil :: "nat \<Rightarrow> nat \<Rightarrow> nat" where
  "div_ceil a b = (a + b - 1) div b"

lemma div_ceil_ge: "0 < b \<Longrightarrow> a \<le> div_ceil a b * b"
proof -
  assume b: "0 < b"
  have r: "(a + b - 1) mod b < b" using b by simp
  have "(a + b - 1) div b * b + (a + b - 1) mod b = a + b - 1"
    by (rule div_mult_mod_eq)
  with r show ?thesis unfolding div_ceil_def by linarith
qed

lemma div_ceil_pos_eq: "0 < b \<Longrightarrow> 0 < a \<Longrightarrow> div_ceil a b = Suc ((a - 1) div b)"
proof -
  assume b: "0 < b" and a: "0 < a"
  have "a + b - 1 = b + (a - 1)" using a by simp
  then have "div_ceil a b = (b + (a - 1)) div b" by (simp only: div_ceil_def)
  also have "\<dots> = (a - 1) div b + 1" using b by (intro div_add_self1) simp
  finally show ?thesis by simp
qed

lemma div_ceil_lt: "0 < b \<Longrightarrow> 0 < a \<Longrightarrow> (div_ceil a b - 1) * b < a"
proof -
  assume b: "0 < b" and a: "0 < a"
  have "(a - 1) div b * b \<le> a - 1" by (rule div_times_less_eq_dividend)
  then have "(a - 1) div b * b < a" using a by linarith
  then show ?thesis using a b by (simp add: div_ceil_pos_eq)
qed

lemma div_ceil_0 [simp]: "0 < b \<Longrightarrow> div_ceil 0 b = 0"
  by (simp add: div_ceil_def)

subsection \<open>Strings\<close>

text \<open>Rust's \<open>split\<close> on a separator: never empty, and empty pieces are kept.\<close>

fun split_on :: "'a \<Rightarrow> 'a list \<Rightarrow> 'a list list" where
  "split_on c [] = [[]]"
| "split_on c (x # xs) =
     (case split_on c xs of
        [] \<Rightarrow> [[x]]
      | p # ps \<Rightarrow> if x = c then [] # p # ps else (x # p) # ps)"

fun join_on :: "'a \<Rightarrow> 'a list list \<Rightarrow> 'a list" where
  "join_on c [] = []"
| "join_on c [p] = p"
| "join_on c (p # ps) = p @ c # join_on c ps"

lemma split_on_nonempty [simp]: "split_on c xs \<noteq> []"
  by (induction xs) (auto split: list.splits)

lemma split_on_free: "c \<notin> set p \<Longrightarrow> split_on c p = [p]"
  by (induction p) auto

lemma split_on_append: "c \<notin> set p \<Longrightarrow> split_on c (p @ c # xs) = p # split_on c xs"
  by (induction p) (auto split: list.splits)

lemma split_on_parts_free: "p \<in> set (split_on c xs) \<Longrightarrow> c \<notin> set p"
  by (induction xs arbitrary: p) (auto split: list.splits if_splits)

lemma split_join:
  "ps \<noteq> [] \<Longrightarrow> \<forall>p \<in> set ps. c \<notin> set p \<Longrightarrow> split_on c (join_on c ps) = ps"
  by (induction c ps rule: join_on.induct) (simp_all add: split_on_free split_on_append)

lemma join_split [simp]: "join_on c (split_on c xs) = xs"
proof (induction xs)
  case (Cons x xs)
  obtain p ps where "split_on c xs = p # ps" by (cases "split_on c xs") simp_all
  then show ?case using Cons by (cases ps) auto
qed simp

lemma length_join_Cons:
  "length (join_on c (p # ps)) = length p + (if ps = [] then 0 else Suc (length (join_on c ps)))"
  by (cases ps) simp_all

text \<open>The decimal form \<open>format!("{n}")\<close> of an unsigned integer, as ASCII bytes.\<close>

fun dec_ascii :: "nat \<Rightarrow> byte list" where
  "dec_ascii n = (if n < 10 then [of_nat (48 + n)] else dec_ascii (n div 10) @ [of_nat (48 + n mod 10)])"

declare dec_ascii.simps [simp del]

text \<open>\<open>chunks_exact(n)\<close>: the whole chunks, the remainder dropped.\<close>

function chunks_exact :: "nat \<Rightarrow> 'a list \<Rightarrow> 'a list list" where
  "chunks_exact n xs = (if n = 0 \<or> length xs < n then [] else take n xs # chunks_exact n (drop n xs))"
  by pat_completeness auto
termination by (relation "measure (\<lambda>(n, xs). length xs)") auto

declare chunks_exact.simps [simp del]

lemma chunks_exact_length: "c \<in> set (chunks_exact n xs) \<Longrightarrow> length c = n"
proof (induction n xs rule: chunks_exact.induct)
  case (1 n xs)
  then show ?case by (subst (asm) (2) chunks_exact.simps) (auto split: if_splits)
qed

subsection \<open>Keyed lists\<close>

text \<open>\<open>HashMap::insert\<close>: the value under the key, the other entries as they were.\<close>

fun hm_insert :: "'k \<Rightarrow> 'v \<Rightarrow> ('k \<times> 'v) list \<Rightarrow> ('k \<times> 'v) list" where
  "hm_insert k v [] = [(k, v)]"
| "hm_insert k v ((k', v') # m) = (if k' = k then (k, v) # m else (k', v') # hm_insert k v m)"

lemma map_of_hm_insert [simp]: "map_of (hm_insert k v m) = (map_of m)(k \<mapsto> v)"
  by (induction m) auto

lemma hm_insert_keys: "fst ` set (hm_insert k v m) = insert k (fst ` set m)"
  by (induction k v m rule: hm_insert.induct) (simp_all add: insert_commute)

lemma hm_insert_distinct: "distinct (map fst m) \<Longrightarrow> distinct (map fst (hm_insert k v m))"
proof (induction m)
  case (Cons e m)
  then show ?case using hm_insert_keys [of k v m] by (cases e) auto
qed simp

lemma hm_insert_mem:
  "(n, x) \<in> set (hm_insert k v m) \<Longrightarrow> (n, x) = (k, v) \<or> (n, x) \<in> set m"
  by (induction k v m rule: hm_insert.induct) (auto split: if_splits)

lemma hm_insert_same: "map_of m k = Some v \<Longrightarrow> hm_insert k v m = m"
  by (induction k v m rule: hm_insert.induct) (auto split: if_splits)

text \<open>\<open>HashMap::remove\<close>.\<close>

definition hm_remove :: "'k \<Rightarrow> ('k \<times> 'v) list \<Rightarrow> ('k \<times> 'v) list" where
  "hm_remove k m = filter (\<lambda>(k', v). k' \<noteq> k) m"

lemma hm_remove_simps [simp]:
  "hm_remove k [] = []" "hm_remove k ((k', v) # m) = (if k' = k then hm_remove k m else (k', v) # hm_remove k m)"
  by (simp_all add: hm_remove_def)

lemma hm_remove_keys: "fst ` set (hm_remove k m) = fst ` set m - {k}"
  by (force simp: hm_remove_def)

lemma hm_remove_distinct: "distinct (map fst m) \<Longrightarrow> distinct (map fst (hm_remove k m))"
  by (induction m) (auto simp: hm_remove_def)

lemma hm_remove_absent: "k \<notin> fst ` set m \<Longrightarrow> hm_remove k m = m"
  by (induction m) auto

end
