(* ===== verification/Hdx_Dcso.thy ===== *)
theory Hdx_Dcso
  imports Hdx_Prelude
begin

text \<open>
  \<open>src/src/dcso.rs\<close>: the DCSO/hashlookup bloom filter format, transport-free. The header codec
  (six little-endian 64-bit words), the FNV-1 hash, the probe sequence with Go's wrapping
  multiply, the location of a bit and the membership test over an abstract word lookup. The
  header's \<open>p\<close> is a 64-bit float that this file only moves around as its bit pattern, so it is
  a 64-bit word here. A remainder by a zero bit count panics in Rust; the membership test
  returns \<open>None\<close> there.
\<close>

definition HEADER_LEN :: nat where "HEADER_LEN = 48"
definition MOD :: u64 where "MOD = 18446744073709551529"
definition G :: u64 where "G = 18446744073709550147"

record header =
  h_version :: u64
  h_n_capacity :: u64
  h_p_bits :: u64
  h_k :: u64
  h_m :: u64
  h_n_elements :: u64

datatype bloom_error = TooShort | UnsupportedVersion u64 | Truncated | OddBitCount | BadSizing

definition u64_at :: "byte list \<Rightarrow> nat \<Rightarrow> u64" where
  "u64_at bs i = bytes_word (window bs (i * 8) 8)"

definition header_parse :: "byte list \<Rightarrow> bloom_error + header" where
  "header_parse bs =
     (if length bs < HEADER_LEN then Inl TooShort
      else let version = u64_at bs 0 in
        if version AND 255 \<noteq> 1 then Inl (UnsupportedVersion version)
        else Inr \<lparr>h_version = version, h_n_capacity = u64_at bs 1, h_p_bits = u64_at bs 2,
                  h_k = u64_at bs 3, h_m = u64_at bs 4, h_n_elements = u64_at bs 5\<rparr>)"

definition header_to_bytes :: "header \<Rightarrow> byte list" where
  "header_to_bytes h =
     concat (map word_bytes
       [h_version h, h_n_capacity h, h_p_bits h, h_k h, h_m h, h_n_elements h])"

definition bits_len :: "header \<Rightarrow> nat" where
  "bits_len h = div_ceil (unat (h_m h)) 64 * 8"

text \<open>FNV-1 (multiply, then xor), with the multiply wrapping at 64 bits.\<close>

definition fnv1_step :: "u64 \<Rightarrow> byte \<Rightarrow> u64" where
  "fnv1_step h b = (h * 1099511628211) XOR ucast b"

definition fnv1_64 :: "byte list \<Rightarrow> u64" where
  "fnv1_64 data = foldl fnv1_step 14695981039346656037 data"

fun probe_hashes :: "u64 \<Rightarrow> nat \<Rightarrow> u64 list" where
  "probe_hashes h 0 = []"
| "probe_hashes h (Suc j) = (let h' = (h * G) mod MOD in h' # probe_hashes h' j)"

definition bit_positions :: "byte list \<Rightarrow> u64 \<Rightarrow> u64 \<Rightarrow> u64 list" where
  "bit_positions value k m = map (\<lambda>h. h mod m) (probe_hashes (fnv1_64 value mod MOD) (unat k))"

definition bit_location :: "u64 \<Rightarrow> nat \<times> u64" where
  "bit_location b = (HEADER_LEN + unat (drop_bit 6 b) * 8, push_bit (unat (b AND 63)) 1)"

text \<open>
  The loop over the probe positions. \<open>word_at off\<close> is \<open>None\<close> where the lookup panics (a slice
  out of range); the loop stops at the first clear bit.
\<close>

fun check_bits :: "(nat \<Rightarrow> u64 option) \<Rightarrow> u64 list \<Rightarrow> bool option" where
  "check_bits word_at [] = Some True"
| "check_bits word_at (b # bs) =
     (case bit_location b of (off, msk) \<Rightarrow>
       (case word_at off of
          None \<Rightarrow> None
        | Some w \<Rightarrow> if w AND msk = 0 then Some False else check_bits word_at bs))"

definition check_with :: "byte list \<Rightarrow> u64 \<Rightarrow> u64 \<Rightarrow> (nat \<Rightarrow> u64 option) \<Rightarrow> bool option" where
  "check_with value k m word_at =
     (if m = 0 \<and> k \<noteq> 0 then None else check_bits word_at (bit_positions value k m))"

text \<open>
  \<open>size_for\<close>: the guard is the code's; the two floating-point formulas (\<open>ceil\<close> of
  \<open>n * -ln p / ln2^2\<close> and the rounded hash count) are the parameters \<open>fm\<close> and \<open>fk\<close>, and
  \<open>p_ok\<close> is the float comparison \<open>p > 0.0 && p < 1.0\<close>.
\<close>

definition size_for ::
  "(u64 \<Rightarrow> u64 \<Rightarrow> u64) \<Rightarrow> (u64 \<Rightarrow> u64 \<Rightarrow> u64) \<Rightarrow> (u64 \<Rightarrow> bool) \<Rightarrow> u64 \<Rightarrow> u64 \<Rightarrow> bloom_error + (u64 \<times> u64)"
  where
  "size_for fm fk p_ok n p =
     (if n = 0 \<or> \<not> p_ok p then Inl BadSizing else let m = fm n p in Inr (m, fk m n))"

subsection \<open>Header codec\<close>

lemma length_header_to_bytes [simp]: "length (header_to_bytes h) = HEADER_LEN"
  by (simp add: header_to_bytes_def HEADER_LEN_def)

lemma u64_at_words:
  "i < length ws \<Longrightarrow> u64_at (concat (map word_bytes ws) @ rest) i = ws ! i"
proof -
  assume i: "i < length ws"
  have "window (concat (map word_bytes ws) @ rest) (8 * i) 8 = word_bytes (ws ! i)"
    using i by (simp add: window_append_left window_word_bytes_concat)
  then show ?thesis by (simp add: u64_at_def mult.commute codec_simps)
qed

lemma u64_at_header:
  "u64_at (header_to_bytes h @ rest) 0 = h_version h"
  "u64_at (header_to_bytes h @ rest) (Suc 0) = h_n_capacity h"
  "u64_at (header_to_bytes h @ rest) 2 = h_p_bits h"
  "u64_at (header_to_bytes h @ rest) 3 = h_k h"
  "u64_at (header_to_bytes h @ rest) 4 = h_m h"
  "u64_at (header_to_bytes h @ rest) 5 = h_n_elements h"
  unfolding header_to_bytes_def by (subst u64_at_words; simp)+

lemma header_parse_append:
  "h_version h AND 255 = 1 \<Longrightarrow> header_parse (header_to_bytes h @ rest) = Inr h"
  by (simp add: header_parse_def u64_at_header Let_def)

lemma header_parse_length: "header_parse bs = Inr h \<Longrightarrow> HEADER_LEN \<le> length bs"
  by (auto simp: header_parse_def Let_def split: if_splits)

lemma header_parse_version: "header_parse bs = Inr h \<Longrightarrow> h_version h AND 255 = 1"
  by (auto simp: header_parse_def Let_def split: if_splits)

subsection \<open>Probe positions\<close>

lemma length_probe_hashes [simp]: "length (probe_hashes h j) = j"
  by (induction j arbitrary: h) (simp_all add: Let_def)

lemma length_bit_positions [simp]: "length (bit_positions value k m) = unat k"
  by (simp add: bit_positions_def)

lemma bit_positions_bound: "m \<noteq> 0 \<Longrightarrow> b \<in> set (bit_positions value k m) \<Longrightarrow> unat b < unat m"
  by (auto simp: bit_positions_def unat_mod word_neq_0_conv unat_gt_0)

text \<open>Halving an even bit count moves every probe to its residue modulo the half.\<close>

lemma mod_half_word:
  fixes h m :: u64
  assumes "even (unat m)"
  shows "unat (h mod (m div 2)) = unat (h mod m) mod (unat m div 2)"
proof -
  obtain c where c: "unat m = 2 * c" using assms by blast
  have "unat h mod (2 * c) mod c = unat h mod c" by (simp add: mod_mod_cancel)
  then show ?thesis by (simp add: unat_mod unat_div c)
qed

lemma bit_positions_half:
  assumes "even (unat m)"
  shows "map unat (bit_positions value k (m div 2))
       = map (\<lambda>b. unat b mod (unat m div 2)) (bit_positions value k m)"
  using assms by (simp add: bit_positions_def mod_half_word)

lemma bit_location_simps:
  "fst (bit_location b) = HEADER_LEN + unat b div 64 * 8"
  "snd (bit_location b) = push_bit (unat b mod 64) 1"
proof -
  have "unat (drop_bit 6 b) = unat b div 64"
    unfolding unat_drop_bit_eq by (simp add: drop_bit_eq_div)
  then show "fst (bit_location b) = HEADER_LEN + unat b div 64 * 8"
    by (simp add: bit_location_def)
  have "b AND 63 = take_bit 6 b" by (simp add: take_bit_eq_mask mask_eq_exp_minus_1)
  then have "unat (b AND 63) = unat b mod 64"
    by (simp add: unsigned_take_bit_eq take_bit_eq_mod unat_mod)
  then show "snd (bit_location b) = push_bit (unat b mod 64) 1"
    by (simp add: bit_location_def)
qed

lemma and_single_bit_zero: "(w AND 2 ^ j = 0) \<longleftrightarrow> \<not> bit (w :: u64) j"
  by (rule and_exp_eq_0_iff_not_bit)

lemma check_bits_True_iff:
  "check_bits word_at bs = Some True \<longleftrightarrow>
   (\<forall>b \<in> set bs. \<exists>w. word_at (HEADER_LEN + unat b div 64 * 8) = Some w \<and> bit w (unat b mod 64))"
  by (induction bs)
    (auto simp: and_single_bit_zero bit_location_simps case_prod_beta split: option.splits)

lemma check_bits_no_panic:
  "(\<And>b. b \<in> set bs \<Longrightarrow> word_at (HEADER_LEN + unat b div 64 * 8) \<noteq> None) \<Longrightarrow>
   check_bits word_at bs \<noteq> None"
  by (induction bs) (auto simp: bit_location_simps case_prod_beta split: option.splits)

text \<open>
  The header codec is a round trip: the six words written by \<open>to_bytes\<close> are read back by
  \<open>parse\<close> whatever follows them in the file (the bit array, trailing data), for every header
  whose version word is supported.
\<close>

theorem header_roundtrip:
  assumes "h_version h AND 255 = 1"
  shows "header_parse (header_to_bytes h @ rest) = Inr h \<and> length (header_to_bytes h) = HEADER_LEN"
  using assms by (simp add: header_parse_append)

theorem header_roundtrip_witness:
  "header_parse (header_to_bytes
     \<lparr>h_version = 1, h_n_capacity = 10, h_p_bits = 4576918229304087675, h_k = 7, h_m = 96,
      h_n_elements = 3\<rparr> @ [1, 2, 3])
   = Inr \<lparr>h_version = 1, h_n_capacity = 10, h_p_bits = 4576918229304087675, h_k = 7, h_m = 96,
          h_n_elements = 3\<rparr>"
  using header_roundtrip [of "\<lparr>h_version = 1, h_n_capacity = 10, h_p_bits = 4576918229304087675,
      h_k = 7, h_m = 96, h_n_elements = 3\<rparr>" "[1, 2, 3]"]
  by simp

end
