(* ===== verification/Hdx_Coord.thy ===== *)
theory Hdx_Coord
  imports Hdx_Prelude
begin

text \<open>
  \<open>src/src/coord.rs\<close>: hash schemes and coordinates, their printing and the parser of every
  accepted spelling. Strings are \<open>char list\<close>s (one \<open>char\<close> per byte); \<open>trim\<close> removes ASCII
  white space, which is all the Unicode white space a byte string over ASCII has. The base64
  and base32 decoders belong to the \<open>data_encoding\<close> crate and are the parameter \<open>codecs\<close>.
\<close>

datatype scheme = Md5 | Sha1 | Sha256 | Sha512 | Sha1Git | Blake2s256

fun as_str :: "scheme \<Rightarrow> string" where
  "as_str Md5 = ''md5''"
| "as_str Sha1 = ''sha1''"
| "as_str Sha256 = ''sha256''"
| "as_str Sha512 = ''sha512''"
| "as_str Sha1Git = ''sha1_git''"
| "as_str Blake2s256 = ''blake2s256''"

fun digest_len :: "scheme \<Rightarrow> nat" where
  "digest_len Md5 = 16"
| "digest_len Sha1 = 20"
| "digest_len Sha1Git = 20"
| "digest_len Sha256 = 32"
| "digest_len Blake2s256 = 32"
| "digest_len Sha512 = 64"

subsection \<open>ASCII strings\<close>

definition ascii_lower :: "char \<Rightarrow> char" where
  "ascii_lower c = (let n = of_char c :: nat in if 65 \<le> n \<and> n \<le> 90 then char_of (n + 32) else c)"

definition is_ws :: "char \<Rightarrow> bool" where
  "is_ws c = (let n = of_char c :: nat in n = 32 \<or> (9 \<le> n \<and> n \<le> 13))"

definition trim :: "string \<Rightarrow> string" where
  "trim s = rev (dropWhile is_ws (rev (dropWhile is_ws s)))"

definition strip_prefix :: "string \<Rightarrow> string \<Rightarrow> string option" where
  "strip_prefix p s = (if take (length p) s = p then Some (drop (length p) s) else None)"

fun split_once :: "char \<Rightarrow> string \<Rightarrow> (string \<times> string) option" where
  "split_once c [] = None"
| "split_once c (x # xs) =
     (if x = c then Some ([], xs)
      else map_option (\<lambda>(a, b). (x # a, b)) (split_once c xs))"

definition is_hexdigit :: "char \<Rightarrow> bool" where
  "is_hexdigit c = (let n = of_char c :: nat in
     (48 \<le> n \<and> n \<le> 57) \<or> (65 \<le> n \<and> n \<le> 70) \<or> (97 \<le> n \<and> n \<le> 102))"

definition hex_val :: "char \<Rightarrow> nat" where
  "hex_val c = (let n = of_char c :: nat in
     if n \<le> 57 then n - 48 else if n \<le> 70 then n - 55 else n - 87)"

definition hex_digit :: "nat \<Rightarrow> char" where
  "hex_digit n = char_of (if n < 10 then n + 48 else n + 87)"

definition hex_digit_upper :: "nat \<Rightarrow> char" where
  "hex_digit_upper n = char_of (if n < 10 then n + 48 else n + 55)"

definition hex_byte :: "byte \<Rightarrow> string" where
  "hex_byte b = [hex_digit (unat b div 16), hex_digit (unat b mod 16)]"

definition hex_lower :: "byte list \<Rightarrow> string" where
  "hex_lower bs = concat (map hex_byte bs)"

definition hex_upper :: "byte list \<Rightarrow> string" where
  "hex_upper bs =
     concat (map (\<lambda>b. [hex_digit_upper (unat b div 16), hex_digit_upper (unat b mod 16)]) bs)"

subsection \<open>Coordinates\<close>

fun from_prefix_lower :: "string \<Rightarrow> scheme option" where
  "from_prefix_lower s =
     (if s = ''md5'' then Some Md5
      else if s = ''sha1'' \<or> s = ''sha-1'' then Some Sha1
      else if s = ''sha256'' \<or> s = ''sha-256'' then Some Sha256
      else if s = ''sha512'' \<or> s = ''sha-512'' then Some Sha512
      else if s = ''sha1_git'' \<or> s = ''sha1-git'' \<or> s = ''git'' then Some Sha1Git
      else if s = ''blake2s256'' \<or> s = ''blake2s'' then Some Blake2s256
      else None)"

definition from_prefix :: "string \<Rightarrow> scheme option" where
  "from_prefix s = from_prefix_lower (map ascii_lower s)"

record coord =
  c_scheme :: scheme
  c_digest :: "byte list"

datatype coord_error =
  LengthMismatch nat scheme | UnknownPrefix string | InvalidBase32 | NotHex string | CannotInfer nat

record codecs =
  b64_decode :: "string \<Rightarrow> byte list option"
  b32_decode :: "string \<Rightarrow> byte list option"

definition coord_new :: "scheme \<Rightarrow> byte list \<Rightarrow> coord_error + coord" where
  "coord_new s d =
     (if length d \<noteq> digest_len s then Inl (LengthMismatch (length d) s)
      else Inr \<lparr>c_scheme = s, c_digest = d\<rparr>)"

definition coord_hex :: "coord \<Rightarrow> string" where
  "coord_hex c = hex_lower (c_digest c)"

definition coord_display :: "coord \<Rightarrow> string" where
  "coord_display c = as_str (c_scheme c) @ '':'' @ coord_hex c"

fun hex_pairs :: "string \<Rightarrow> byte list" where
  "hex_pairs (a # b # rest) = of_nat (hex_val a * 16 + hex_val b) # hex_pairs rest"
| "hex_pairs _ = []"

definition decode_hex :: "string \<Rightarrow> coord_error + byte list" where
  "decode_hex s0 = (let s = trim s0 in
     if odd (length s) \<or> \<not> list_all is_hexdigit s then Inl (NotHex s) else Inr (hex_pairs s))"

definition is_base32_char :: "char \<Rightarrow> bool" where
  "is_base32_char c = (let n = of_char c :: nat in (65 \<le> n \<and> n \<le> 90) \<or> (50 \<le> n \<and> n \<le> 55))"

text \<open>The SRI branch falls through unless the prefix, the base64 and the length all fit.\<close>

definition parse_sri :: "codecs \<Rightarrow> string \<Rightarrow> (coord_error + coord) option" where
  "parse_sri cs s =
     (case split_once (CHR ''-'') s of
        None \<Rightarrow> None
      | Some (prefix, b64) \<Rightarrow>
          if CHR '':'' \<in> set s then None
          else (case from_prefix prefix of
              None \<Rightarrow> None
            | Some scheme \<Rightarrow>
                (case b64_decode cs b64 of
                   None \<Rightarrow> None
                 | Some bytes \<Rightarrow>
                     if length bytes = digest_len scheme then Some (coord_new scheme bytes) else None)))"

definition parse_bare :: "codecs \<Rightarrow> string \<Rightarrow> coord_error + coord" where
  "parse_bare cs s =
     (if length s = 32 \<and> list_all is_base32_char s \<and> \<not> list_all is_hexdigit s
      then (case b32_decode cs s of None \<Rightarrow> Inl InvalidBase32 | Some bytes \<Rightarrow> coord_new Sha1 bytes)
      else bindR (decode_hex s) (\<lambda>bytes.
        if length bytes = 16 then coord_new Md5 bytes
        else if length bytes = 20 then coord_new Sha1 bytes
        else if length bytes = 32 then coord_new Sha256 bytes
        else if length bytes = 64 then coord_new Sha512 bytes
        else Inl (CannotInfer (length bytes))))"

definition coord_parse :: "codecs \<Rightarrow> string \<Rightarrow> coord_error + coord" where
  "coord_parse cs input =
     (let s = trim input in
      case strip_prefix ''swh:1:cnt:'' s of
        Some rest \<Rightarrow> bindR (decode_hex rest) (coord_new Sha1Git)
      | None \<Rightarrow>
        (case parse_sri cs s of
           Some r \<Rightarrow> r
         | None \<Rightarrow>
           (case split_once (CHR '':'') s of
              Some (prefix, hex) \<Rightarrow>
                (case from_prefix prefix of
                   None \<Rightarrow> Inl (UnknownPrefix prefix)
                 | Some scheme \<Rightarrow> bindR (decode_hex hex) (coord_new scheme))
            | None \<Rightarrow> parse_bare cs s)))"

definition coord_wf :: "coord \<Rightarrow> bool" where
  "coord_wf c \<longleftrightarrow> length (c_digest c) = digest_len (c_scheme c)"

subsection \<open>Well-formedness\<close>

lemma coord_new_wf: "coord_new s d = Inr c \<Longrightarrow> coord_wf c \<and> c_scheme c = s \<and> c_digest c = d"
  by (auto simp: coord_new_def coord_wf_def split: if_splits)

lemma parse_sri_wf: "parse_sri cs s = Some (Inr c) \<Longrightarrow> coord_wf c"
  by (auto simp: parse_sri_def split: option.splits if_splits dest: coord_new_wf)

lemma parse_bare_wf: "parse_bare cs s = Inr c \<Longrightarrow> coord_wf c"
  by (auto simp: parse_bare_def bindR_eq_Inr split: option.splits if_splits dest: coord_new_wf)

lemma coord_parse_wf: "coord_parse cs s = Inr c \<Longrightarrow> coord_wf c"
  by (auto simp: coord_parse_def Let_def bindR_eq_Inr split: option.splits
      dest: coord_new_wf parse_sri_wf parse_bare_wf)

subsection \<open>Hex\<close>

lemma hex_digit_of_char: "n < 16 \<Longrightarrow> of_char (hex_digit n) = (if n < 10 then n + 48 else n + 87)"
  by (simp add: hex_digit_def)

lemma hex_digit_props:
  "n < 16 \<Longrightarrow> is_hexdigit (hex_digit n)"
  "n < 16 \<Longrightarrow> hex_val (hex_digit n) = n"
  "n < 16 \<Longrightarrow> \<not> is_ws (hex_digit n)"
  by (auto simp: is_hexdigit_def hex_val_def is_ws_def hex_digit_of_char Let_def)

lemma nibble_bounds: "unat (b :: byte) div 16 < 16" "unat (b :: byte) mod 16 < 16"
  using byte_lt_256 [of b] by simp_all

lemma hex_lower_Cons: "hex_lower (b # bs) = hex_byte b @ hex_lower bs"
  by (simp add: hex_lower_def)

lemma length_hex_lower [simp]: "length (hex_lower bs) = 2 * length bs"
  by (induction bs) (simp_all add: hex_lower_def hex_byte_def)

lemma hex_lower_hexdigits: "list_all is_hexdigit (hex_lower bs)"
  by (induction bs) (simp_all add: hex_lower_def hex_byte_def hex_digit_props nibble_bounds)

lemma hexdigit_not_ws: "is_hexdigit c \<Longrightarrow> \<not> is_ws c"
  by (auto simp: is_hexdigit_def is_ws_def Let_def)

lemma hex_pairs_hex_lower: "hex_pairs (hex_lower bs) = bs"
proof (induction bs)
  case (Cons b bs)
  have "unat b div 16 * 16 + unat b mod 16 = unat b" by simp
  then show ?case
    using Cons by (simp add: hex_lower_Cons hex_byte_def hex_digit_props nibble_bounds)
qed (simp add: hex_lower_def)

lemma dropWhile_none: "list_all (\<lambda>c. \<not> P c) s \<Longrightarrow> dropWhile P s = s"
  by (cases s) simp_all

lemma trim_id:
  assumes "s = [] \<or> (\<not> is_ws (hd s) \<and> \<not> is_ws (last s))"
  shows "trim s = s"
proof (cases "s = []")
  case False
  have l: "\<not> is_ws (hd (rev s))" using assms False by (simp add: hd_rev)
  obtain a t where s: "s = a # t" using False by (cases s) auto
  with assms have a: "\<not> is_ws a" by simp
  obtain z u where r: "rev s = z # u" using False by (cases "rev s") auto
  have "dropWhile is_ws s = s" using s a by simp
  moreover have "dropWhile is_ws (rev s) = rev s" using r l by simp
  ultimately show ?thesis by (simp add: trim_def)
qed (simp add: trim_def)

lemma trim_no_ws: "list_all (\<lambda>c. \<not> is_ws c) s \<Longrightarrow> trim s = s"
  by (rule trim_id) (cases "s = []"; simp add: list_all_iff)

lemma decode_hex_hex_lower: "decode_hex (hex_lower bs) = Inr bs"
proof -
  have "list_all (\<lambda>c. \<not> is_ws c) (hex_lower bs)"
    using hex_lower_hexdigits [of bs] by (auto simp: list_all_iff hexdigit_not_ws)
  then show ?thesis
    by (simp add: decode_hex_def trim_no_ws hex_lower_hexdigits hex_pairs_hex_lower)
qed

lemma from_prefix_as_str: "from_prefix (as_str s) = Some s"
  by (cases s) (simp_all add: from_prefix_def ascii_lower_def)

lemma split_once_append:
  "c \<notin> set a \<Longrightarrow> split_once c (a @ c # b) = Some (a, b)"
  by (induction a) auto

lemma split_once_None: "c \<notin> set s \<Longrightarrow> split_once c s = None"
  by (induction s) auto

lemma split_once_Some: "split_once c s = Some (a, b) \<Longrightarrow> s = a @ c # b \<and> c \<notin> set a"
  by (induction s arbitrary: a b) (auto split: if_splits)

lemma as_str_chars: "CHR '':'' \<notin> set (as_str s)" "CHR ''-'' \<notin> set (as_str s)"
  by (cases s; simp)+

lemma hex_lower_chars: "CHR ''-'' \<notin> set (hex_lower bs)"
proof
  assume "CHR ''-'' \<in> set (hex_lower bs)"
  then have "is_hexdigit (CHR ''-'')" using hex_lower_hexdigits [of bs] by (simp add: list_all_iff)
  then show False by (simp add: is_hexdigit_def)
qed

lemma coord_display_trim: "trim (coord_display c) = coord_display c"
proof (rule trim_no_ws)
  have "list_all (\<lambda>x. \<not> is_ws x) (as_str s)" for s
    by (cases s) (simp_all add: is_ws_def)
  moreover have "list_all (\<lambda>x. \<not> is_ws x) (hex_lower d)" for d
    using hex_lower_hexdigits [of d] by (auto simp: list_all_iff hexdigit_not_ws)
  ultimately show "list_all (\<lambda>x. \<not> is_ws x) (coord_display c)"
    by (simp add: coord_display_def coord_hex_def is_ws_def)
qed

lemma coord_display_no_swh: "strip_prefix ''swh:1:cnt:'' (coord_display c) = None"
  by (cases "c_scheme c") (simp_all add: coord_display_def strip_prefix_def)

lemma coord_parse_display:
  assumes "coord_wf c"
  shows "coord_parse cs (coord_display c) = Inr c"
proof -
  have dash: "CHR ''-'' \<notin> set (coord_display c)"
    by (auto simp: coord_display_def coord_hex_def as_str_chars hex_lower_chars)
  then have "parse_sri cs (coord_display c) = None"
    by (simp add: parse_sri_def split_once_None)
  moreover have "split_once (CHR '':'') (coord_display c) = Some (as_str (c_scheme c), coord_hex c)"
    unfolding coord_display_def by (simp add: split_once_append as_str_chars)
  moreover have "coord_new (c_scheme c) (c_digest c) = Inr c"
    using assms by (simp add: coord_new_def coord_wf_def)
  ultimately show ?thesis
    by (simp only: coord_parse_def coord_display_trim coord_display_no_swh from_prefix_as_str
        coord_hex_def decode_hex_hex_lower Let_def option.case prod.case bindR_simps)
qed

lemma coord_display_inj:
  assumes "coord_wf c" "coord_wf d" "coord_display c = coord_display d"
  shows "c = d"
proof -
  have "(Inr c :: coord_error + coord) = Inr d"
    by (metis assms coord_parse_display)
  then show ?thesis by simp
qed

text \<open>
  C27. Printing then parsing gives the same coordinate back, for every coordinate whose digest has
  its scheme's length (the only ones \<open>Coord::new\<close> makes), whatever the base64 and base32
  decoders do.
\<close>

theorem coord_roundtrip:
  assumes "coord_wf c"
  shows "coord_parse cs (coord_display c) = Inr c"
  using assms by (rule coord_parse_display)

theorem coord_roundtrip_witness:
  "coord_parse \<lparr>b64_decode = (\<lambda>_. None), b32_decode = (\<lambda>_. None)\<rparr>
     (coord_display \<lparr>c_scheme = Blake2s256, c_digest = replicate 32 171\<rparr>)
   = Inr \<lparr>c_scheme = Blake2s256, c_digest = replicate 32 171\<rparr>"
  by (rule coord_roundtrip) (simp add: coord_wf_def)

text \<open>
  Whatever spelling is parsed (SWHID, SRI, \<open>scheme:hex\<close>, base32, bare hex), an accepted
  coordinate has a digest of exactly its scheme's length; and a bare hex string of 64 digits is
  always read as sha256, never as blake2s256.
\<close>

theorem coord_parse_sound:
  assumes "coord_parse cs s = Inr c"
  shows "length (c_digest c) = digest_len (c_scheme c) \<and>
         (CHR '':'' \<notin> set (trim s) \<and> CHR ''-'' \<notin> set (trim s) \<longrightarrow> c_scheme c \<noteq> Blake2s256)"
proof -
  have "c_scheme c \<noteq> Blake2s256" if colon: "CHR '':'' \<notin> set (trim s)" and dash: "CHR ''-'' \<notin> set (trim s)"
  proof -
    have "strip_prefix ''swh:1:cnt:'' (trim s) = None"
    proof (rule ccontr)
      assume "strip_prefix ''swh:1:cnt:'' (trim s) \<noteq> None"
      then have pre: "take (length ''swh:1:cnt:'') (trim s) = ''swh:1:cnt:''"
        by (metis strip_prefix_def)
      have "CHR '':'' \<in> set (take (length ''swh:1:cnt:'') (trim s))" unfolding pre by simp
      with colon show False by (meson in_set_takeD)
    qed
    then have "parse_bare cs (trim s) = Inr c"
      using assms colon dash by (simp add: coord_parse_def parse_sri_def split_once_None)
    then show ?thesis
      by (auto simp: parse_bare_def bindR_eq_Inr split: option.splits if_splits dest: coord_new_wf)
  qed
  then show ?thesis using coord_parse_wf [OF assms] by (simp add: coord_wf_def)
qed

theorem coord_parse_sound_witness:
  "coord_parse \<lparr>b64_decode = (\<lambda>_. None), b32_decode = (\<lambda>_. None)\<rparr> (hex_lower (replicate 32 1))
     = Inr \<lparr>c_scheme = Sha256, c_digest = replicate 32 1\<rparr> \<and>
   length (replicate 32 (1 :: byte)) = digest_len Sha256"
proof -
  have p: "coord_parse \<lparr>b64_decode = (\<lambda>_. None), b32_decode = (\<lambda>_. None)\<rparr> (hex_lower (replicate 32 1))
     = Inr \<lparr>c_scheme = Sha256, c_digest = replicate 32 1\<rparr>"
    by code_simp
  show ?thesis using p coord_parse_sound [OF p] by simp
qed

end
