(* ===== verification/Hdx_Filter.thy ===== *)
theory Hdx_Filter
  imports Hdx_Dcso Hdx_Coord
begin

text \<open>
  \<open>src/src/filter.rs\<close>: the bloom filter over a mapped file (\<open>Bloom\<close>), the filter under
  construction (\<open>BloomBuilder\<close>), folding a filter to half its size, and the spelling of a digest
  as a bloom key. Files are byte lists. The two floating-point results (\<open>fill\<close> and \<open>fill^k\<close>) are
  the parameter \<open>pw\<close>, which yields the bit pattern written to the header.
\<close>

subsection \<open>Reading a filter\<close>

record bloom =
  b_k :: u64
  b_m :: u64
  b_mmap :: "byte list"
  b_n_elements :: u64

definition bloom_open :: "byte list \<Rightarrow> bloom_error + bloom" where
  "bloom_open raw =
     bindR (header_parse raw) (\<lambda>h.
       if length raw < HEADER_LEN + bits_len h then Inl Truncated
       else Inr \<lparr>b_k = h_k h, b_m = h_m h, b_mmap = raw, b_n_elements = h_n_elements h\<rparr>)"

text \<open>The slice \<open>mmap[off..off + 8]\<close> panics when it ends past the map.\<close>

definition mmap_word :: "byte list \<Rightarrow> nat \<Rightarrow> u64 option" where
  "mmap_word raw off =
     (if off + 8 \<le> length raw then Some (bytes_word (window raw off 8)) else None)"

definition bloom_check :: "bloom \<Rightarrow> byte list \<Rightarrow> bool option" where
  "bloom_check b value = check_with value (b_k b) (b_m b) (mmap_word (b_mmap b))"

subsection \<open>Building a filter\<close>

record builder =
  bb_k :: u64
  bb_m :: u64
  bb_n_capacity :: u64
  bb_p :: u64
  bb_n_elements :: u64
  bb_bits :: "u64 list"

definition builder_new ::
  "(u64 \<Rightarrow> u64 \<Rightarrow> u64) \<Rightarrow> (u64 \<Rightarrow> u64 \<Rightarrow> u64) \<Rightarrow> (u64 \<Rightarrow> bool) \<Rightarrow> u64 \<Rightarrow> u64 \<Rightarrow> bloom_error + builder"
  where
  "builder_new fm fk p_ok n p =
     bindR (size_for fm fk p_ok n p) (\<lambda>(m, k).
       Inr \<lparr>bb_k = k, bb_m = m, bb_n_capacity = n, bb_p = p, bb_n_elements = 0,
            bb_bits = replicate (div_ceil (unat m) 64) 0\<rparr>)"

text \<open>\<open>bits[(bit >> 6)] |= 1 << (bit & 63)\<close>; an index out of range panics.\<close>

definition set_bit_at :: "u64 list \<Rightarrow> u64 \<Rightarrow> u64 list option" where
  "set_bit_at ws b =
     (let i = unat (drop_bit 6 b) in
      if i < length ws then Some (ws[i := (ws ! i) OR push_bit (unat (b AND 63)) 1]) else None)"

fun set_bits_at :: "u64 list \<Rightarrow> u64 list \<Rightarrow> u64 list option" where
  "set_bits_at ws [] = Some ws"
| "set_bits_at ws (b # bs) =
     (case set_bit_at ws b of None \<Rightarrow> None | Some ws' \<Rightarrow> set_bits_at ws' bs)"

definition builder_add :: "builder \<Rightarrow> byte list \<Rightarrow> builder option" where
  "builder_add b value =
     (if bb_m b = 0 \<and> bb_k b \<noteq> 0 then None
      else map_option (\<lambda>ws. b\<lparr>bb_bits := ws, bb_n_elements := bb_n_elements b + 1\<rparr>)
             (set_bits_at (bb_bits b) (bit_positions value (bb_k b) (bb_m b))))"

fun builder_add_all :: "builder \<Rightarrow> byte list list \<Rightarrow> builder option" where
  "builder_add_all b [] = Some b"
| "builder_add_all b (v # vs) =
     (case builder_add b v of None \<Rightarrow> None | Some b' \<Rightarrow> builder_add_all b' vs)"

definition builder_size_bytes :: "builder \<Rightarrow> nat" where
  "builder_size_bytes b = HEADER_LEN + length (bb_bits b) * 8"

definition builder_write :: "builder \<Rightarrow> byte list" where
  "builder_write b =
     header_to_bytes \<lparr>h_version = 1, h_n_capacity = bb_n_capacity b, h_p_bits = bb_p b,
       h_k = bb_k b, h_m = bb_m b, h_n_elements = bb_n_elements b\<rparr>
     @ concat (map word_bytes (bb_bits b))"

subsection \<open>Folding\<close>

record fold_stats =
  fs_m_old :: u64
  fs_m_new :: u64
  fs_ones :: nat
  fs_p_new :: u64

definition low_ones :: "nat \<Rightarrow> u64" where
  "low_ones r = push_bit r 1 - 1"

text \<open>Word \<open>i\<close> of the source's bit array; past the array and past bit \<open>m\<close> it reads as zero.\<close>

definition src_word :: "byte list \<Rightarrow> nat \<Rightarrow> nat \<Rightarrow> u64" where
  "src_word raw m i =
     (let words_total = div_ceil m 64 in
      if words_total \<le> i then 0
      else let w = bytes_word (window raw (HEADER_LEN + i * 8) 8) in
        if i = words_total - 1 \<and> m mod 64 \<noteq> 0 then w AND low_ones (m mod 64) else w)"

definition fold_word :: "byte list \<Rightarrow> nat \<Rightarrow> nat \<Rightarrow> u64" where
  "fold_word raw m j =
     (let m2 = m div 2; words2 = div_ceil m2 64; off = m2 + 64 * j;
          wi = off div 64; sh = off mod 64;
          hi = (if sh = 0 then src_word raw m wi
                else drop_bit sh (src_word raw m wi)
                     OR push_bit (64 - sh) (src_word raw m (wi + 1)));
          d = src_word raw m j OR hi
      in if j = words2 - 1 \<and> m2 mod 64 \<noteq> 0 then d AND low_ones (m2 mod 64) else d)"

definition count_ones :: "u64 \<Rightarrow> nat" where
  "count_ones w = length (filter (bit w) [0..<64])"

definition fold_words :: "byte list \<Rightarrow> nat \<Rightarrow> u64 list" where
  "fold_words raw m = map (fold_word raw m) [0..<div_ceil (m div 2) 64]"

definition fold_filter ::
  "(nat \<Rightarrow> u64 \<Rightarrow> u64 \<Rightarrow> u64) \<Rightarrow> byte list \<Rightarrow> bloom_error + (byte list \<times> fold_stats)" where
  "fold_filter pw raw =
     bindR (header_parse raw) (\<lambda>h.
       let m = unat (h_m h) in
       if m mod 2 \<noteq> 0 then Inl OddBitCount
       else if length raw < HEADER_LEN + div_ceil m 64 * 8 then Inl Truncated
       else let m2 = h_m h div 2; ds = fold_words raw m;
                ones = sum_list (map count_ones ds); p_new = pw ones m2 (h_k h)
            in Inr (header_to_bytes \<lparr>h_version = 1, h_n_capacity = h_n_capacity h,
                      h_p_bits = p_new, h_k = h_k h, h_m = m2, h_n_elements = h_n_elements h\<rparr>
                    @ concat (map word_bytes ds),
                    \<lparr>fs_m_old = h_m h, fs_m_new = m2, fs_ones = ones, fs_p_new = p_new\<rparr>))"

subsection \<open>Keys and names\<close>

fun bloom_key :: "scheme \<Rightarrow> byte list \<Rightarrow> string option" where
  "bloom_key Sha1 d = Some (hex_upper d)"
| "bloom_key Md5 d = Some (hex_upper d)"
| "bloom_key Sha256 d = Some (hex_lower d)"
| "bloom_key _ d = None"

text \<open>\<open>load_dir\<close>'s reading of a file name \<open><name>.<scheme>.bloom\<close>.\<close>

definition filter_name :: "string \<Rightarrow> (string \<times> scheme) option" where
  "filter_name fname =
     (case split_on (CHR ''.'') fname of
        [name, sch, ext] \<Rightarrow>
          if ext \<noteq> ''bloom'' then None
          else if sch = ''md5'' then Some (name, Md5)
          else if sch = ''sha1'' then Some (name, Sha1)
          else if sch = ''sha256'' then Some (name, Sha256)
          else None
      | _ \<Rightarrow> None)"

record named_filter =
  nf_name :: string
  nf_scheme :: scheme
  nf_bloom :: bloom
  nf_bytes :: nat

definition load_dir :: "(string \<times> byte list) list \<Rightarrow> named_filter list" where
  "load_dir entries =
     sort_key nf_name
       (List.map_filter (\<lambda>(fname, raw).
          case filter_name fname of
            None \<Rightarrow> None
          | Some (name, sch) \<Rightarrow>
              (case bloom_open raw of
                 Inl _ \<Rightarrow> None
               | Inr b \<Rightarrow> Some \<lparr>nf_name = name, nf_scheme = sch, nf_bloom = b, nf_bytes = length raw\<rparr>))
        entries)"

subsection \<open>The bit set a filter stands for\<close>

text \<open>
  The interface a bloom filter's owner relies on: setting one bit of a store of \<open>cap\<close> bits makes
  exactly that bit readable and leaves the others alone.
\<close>

locale bit_store =
  fixes getb :: "'s \<Rightarrow> nat \<Rightarrow> bool"
    and setb :: "nat \<Rightarrow> 's \<Rightarrow> 's option"
    and cap :: "'s \<Rightarrow> nat"
  assumes setb_total: "b < cap s \<Longrightarrow> \<exists>s'. setb b s = Some s'"
    and setb_cap: "setb b s = Some s' \<Longrightarrow> cap s' = cap s"
    and getb_setb: "setb b s = Some s' \<Longrightarrow> b < cap s \<Longrightarrow> c < cap s \<Longrightarrow>
          getb s' c \<longleftrightarrow> c = b \<or> getb s c"
begin

primrec set_all :: "nat list \<Rightarrow> 's \<Rightarrow> 's option" where
  "set_all [] s = Some s"
| "set_all (b # bs) s = (case setb b s of None \<Rightarrow> None | Some s' \<Rightarrow> set_all bs s')"

lemma set_all_total:
  "(\<And>b. b \<in> set bs \<Longrightarrow> b < cap s) \<Longrightarrow> \<exists>s'. set_all bs s = Some s' \<and> cap s' = cap s"
proof (induction bs arbitrary: s)
  case (Cons b bs)
  obtain s1 where s1: "setb b s = Some s1" using setb_total Cons.prems by (meson list.set_intros(1))
  then have c: "cap s1 = cap s" by (rule setb_cap)
  obtain s2 where "set_all bs s1 = Some s2" "cap s2 = cap s1"
    using Cons.IH [of s1] Cons.prems c by auto
  then show ?case using s1 c by simp
qed simp

lemma set_all_getb:
  "set_all bs s = Some s' \<Longrightarrow> (\<And>b. b \<in> set bs \<Longrightarrow> b < cap s) \<Longrightarrow> c < cap s \<Longrightarrow>
   getb s' c \<longleftrightarrow> c \<in> set bs \<or> getb s c"
proof (induction bs arbitrary: s)
  case (Cons b bs)
  obtain s1 where s1: "setb b s = Some s1" and r: "set_all bs s1 = Some s'"
    using Cons.prems(1) by (auto split: option.splits)
  have "cap s1 = cap s" using s1 by (rule setb_cap)
  then show ?case
    using Cons.IH [OF r] Cons.prems getb_setb [OF s1] by auto
qed simp

end

definition words_bit :: "u64 list \<Rightarrow> nat \<Rightarrow> bool" where
  "words_bit ws b = bit (ws ! (b div 64)) (b mod 64)"

lemma set_bit_at_eq:
  "set_bit_at ws b =
     (if unat b div 64 < length ws
      then Some (ws[unat b div 64 := (ws ! (unat b div 64)) OR push_bit (unat b mod 64) 1]) else None)"
proof -
  have "unat (drop_bit 6 b) = unat b div 64"
    unfolding unat_drop_bit_eq by (simp add: drop_bit_eq_div)
  moreover have "unat (b AND 63) = unat b mod 64"
  proof -
    have "b AND 63 = take_bit 6 b" by (simp add: take_bit_eq_mask mask_eq_exp_minus_1)
    then show ?thesis by (simp add: unsigned_take_bit_eq take_bit_eq_mod unat_mod)
  qed
  ultimately show ?thesis by (simp add: set_bit_at_def Let_def)
qed

lemma words_bit_update:
  assumes "b < 64 * length ws" "c < 64 * length ws"
  shows "words_bit (ws[b div 64 := (ws ! (b div 64)) OR push_bit (b mod 64) 1]) c
     \<longleftrightarrow> c = b \<or> words_bit ws c"
proof (cases "c div 64 = b div 64")
  case True
  have "bit (push_bit (b mod 64) (1 :: u64)) (c mod 64) \<longleftrightarrow> c mod 64 = b mod 64"
    by (auto simp: bit_exp_iff possible_bit_word)
  moreover have "c mod 64 = b mod 64 \<longleftrightarrow> c = b"
    using True by (metis div_mult_mod_eq)
  moreover have "b div 64 < length ws" using assms(1) by (simp add: div_less_iff_less_mult mult.commute)
  ultimately show ?thesis using True by (simp add: words_bit_def bit_or_iff disj_commute)
next
  case False
  then show ?thesis by (auto simp: words_bit_def)
qed

lemma set_bits_at_props:
  "set_bits_at ws bs = Some ws' \<Longrightarrow> length ws' = length ws"
  by (induction bs arbitrary: ws)
    (auto simp: set_bit_at_eq split: option.splits if_splits)

interpretation wb: bit_store words_bit
    "\<lambda>b ws. if b div 64 < length ws
            then Some (ws[b div 64 := (ws ! (b div 64)) OR push_bit (b mod 64) 1]) else None"
    "\<lambda>ws. 64 * length ws"
proof unfold_locales
  fix b c :: nat and s s' :: "u64 list"
  let ?set = "if b div 64 < length s
            then Some (s[b div 64 := (s ! (b div 64)) OR push_bit (b mod 64) 1]) else None"
  show "b < 64 * length s \<Longrightarrow> \<exists>s'. ?set = Some s'"
    by (simp add: div_less_iff_less_mult mult.commute)
  show "?set = Some s' \<Longrightarrow> 64 * length s' = 64 * length s" by (auto split: if_splits)
  show "words_bit s' c \<longleftrightarrow> c = b \<or> words_bit s c"
    if "?set = Some s'" "b < 64 * length s" "c < 64 * length s"
  proof -
    have "s' = s[b div 64 := (s ! (b div 64)) OR push_bit (b mod 64) 1]"
      using that(1) by (simp only: split: if_splits) simp_all
    then show ?thesis using words_bit_update [OF that(2,3)] by simp
  qed
qed

lemma set_bits_at_wb: "set_bits_at ws bs = wb.set_all (map unat bs) ws"
  by (induction bs arbitrary: ws) (simp_all add: set_bit_at_eq)

lemma set_bits_at_total:
  "(\<And>b. b \<in> set bs \<Longrightarrow> unat b < 64 * length ws) \<Longrightarrow> \<exists>ws'. set_bits_at ws bs = Some ws'"
  using wb.set_all_total [of "map unat bs" ws] by (auto simp: set_bits_at_wb)

lemma set_bits_at_bit:
  assumes "set_bits_at ws bs = Some ws'" "\<And>b. b \<in> set bs \<Longrightarrow> unat b < 64 * length ws"
    and "c < 64 * length ws"
  shows "words_bit ws' c \<longleftrightarrow> c \<in> unat ` set bs \<or> words_bit ws c"
  using wb.set_all_getb [of "map unat bs" ws ws' c] assms by (auto simp: set_bits_at_wb)


subsection \<open>Reading back what was written\<close>

lemma mmap_word_words:
  assumes "length hdr = HEADER_LEN" "i < length ws"
  shows "mmap_word (hdr @ concat (map word_bytes ws) @ rest) (HEADER_LEN + i * 8) = Some (ws ! i)"
proof -
  have "window (hdr @ concat (map word_bytes ws) @ rest) (HEADER_LEN + i * 8) 8
      = window (concat (map word_bytes ws)) (8 * i) 8"
    using assms by (simp add: window_append_right window_append_left mult.commute)
  also have "\<dots> = word_bytes (ws ! i)" using assms by (simp add: window_word_bytes_concat)
  finally have w: "window (hdr @ concat (map word_bytes ws) @ rest) (HEADER_LEN + i * 8) 8
      = word_bytes (ws ! i)" .
  then show ?thesis using assms by (simp add: mmap_word_def codec_simps)
qed

lemma check_words_iff:
  assumes m: "m \<noteq> 0" and ws: "length ws = div_ceil (unat m) 64" and hdr: "length hdr = HEADER_LEN"
  shows "check_with v k m (mmap_word (hdr @ concat (map word_bytes ws) @ rest)) = Some True
     \<longleftrightarrow> (\<forall>b \<in> set (bit_positions v k m). words_bit ws (unat b))"
proof -
  have idx: "unat b div 64 < length ws" if "b \<in> set (bit_positions v k m)" for b
  proof -
    have "unat b < unat m" using bit_positions_bound [OF m that] .
    also have "unat m \<le> div_ceil (unat m) 64 * 64" by (rule div_ceil_ge) simp
    finally show ?thesis using ws by (simp add: div_less_iff_less_mult)
  qed
  show ?thesis using m hdr idx
    by (auto simp: check_with_def check_bits_True_iff mmap_word_words words_bit_def)
qed

definition builder_wf :: "builder \<Rightarrow> bool" where
  "builder_wf b \<longleftrightarrow> bb_m b \<noteq> 0 \<and> length (bb_bits b) = div_ceil (unat (bb_m b)) 64"

definition builder_has :: "builder \<Rightarrow> byte list \<Rightarrow> bool" where
  "builder_has b v \<longleftrightarrow> (\<forall>p \<in> set (bit_positions v (bb_k b) (bb_m b)). words_bit (bb_bits b) (unat p))"

lemma builder_wf_new:
  "builder_new fm fk p_ok n p = Inr b \<Longrightarrow> bb_m b \<noteq> 0 \<Longrightarrow> builder_wf b"
  by (auto simp: builder_new_def size_for_def builder_wf_def Let_def split: if_splits)

lemma builder_positions_in_range:
  assumes "builder_wf b" "p \<in> set (bit_positions v (bb_k b) (bb_m b))"
  shows "unat p < 64 * length (bb_bits b)"
proof -
  have "unat p < unat (bb_m b)" using assms bit_positions_bound unfolding builder_wf_def by blast
  also have "\<dots> \<le> div_ceil (unat (bb_m b)) 64 * 64" by (rule div_ceil_ge) simp
  finally show ?thesis using assms(1) by (simp add: builder_wf_def mult.commute)
qed

lemma builder_add_step:
  assumes wf: "builder_wf b"
  obtains b' where "builder_add b v = Some b'" "builder_wf b'" "bb_k b' = bb_k b" "bb_m b' = bb_m b"
    "builder_has b' v" "\<And>u. builder_has b u \<Longrightarrow> builder_has b' u"
    "bb_n_elements b' = bb_n_elements b + 1"
proof -
  note range = builder_positions_in_range [OF wf]
  obtain ws where ws: "set_bits_at (bb_bits b) (bit_positions v (bb_k b) (bb_m b)) = Some ws"
    using set_bits_at_total range by blast
  define b' where "b' = b\<lparr>bb_bits := ws, bb_n_elements := bb_n_elements b + 1\<rparr>"
  have "builder_add b v = Some b'"
    using wf ws by (simp add: builder_add_def builder_wf_def b'_def)
  moreover have "builder_wf b'"
    using wf set_bits_at_props [OF ws] by (simp add: builder_wf_def b'_def)
  moreover have "builder_has b' v"
    using set_bits_at_bit [OF ws] range by (auto simp: builder_has_def b'_def)
  moreover have "builder_has b' u" if "builder_has b u" for u
    using set_bits_at_bit [OF ws] range that by (auto simp: builder_has_def b'_def)
  ultimately show ?thesis using that by (simp add: b'_def)
qed

lemma builder_add_all_has:
  assumes "builder_wf b"
  shows "\<exists>b'. builder_add_all b vs = Some b' \<and> builder_wf b' \<and> bb_k b' = bb_k b \<and> bb_m b' = bb_m b
     \<and> (\<forall>v \<in> set vs. builder_has b' v) \<and> (\<forall>u. builder_has b u \<longrightarrow> builder_has b' u)
     \<and> bb_n_elements b' = bb_n_elements b + of_nat (length vs)"
  using assms
proof (induction vs arbitrary: b)
  case (Cons v vs)
  obtain b1 where b1: "builder_add b v = Some b1" "builder_wf b1" "bb_k b1 = bb_k b" "bb_m b1 = bb_m b"
    "builder_has b1 v" "\<And>u. builder_has b u \<Longrightarrow> builder_has b1 u"
    "bb_n_elements b1 = bb_n_elements b + 1"
    using builder_add_step [OF Cons.prems] by blast
  obtain b' where "builder_add_all b1 vs = Some b'" "builder_wf b'" "bb_k b' = bb_k b1"
    "bb_m b' = bb_m b1" "\<forall>v \<in> set vs. builder_has b' v" "\<forall>u. builder_has b1 u \<longrightarrow> builder_has b' u"
    "bb_n_elements b' = bb_n_elements b1 + of_nat (length vs)"
    using Cons.IH [OF b1(2)] by blast
  then show ?case using b1 by (auto simp: algebra_simps)
qed simp

lemma one_and_255: "(1 :: u64) AND 255 = 1"
  by simp

lemma bloom_open_append:
  assumes "h_version h AND 255 = 1" "bits_len h \<le> length arr"
  shows "bloom_open (header_to_bytes h @ arr)
       = Inr \<lparr>b_k = h_k h, b_m = h_m h, b_mmap = header_to_bytes h @ arr, b_n_elements = h_n_elements h\<rparr>"
  using assms by (simp add: bloom_open_def header_parse_append)

lemma builder_write_open:
  assumes "builder_wf b"
  shows "bloom_open (builder_write b) = Inr \<lparr>b_k = bb_k b, b_m = bb_m b,
           b_mmap = builder_write b, b_n_elements = bb_n_elements b\<rparr>"
  using assms by (simp add: builder_write_def bloom_open_append bits_len_def builder_wf_def)

lemma builder_write_check:
  assumes "builder_wf b" "bloom_open (builder_write b) = Inr f"
  shows "bloom_check f v = Some True \<longleftrightarrow> builder_has b v"
proof -
  have f: "f = \<lparr>b_k = bb_k b, b_m = bb_m b, b_mmap = builder_write b, b_n_elements = bb_n_elements b\<rparr>"
    using builder_write_open [OF assms(1)] assms(2) by simp
  show ?thesis
    using assms(1) check_words_iff [where rest = "[]" and ws = "bb_bits b" and m = "bb_m b"]
    by (simp add: f bloom_check_def builder_write_def builder_wf_def builder_has_def)
qed

text \<open>
  C4. A filter that is sized, filled and written is a readable filter without false negatives:
  no step panics, the raw opens, it records how many keys were added, and every added key is
  found in it. (The sizing formula yields a positive bit count: its documented behaviour.)
\<close>

theorem build_write_open_check:
  assumes "builder_new fm fk p_ok n p = Inr b" "bb_m b \<noteq> 0"
  shows "\<exists>b' f. builder_add_all b keys = Some b' \<and> bloom_open (builder_write b') = Inr f \<and>
           b_n_elements f = of_nat (length keys) \<and>
           length (builder_write b') = builder_size_bytes b' \<and>
           (\<forall>v \<in> set keys. bloom_check f v = Some True)"
proof -
  have wf: "builder_wf b" using assms by (rule builder_wf_new)
  obtain b' where b': "builder_add_all b keys = Some b'" "builder_wf b'"
      "\<forall>v \<in> set keys. builder_has b' v" "bb_n_elements b' = bb_n_elements b + of_nat (length keys)"
    using builder_add_all_has [OF wf, of keys] by blast
  have "bb_n_elements b = 0"
    using assms(1) by (auto simp: builder_new_def size_for_def Let_def split: if_splits)
  then show ?thesis
    using b' builder_write_open [OF b'(2)] builder_write_check [OF b'(2)]
    by (simp add: builder_size_bytes_def builder_write_def mult.commute)
qed

theorem build_write_open_check_witness:
  "\<exists>b b' f. builder_new (\<lambda>n p. 96) (\<lambda>m n. 7) (\<lambda>p. True) 10 4576918229304087675 = Inr b \<and>
     builder_add_all b [[65, 57], [70, 48]] = Some b' \<and> bloom_open (builder_write b') = Inr f \<and>
     bloom_check f [65, 57] = Some True"
proof -
  define b where "b = \<lparr>bb_k = 7, bb_m = 96, bb_n_capacity = 10, bb_p = 4576918229304087675,
      bb_n_elements = 0, bb_bits = replicate 2 0\<rparr>"
  have new: "builder_new (\<lambda>n p. 96) (\<lambda>m n. 7) (\<lambda>p. True) 10 4576918229304087675 = Inr b"
    by (simp add: builder_new_def size_for_def b_def div_ceil_def)
  have "bb_m b \<noteq> 0" by (simp add: b_def)
  from build_write_open_check [OF new this, of "[[65, 57], [70, 48]]"] new show ?thesis by auto
qed

subsection \<open>Folding preserves the bit set modulo the half\<close>

text \<open>Bit \<open>b\<close> of the source's array; bits at or past \<open>m\<close> are clear.\<close>

definition src_bit :: "byte list \<Rightarrow> nat \<Rightarrow> nat \<Rightarrow> bool" where
  "src_bit raw m b \<longleftrightarrow>
     b < m \<and> bit (bytes_word (window raw (HEADER_LEN + b div 64 * 8) 8)) (b mod 64)"

lemma bit_low_ones: "bit (low_ones r) n \<longleftrightarrow> n < 64 \<and> n < r"
  by (simp add: low_ones_def mask_eq_exp_minus_1 [symmetric] bit_mask_iff possible_bit_word)

lemma last_word_bits:
  fixes m n :: nat
  assumes "0 < m" "n < 64"
  shows "64 * ((m - 1) div 64) + n < m \<longleftrightarrow> (m mod 64 \<noteq> 0 \<longrightarrow> n < m mod 64)"
proof -
  obtain k where k: "m = Suc k" using assms(1) by (cases m) auto
  have "64 * (k div 64) + k mod 64 = k" by simp
  then have "64 * (k div 64) + n < Suc k \<longleftrightarrow> n \<le> k mod 64" by linarith
  moreover have "k mod 64 < 64" by simp
  ultimately show ?thesis using assms(2) by (auto simp: k mod_Suc)
qed

lemma bit_src_word:
  assumes "n < 64"
  shows "bit (src_word raw m i) n \<longleftrightarrow> src_bit raw m (64 * i + n)"
proof -
  have d: "(64 * i + n) div 64 = i" "(64 * i + n) mod 64 = n" using assms by simp_all
  consider "div_ceil m 64 \<le> i" | "i < div_ceil m 64" "i \<noteq> div_ceil m 64 - 1"
    | "i = div_ceil m 64 - 1" "0 < div_ceil m 64" by linarith
  then show ?thesis
  proof cases
    case 1
    have "m \<le> div_ceil m 64 * 64" by (rule div_ceil_ge) simp
    with 1 have "m \<le> 64 * i" by linarith
    with 1 show ?thesis by (simp add: src_word_def src_bit_def Let_def)
  next
    case 2
    have "0 < m" using 2 by (cases m) simp_all
    then have "(div_ceil m 64 - 1) * 64 < m" by (intro div_ceil_lt) simp_all
    with 2 assms have "64 * i + n < m" by linarith
    with 2 d show ?thesis by (simp add: src_word_def src_bit_def Let_def)
  next
    case 3
    have m: "0 < m" using 3 by (cases m) simp_all
    have i: "i = (m - 1) div 64" using 3 m by (simp add: div_ceil_pos_eq)
    have lt: "64 * i + n < m \<longleftrightarrow> (m mod 64 \<noteq> 0 \<longrightarrow> n < m mod 64)"
      unfolding i by (rule last_word_bits [OF m assms])
    show ?thesis
      using 3 d lt assms
      by (auto simp: src_word_def src_bit_def Let_def bit_and_iff bit_low_ones)
  qed
qed

lemma bit_shifted_pair:
  fixes v w :: u64
  assumes "n < 64" "0 < sh" "sh < 64"
  shows "bit (drop_bit sh v OR push_bit (64 - sh) w) n
     \<longleftrightarrow> (if n + sh < 64 then bit v (n + sh) else bit w (n + sh - 64))"
proof (cases "n + sh < 64")
  case True
  then show ?thesis
    by (auto simp: bit_or_iff bit_drop_bit_eq bit_push_bit_iff add.commute)
next
  case False
  then have "\<not> bit v (sh + n)" by (simp add: impossible_bit possible_bit_word)
  moreover have "n - (64 - sh) = n + sh - 64" using False assms by simp
  moreover have "64 - sh \<le> n" using False by linarith
  ultimately show ?thesis using False assms
    by (simp add: bit_or_iff bit_drop_bit_eq bit_push_bit_iff possible_bit_word)
qed

lemma bit_fold_word:
  assumes "even m" "j < div_ceil (m div 2) 64" "n < 64"
  shows "bit (fold_word raw m j) n \<longleftrightarrow> 64 * j + n < m div 2 \<and>
     (src_bit raw m (64 * j + n) \<or> src_bit raw m (64 * j + n + m div 2))"
proof -
  define m2 where "m2 = m div 2"
  define off where "off = m2 + 64 * j"
  define hi where "hi = (if off mod 64 = 0 then src_word raw m (off div 64)
                else drop_bit (off mod 64) (src_word raw m (off div 64))
                     OR push_bit (64 - off mod 64) (src_word raw m (off div 64 + 1)))"
  have hi: "bit hi n \<longleftrightarrow> src_bit raw m (64 * j + n + m2)"
  proof (cases "off mod 64 = 0")
    case True
    then have eq: "64 * (off div 64) + n = 64 * j + n + m2"
      by (metis add.commute add.left_commute div_mult_mod_eq mult.commute add_0_right off_def)
    have "hi = src_word raw m (off div 64)" using True by (simp add: hi_def)
    then show ?thesis by (simp only: bit_src_word [OF assms(3)] eq)
  next
    case False
    let ?sh = "off mod 64"
    have o: "64 * (off div 64) + ?sh = 64 * j + m2"
      by (metis add.commute mult_div_mod_eq off_def)
    have sh: "0 < ?sh" "?sh < 64" using False by simp_all
    show ?thesis
    proof (cases "n + ?sh < 64")
      case True
      then have eq: "64 * (off div 64) + (n + ?sh) = 64 * j + n + m2" using o by linarith
      have "bit hi n \<longleftrightarrow> src_bit raw m (64 * (off div 64) + (n + ?sh))"
        using True False assms(3) sh bit_src_word [OF True, of raw m "off div 64"]
        by (simp only: hi_def if_False bit_shifted_pair if_True)
      then show ?thesis by (simp only: eq)
    next
      case big: False
      have lt: "n + ?sh - 64 < 64" using sh assms by linarith
      have eq: "64 * (off div 64 + 1) + (n + ?sh - 64) = 64 * j + n + m2" using o big by simp
      have "bit hi n \<longleftrightarrow> src_bit raw m (64 * (off div 64 + 1) + (n + ?sh - 64))"
        using big False assms(3) sh bit_src_word [OF lt, of raw m "off div 64 + 1"]
        by (simp only: hi_def if_False bit_shifted_pair)
      then show ?thesis by (simp only: eq)
    qed
  qed
  have in_half: "64 * j + n < m2 \<longleftrightarrow>
      (j = div_ceil m2 64 - 1 \<and> m2 mod 64 \<noteq> 0 \<longrightarrow> n < m2 mod 64)"
  proof -
    have pos: "0 < m2" using assms(2) by (cases m2) (simp_all add: m2_def)
    have q: "div_ceil m2 64 = Suc ((m2 - 1) div 64)" using pos by (simp add: div_ceil_pos_eq)
    have le: "j \<le> (m2 - 1) div 64" using assms(2) q by (simp add: m2_def)
    show ?thesis
    proof (cases "j = (m2 - 1) div 64")
      case True
      then show ?thesis using last_word_bits [OF pos assms(3)] q by simp
    next
      case False
      have "64 * ((m2 - 1) div 64) \<le> m2 - 1" by (metis div_times_less_eq_dividend mult.commute)
      then have "64 * j + n < m2" using False le assms(3) pos by linarith
      then show ?thesis using False q by simp
    qed
  qed
  have fw: "fold_word raw m j = (let d = src_word raw m j OR hi in
      if j = div_ceil m2 64 - 1 \<and> m2 mod 64 \<noteq> 0 then d AND low_ones (m2 mod 64) else d)"
    by (simp add: fold_word_def hi_def off_def m2_def Let_def)
  show ?thesis unfolding m2_def [symmetric] fw Let_def
    using in_half hi assms(3) by (auto simp: bit_or_iff bit_and_iff bit_low_ones bit_src_word)
qed

lemma length_fold_words [simp]: "length (fold_words raw m) = div_ceil (m div 2) 64"
  by (simp add: fold_words_def)

lemma words_bit_fold:
  assumes "even m" "b < 64 * div_ceil (m div 2) 64"
  shows "words_bit (fold_words raw m) b \<longleftrightarrow> b < m div 2 \<and>
     (src_bit raw m b \<or> src_bit raw m (b + m div 2))"
proof -
  have j: "b div 64 < div_ceil (m div 2) 64"
    using assms(2) by (simp add: div_less_iff_less_mult mult.commute)
  have "64 * (b div 64) + b mod 64 = b" by simp
  then show ?thesis
    using bit_fold_word [OF assms(1) j, of "b mod 64" raw] j
    by (simp add: words_bit_def fold_words_def)
qed

lemma bloom_check_src:
  assumes "bloom_open raw = Inr f" "bloom_check f v = Some True"
  shows "\<forall>b \<in> set (bit_positions v (b_k f) (b_m f)). src_bit raw (unat (b_m f)) (unat b)"
proof (cases "b_m f = 0")
  case True
  then show ?thesis using assms(2) by (simp add: bloom_check_def check_with_def bit_positions_def
        split: if_splits)
next
  case False
  have raw: "b_mmap f = raw"
    using assms(1) by (auto simp: bloom_open_def bindR_eq_Inr split: if_splits)
  show ?thesis
  proof
    fix b assume b: "b \<in> set (bit_positions v (b_k f) (b_m f))"
    obtain w where "mmap_word raw (HEADER_LEN + unat b div 64 * 8) = Some w" "bit w (unat b mod 64)"
      using assms(2) b False by (auto simp: bloom_check_def check_with_def check_bits_True_iff raw)
    then show "src_bit raw (unat (b_m f)) (unat b)"
      using bit_positions_bound [OF False b]
      by (auto simp: src_bit_def mmap_word_def split: if_splits)
  qed
qed

lemma fold_filter_Inr:
  assumes "fold_filter pw raw = Inr (out, st)"
  obtains h where "header_parse raw = Inr h" "even (unat (h_m h))"
    "HEADER_LEN + div_ceil (unat (h_m h)) 64 * 8 \<le> length raw"
    "out = header_to_bytes \<lparr>h_version = 1, h_n_capacity = h_n_capacity h, h_p_bits = fs_p_new st,
        h_k = h_k h, h_m = h_m h div 2, h_n_elements = h_n_elements h\<rparr>
      @ concat (map word_bytes (fold_words raw (unat (h_m h))))"
    "fs_m_old st = h_m h" "fs_m_new st = h_m h div 2"
  using assms
  by (auto simp: fold_filter_def bindR_eq_Inr Let_def not_less even_iff_mod_2_eq_zero split: if_splits)

lemma unat_half: "unat ((m :: u64) div 2) = unat m div 2"
  by (simp add: unat_div)

lemma fold_open:
  assumes "fold_filter pw raw = Inr (out, st)" "bloom_open raw = Inr f"
  shows "bloom_open out = Inr \<lparr>b_k = b_k f, b_m = b_m f div 2, b_mmap = out,
           b_n_elements = b_n_elements f\<rparr>"
proof -
  obtain h where h: "header_parse raw = Inr h"
    "out = header_to_bytes \<lparr>h_version = 1, h_n_capacity = h_n_capacity h, h_p_bits = fs_p_new st,
        h_k = h_k h, h_m = h_m h div 2, h_n_elements = h_n_elements h\<rparr>
      @ concat (map word_bytes (fold_words raw (unat (h_m h))))"
    using fold_filter_Inr [OF assms(1)] by metis
  have "b_k f = h_k h" "b_m f = h_m h" "b_n_elements f = h_n_elements h"
    using assms(2) h(1) by (auto simp: bloom_open_def split: if_splits)
  then show ?thesis by (simp add: h(2) bloom_open_append bits_len_def unat_half mult.commute)
qed

text \<open>
  C7. Folding never loses a member: when a filter folds, the result opens as a filter of half
  the bit count with the same hash count and element count, and every value the original
  reports as present is still reported as present.
\<close>

theorem fold_preserves_members:
  assumes "fold_filter pw raw = Inr (out, st)" "bloom_open raw = Inr f" "bloom_check f v = Some True"
    and "1 < b_m f"
  shows "\<exists>g. bloom_open out = Inr g \<and> b_m g = b_m f div 2 \<and> b_k g = b_k f \<and>
             b_n_elements g = b_n_elements f \<and> bloom_check g v = Some True"
proof -
  obtain h where h: "header_parse raw = Inr h" "even (unat (h_m h))"
    "out = header_to_bytes \<lparr>h_version = 1, h_n_capacity = h_n_capacity h, h_p_bits = fs_p_new st,
        h_k = h_k h, h_m = h_m h div 2, h_n_elements = h_n_elements h\<rparr>
      @ concat (map word_bytes (fold_words raw (unat (h_m h))))"
    using fold_filter_Inr [OF assms(1)] by metis
  have hm: "b_m f = h_m h" "b_k f = h_k h"
    using assms(2) h(1) by (auto simp: bloom_open_def split: if_splits)
  define m where "m = unat (h_m h)"
  have m: "1 < m" using assms(4) by (simp add: hm m_def word_less_nat_alt)
  then have m2: "h_m h div 2 \<noteq> 0" by (simp add: word_unat_eq_iff unat_half m_def)
  have src: "src_bit raw m (unat b)" if "b \<in> set (bit_positions v (h_k h) (h_m h))" for b
    using bloom_check_src [OF assms(2,3)] that by (simp add: hm m_def)
  have "words_bit (fold_words raw m) (unat c)"
    if c: "c \<in> set (bit_positions v (h_k h) (h_m h div 2))" for c
  proof -
    have "unat c \<in> set (map unat (bit_positions v (h_k h) (h_m h div 2)))" using c by simp
    then obtain b where b: "b \<in> set (bit_positions v (h_k h) (h_m h))" "unat c = unat b mod (m div 2)"
      using h(2) by (auto simp: bit_positions_half m_def)
    have bm: "unat b < m" "src_bit raw m (unat b)" using src [OF b(1)] by (simp_all add: src_bit_def)
    have clt: "unat c < m div 2" using b(2) m by simp
    have "unat b = unat c \<or> unat b = unat c + m div 2"
    proof (cases "unat b < m div 2")
      case False
      have "m = 2 * (m div 2)" using h(2) by (simp add: m_def)
      with bm False have "unat b - m div 2 < m div 2" by linarith
      with False b(2) show ?thesis by (simp add: mod_if)
    qed (simp add: b(2))
    moreover have "m div 2 \<le> div_ceil (m div 2) 64 * 64" by (rule div_ceil_ge) simp
    ultimately show ?thesis
      using words_bit_fold [of m "unat c" raw] h(2) clt bm(2) by (auto simp: m_def)
  qed
  then have "check_with v (h_k h) (h_m h div 2) (mmap_word out) = Some True"
    using check_words_iff [OF m2, of "fold_words raw m" "header_to_bytes \<lparr>h_version = 1,
        h_n_capacity = h_n_capacity h, h_p_bits = fs_p_new st, h_k = h_k h, h_m = h_m h div 2,
        h_n_elements = h_n_elements h\<rparr>" v "h_k h" "[]"]
    by (simp add: h(3) unat_half m_def)
  then show ?thesis using fold_open [OF assms(1,2)] by (simp add: bloom_check_def hm)
qed

theorem fold_preserves_members_witness:
  "\<exists>b b' out st f g. builder_new (\<lambda>n p. 96) (\<lambda>m n. 2) (\<lambda>p. True) 10 5 = Inr b \<and>
     builder_add_all b [[65, 57]] = Some b' \<and>
     fold_filter (\<lambda>ones m2 k. 0) (builder_write b') = Inr (out, st) \<and>
     bloom_open out = Inr g \<and> b_m g = 48 \<and> bloom_check g [65, 57] = Some True"
proof -
  define b where "b = \<lparr>bb_k = 2, bb_m = 96, bb_n_capacity = 10, bb_p = 5,
      bb_n_elements = 0, bb_bits = replicate 2 0\<rparr>"
  have new: "builder_new (\<lambda>n p. 96) (\<lambda>m n. 2) (\<lambda>p. True) 10 5 = Inr b"
    by (simp add: builder_new_def size_for_def b_def div_ceil_def)
  have wf: "builder_wf b" by (simp add: builder_wf_def b_def div_ceil_def)
  obtain b' where b': "builder_add_all b [[65, 57]] = Some b'" "builder_wf b'" "bb_k b' = bb_k b"
      "bb_m b' = bb_m b" "builder_has b' [65, 57]"
    using builder_add_all_has [OF wf, of "[[65, 57]]"] by auto
  obtain f where f: "bloom_open (builder_write b') = Inr f"
    using builder_write_open [OF b'(2)] by simp
  have fm: "b_m f = 96" using f builder_write_open [OF b'(2)] b'(4) by (auto simp: b_def)
  have chk: "bloom_check f [65, 57] = Some True"
    using builder_write_check [OF b'(2) f] b'(5) by simp
  have len: "length (bb_bits b') = 2" using b'(2,4) by (simp add: builder_wf_def b_def div_ceil_def)
  obtain out st where fold: "fold_filter (\<lambda>ones m2 k. 0) (builder_write b') = Inr (out, st)"
  proof -
    have "header_parse (builder_write b') = Inr \<lparr>h_version = 1, h_n_capacity = bb_n_capacity b',
        h_p_bits = bb_p b', h_k = bb_k b', h_m = 96, h_n_elements = bb_n_elements b'\<rparr>"
      using b'(4) by (simp add: builder_write_def header_parse_append b_def)
    then show ?thesis
      using that len by (simp add: fold_filter_def Let_def div_ceil_def builder_write_def)
  qed
  have "1 < b_m f" by (simp add: fm)
  from fold_preserves_members [OF fold f chk this] fm new b'(1) fold show ?thesis by fastforce
qed

text \<open>
  C8. Folding adds nothing beyond the two halves: in the folded file, bit \<open>b\<close> below the new bit
  count is set exactly when bit \<open>b\<close> or bit \<open>b + m/2\<close> of the original is, and the padding bits
  of the last word are clear, so neither the tail of the array nor trailing data leaks in.
\<close>

theorem fold_bits_exact:
  assumes "fold_filter pw raw = Inr (out, st)"
    and "b < 64 * div_ceil (unat (fs_m_new st)) 64"
  shows "bit (bytes_word (window out (HEADER_LEN + b div 64 * 8) 8)) (b mod 64) \<longleftrightarrow>
     b < unat (fs_m_new st) \<and>
     (src_bit raw (unat (fs_m_old st)) b \<or> src_bit raw (unat (fs_m_old st)) (b + unat (fs_m_new st)))"
proof -
  obtain h where h: "header_parse raw = Inr h" "even (unat (h_m h))"
    "out = header_to_bytes \<lparr>h_version = 1, h_n_capacity = h_n_capacity h, h_p_bits = fs_p_new st,
        h_k = h_k h, h_m = h_m h div 2, h_n_elements = h_n_elements h\<rparr>
      @ concat (map word_bytes (fold_words raw (unat (h_m h))))"
    "fs_m_old st = h_m h" "fs_m_new st = h_m h div 2"
    using fold_filter_Inr [OF assms(1)] by metis
  let ?ws = "fold_words raw (unat (h_m h))"
  have m2: "unat (fs_m_new st) = unat (h_m h) div 2" by (simp add: h(5) unat_half)
  have b: "b < 64 * div_ceil (unat (h_m h) div 2) 64" using assms(2) by (simp add: m2)
  then have "b div 64 < length ?ws" by (simp add: div_less_iff_less_mult mult.commute)
  from mmap_word_words [OF _ this, of "header_to_bytes \<lparr>h_version = 1, h_n_capacity = h_n_capacity h,
      h_p_bits = fs_p_new st, h_k = h_k h, h_m = h_m h div 2, h_n_elements = h_n_elements h\<rparr>" "[]"]
  have "mmap_word out (HEADER_LEN + b div 64 * 8) = Some (?ws ! (b div 64))" by (simp add: h(3))
  then have "bytes_word (window out (HEADER_LEN + b div 64 * 8) 8) = ?ws ! (b div 64)"
    by (simp add: mmap_word_def split: if_splits)
  then show ?thesis
    using words_bit_fold [OF h(2) b, of raw] by (simp add: words_bit_def m2 h(4))
qed

theorem fold_bits_exact_witness:
  "\<exists>out st. fold_filter (\<lambda>ones m2 k. 0) (header_to_bytes \<lparr>h_version = 1, h_n_capacity = 1, h_p_bits = 0,
       h_k = 1, h_m = 4, h_n_elements = 1\<rparr> @ word_bytes 8) = Inr (out, st) \<and>
     bit (bytes_word (window out 48 8)) 1"
proof -
  let ?h = "\<lparr>h_version = 1, h_n_capacity = 1, h_p_bits = 0, h_k = 1, h_m = 4, h_n_elements = 1\<rparr> :: header"
  let ?raw = "header_to_bytes ?h @ word_bytes 8"
  obtain out st where f: "fold_filter (\<lambda>ones m2 k. 0) ?raw = Inr (out, st)"
      and st: "fs_m_old st = 4" "fs_m_new st = 2"
    by (simp add: fold_filter_def header_parse_append Let_def div_ceil_def HEADER_LEN_def)
  have w: "window ?raw 48 8 = word_bytes 8"
    by (simp add: window_append_right HEADER_LEN_def) (simp add: window_def)
  have "src_bit ?raw 4 3"
    by (simp add: src_bit_def HEADER_LEN_def w bytes_word_bytes bit_iff_odd)
  with fold_bits_exact [OF f, of 1] st
  have "bit (bytes_word (window out 48 8)) 1"
    by (simp add: div_ceil_def HEADER_LEN_def numeral_3_eq_3)
  with f show ?thesis by blast
qed

text \<open>
  A membership test on an opened filter with a positive bit count never panics: every probe
  of every value reads a whole word inside the mapped file.
\<close>

theorem bloom_check_total:
  assumes "bloom_open raw = Inr f" "b_m f \<noteq> 0"
  shows "bloom_check f v \<noteq> None"
proof -
  obtain h where h: "HEADER_LEN + bits_len h \<le> length raw"
      "f = \<lparr>b_k = h_k h, b_m = h_m h, b_mmap = raw, b_n_elements = h_n_elements h\<rparr>"
    using assms(1) by (auto simp: bloom_open_def bindR_eq_Inr not_less split: if_splits)
  have "mmap_word raw (HEADER_LEN + unat b div 64 * 8) \<noteq> None"
    if b: "b \<in> set (bit_positions v (b_k f) (b_m f))" for b
  proof -
    have "unat b < unat (h_m h)" using bit_positions_bound [OF assms(2) b] h(2) by simp
    also have "unat (h_m h) \<le> div_ceil (unat (h_m h)) 64 * 64" by (rule div_ceil_ge) simp
    finally have "unat b div 64 < div_ceil (unat (h_m h)) 64" by (simp add: div_less_iff_less_mult)
    then have "unat b div 64 * 8 + 8 \<le> bits_len h" by (simp add: bits_len_def)
    then show ?thesis using h(1) by (simp add: mmap_word_def)
  qed
  then show ?thesis
    using assms(2) h(2) by (simp add: bloom_check_def check_with_def check_bits_no_panic)
qed

theorem bloom_check_total_witness:
  "\<exists>f. bloom_open (header_to_bytes \<lparr>h_version = 1, h_n_capacity = 1, h_p_bits = 0, h_k = 1, h_m = 4,
        h_n_elements = 1\<rparr> @ word_bytes 8) = Inr f \<and> bloom_check f [1] \<noteq> None"
proof -
  let ?h = "\<lparr>h_version = 1, h_n_capacity = 1, h_p_bits = 0, h_k = 1, h_m = 4, h_n_elements = 1\<rparr> :: header"
  obtain f where f: "bloom_open (header_to_bytes ?h @ word_bytes 8) = Inr f" "b_m f \<noteq> 0"
    by (simp add: bloom_open_append bits_len_def div_ceil_def)
  from bloom_check_total [OF f] f show ?thesis by blast
qed

text \<open>
  A header may state a zero bit count and the file still opens; a membership test on it
  divides by zero, so it panics whenever the hash count is not zero.
\<close>

theorem zero_bits_opens_then_panics:
  assumes "header_parse raw = Inr h" "h_m h = 0" "h_k h \<noteq> 0"
  shows "\<exists>f. bloom_open raw = Inr f \<and> (\<forall>v. bloom_check f v = None)"
  using assms header_parse_length [OF assms(1)]
  by (simp add: bloom_open_def bits_len_def bloom_check_def check_with_def)

theorem zero_bits_opens_then_panics_witness:
  "\<exists>f. bloom_open (header_to_bytes \<lparr>h_version = 1, h_n_capacity = 1, h_p_bits = 0, h_k = 1, h_m = 0,
        h_n_elements = 0\<rparr>) = Inr f \<and> bloom_check f [1] = None"
proof -
  let ?h = "\<lparr>h_version = 1, h_n_capacity = 1, h_p_bits = 0, h_k = 1, h_m = 0, h_n_elements = 0\<rparr> :: header"
  have "header_parse (header_to_bytes ?h) = Inr ?h"
    using header_parse_append [of ?h "[]"] by simp
  from zero_bits_opens_then_panics [OF this] show ?thesis by auto
qed

end
