(* ===== verification/Hdx_View.thy ===== *)
theory Hdx_View
  imports Hdx_Prelude
begin

text \<open>
  \<open>src/src/peek_source.rs\<close>: positioned byte sources and views. A source is a file or a memory
  block. A read from a file may be short: the operating system hands out between one byte and
  all that is available, as the \<open>grant\<close> function of the source says; a memory block always
  hands out everything. Reads that fail with an operating system error are outside the model.
  A view is a list of extents of a source, \<open>(logical start, source offset, length)\<close>.
\<close>

datatype psource =
    PFile "byte list" "nat \<Rightarrow> nat \<Rightarrow> nat"
  | PMem "byte list"

fun src_bytes :: "psource \<Rightarrow> byte list" where
  "src_bytes (PFile c g) = c"
| "src_bytes (PMem c) = c"

fun psource_read_at :: "psource \<Rightarrow> nat \<Rightarrow> nat \<Rightarrow> byte list" where
  "psource_read_at (PFile c g) want off =
     (let avail = min want (length c - off) in
      window c off (if avail = 0 then 0 else max 1 (min avail (g off want))))"
| "psource_read_at (PMem m) want off =
     (let start = min off (length m); n = min want (length m - start) in window m start n)"

record view =
  v_src :: psource
  v_extents :: "(nat \<times> nat \<times> nat) list"
  v_len :: nat
  v_pos :: nat

fun map_extents :: "nat \<Rightarrow> (nat \<times> nat) list \<Rightarrow> (nat \<times> nat \<times> nat) list" where
  "map_extents logical [] = []"
| "map_extents logical ((off, len) # rest) =
     (if 0 < len then (logical, off, len) # map_extents (logical + len) rest
      else map_extents logical rest)"

definition view_new :: "psource \<Rightarrow> (nat \<times> nat) list \<Rightarrow> view" where
  "view_new s extents = \<lparr>v_src = s, v_extents = map_extents 0 extents,
     v_len = sum_list (map snd extents), v_pos = 0\<rparr>"

definition view_rewound :: "view \<Rightarrow> view" where
  "view_rewound v = v\<lparr>v_pos := 0\<rparr>"

fun slice_range :: "(nat \<times> nat \<times> nat) list \<Rightarrow> nat \<Rightarrow> nat \<Rightarrow> (nat \<times> nat) list" where
  "slice_range [] want_start want_end = []"
| "slice_range ((elog, eoff, elen) # es) want_start want_end =
     (if want_end \<le> want_start then []
      else if elog + elen \<le> want_start \<or> want_end \<le> elog then slice_range es want_start want_end
      else let from = max want_start elog; to = min want_end (elog + elen)
           in (eoff + (from - elog), to - from) # slice_range es to want_end)"

definition view_slice :: "view \<Rightarrow> (nat \<times> nat) list \<Rightarrow> view" where
  "view_slice v ranges =
     view_new (v_src v)
       (concat (map (\<lambda>(lo, ln). slice_range (v_extents v) (min lo (v_len v)) (min (lo + ln) (v_len v)))
          ranges))"

text \<open>\<open>partition_point\<close> on the ascending logical starts, then one step back.\<close>

definition extent_index :: "(nat \<times> nat \<times> nat) list \<Rightarrow> nat \<Rightarrow> nat" where
  "extent_index es pos = length (takeWhile (\<lambda>(elog, eoff, elen). elog \<le> pos) es) - 1"

definition read_at_logical :: "view \<Rightarrow> nat \<Rightarrow> nat \<Rightarrow> byte list" where
  "read_at_logical v want pos =
     (if v_len v \<le> pos \<or> want = 0 then []
      else case v_extents v ! extent_index (v_extents v) pos of
        (elog, eoff, elen) \<Rightarrow>
          let within = pos - elog; avail = min (elen - within) want
          in psource_read_at (v_src v) avail (eoff + within))"

lemma length_psource_read_at: "length (psource_read_at s want off) \<le> want"
proof (cases s)
  case (PFile c g)
  have "max (Suc 0) (min (min want (length c - off)) (g off want)) \<le> want"
    if "0 < want" "off < length c"
    using that by (simp add: min_def max_def)
  then show ?thesis by (auto simp: PFile Let_def length_window min.coboundedI1)
qed (simp add: Let_def length_window)

lemma length_read_at_logical: "length (read_at_logical v want pos) \<le> want"
proof -
  have "length (psource_read_at s (min a want) o1) \<le> want" for s a o1
    using length_psource_read_at [of s "min a want" o1] by simp
  then show ?thesis by (simp add: read_at_logical_def Let_def split: prod.split)
qed

function read_full :: "view \<Rightarrow> nat \<Rightarrow> nat \<Rightarrow> byte list \<Rightarrow> byte list" where
  "read_full v want off acc =
     (if length acc < want then
        let got = read_at_logical v (want - length acc) (off + length acc)
        in if got = [] then acc else read_full v want off (acc @ got)
      else acc)"
  by pat_completeness auto
termination
proof (relation "measure (\<lambda>(v, want, off, acc). want - length acc)")
  fix v want off and acc got :: "byte list"
  assume "length acc < want" "got = read_at_logical v (want - length acc) (off + length acc)" "got \<noteq> []"
  moreover have "0 < length got" using \<open>got \<noteq> []\<close> by simp
  ultimately show "((v, want, off, acc @ got), v, want, off, acc)
      \<in> measure (\<lambda>(v, want, off, acc). want - length acc)"
    by (simp only: in_measure prod.case length_append)
qed simp

declare read_full.simps [simp del]

definition read_full_at :: "view \<Rightarrow> nat \<Rightarrow> nat \<Rightarrow> byte list" where
  "read_full_at v want off = read_full v want off []"

definition view_read :: "view \<Rightarrow> nat \<Rightarrow> view \<times> byte list" where
  "view_read v want =
     (let got = read_at_logical v want (v_pos v) in (v\<lparr>v_pos := v_pos v + length got\<rparr>, got))"

datatype seek_from = SeekStart nat | SeekEnd int | SeekCurrent int

definition add_signed :: "nat \<Rightarrow> int \<Rightarrow> nat option" where
  "add_signed a d =
     (if 0 \<le> int a + d \<and> int a + d < 2 ^ 64 then Some (nat (int a + d)) else None)"

definition view_seek :: "view \<Rightarrow> seek_from \<Rightarrow> (view \<times> nat) option" where
  "view_seek v p =
     (case (case p of SeekStart k \<Rightarrow> Some k | SeekEnd d \<Rightarrow> add_signed (v_len v) d
              | SeekCurrent d \<Rightarrow> add_signed (v_pos v) d) of
        Some t \<Rightarrow> Some (v\<lparr>v_pos := t\<rparr>, t)
      | None \<Rightarrow> None)"

subsection \<open>Spooling a stream\<close>

definition RAM_SPOOL_MAX :: nat where "RAM_SPOOL_MAX = 256 * 2 ^ 20"

text \<open>
  The stream is the list of the non-empty chunks its reads return; the state is the memory
  buffer and, once the buffer has outgrown the bound, the temporary file's contents. The second
  component of the result is what \<open>feed\<close> received. \<open>g\<close> grants the temporary file's later reads.
\<close>

fun spool_chunks ::
  "byte list \<Rightarrow> byte list option \<Rightarrow> byte list \<Rightarrow> byte list list \<Rightarrow> byte list \<times> byte list option \<times> byte list"
  where
  "spool_chunks mem tf fed [] = (mem, tf, fed)"
| "spool_chunks mem tf fed (c # cs) =
     (case tf of
        Some f \<Rightarrow> spool_chunks mem (Some (f @ c)) (fed @ c) cs
      | None \<Rightarrow>
          let mem' = mem @ c in
          if RAM_SPOOL_MAX < length mem' then spool_chunks [] (Some mem') (fed @ c) cs
          else spool_chunks mem' None (fed @ c) cs)"

definition spool_stream :: "(nat \<Rightarrow> nat \<Rightarrow> nat) \<Rightarrow> byte list list \<Rightarrow> view \<times> byte list" where
  "spool_stream g chunks =
     (case spool_chunks [] None [] chunks of (mem, tf, fed) \<Rightarrow>
        (case tf of
           Some f \<Rightarrow> (view_new (PFile f g) [(0, length f)], fed)
         | None \<Rightarrow> (view_new (PMem mem) [(0, length mem)], fed)))"

subsection \<open>The bytes a view stands for\<close>

definition ext_bytes :: "byte list \<Rightarrow> (nat \<times> nat \<times> nat) list \<Rightarrow> byte list" where
  "ext_bytes c es = concat (map (\<lambda>(elog, eoff, elen). window c eoff elen) es)"

definition view_bytes :: "view \<Rightarrow> byte list" where
  "view_bytes v = ext_bytes (src_bytes (v_src v)) (v_extents v)"

text \<open>Extents tile the logical space from \<open>b\<close>, are not empty and lie inside a source of \<open>n\<close> bytes.\<close>

fun tiled :: "nat \<Rightarrow> nat \<Rightarrow> (nat \<times> nat \<times> nat) list \<Rightarrow> bool" where
  "tiled n b [] = True"
| "tiled n b ((elog, eoff, elen) # es) =
     (elog = b \<and> 0 < elen \<and> eoff + elen \<le> n \<and> tiled n (b + elen) es)"

definition ext_total :: "(nat \<times> nat \<times> nat) list \<Rightarrow> nat" where
  "ext_total es = sum_list (map (\<lambda>(elog, eoff, elen). elen) es)"

definition view_wf :: "view \<Rightarrow> bool" where
  "view_wf v \<longleftrightarrow> tiled (length (src_bytes (v_src v))) 0 (v_extents v) \<and> v_len v = ext_total (v_extents v)"

lemma ext_bytes_simps [simp]:
  "ext_bytes c [] = []"
  "ext_bytes c ((a, b, k) # es) = window c b k @ ext_bytes c es"
  by (simp_all add: ext_bytes_def)

lemma ext_total_simps [simp]: "ext_total [] = 0" "ext_total ((a, b, k) # es) = k + ext_total es"
  by (simp_all add: ext_total_def)

lemma length_ext_bytes: "tiled (length c) b es \<Longrightarrow> length (ext_bytes c es) = ext_total es"
  by (induction es arbitrary: b) (auto simp: length_window)

lemma length_view_bytes: "view_wf v \<Longrightarrow> length (view_bytes v) = v_len v"
  by (auto simp: view_wf_def view_bytes_def intro: length_ext_bytes)

lemma tiled_map_extents:
  "(\<And>eoff elen. (eoff, elen) \<in> set xs \<Longrightarrow> eoff + elen \<le> n) \<Longrightarrow> tiled n b (map_extents b xs)"
  by (induction xs arbitrary: b) force+

lemma ext_total_map_extents: "ext_total (map_extents b xs) = sum_list (map snd xs)"
  by (induction xs arbitrary: b) auto

lemma ext_bytes_map_extents:
  "ext_bytes c (map_extents b xs) = concat (map (\<lambda>(eoff, elen). window c eoff elen) xs)"
  by (induction xs arbitrary: b) (auto simp: window_0_len)

lemma view_new_wf:
  "(\<And>eoff elen. (eoff, elen) \<in> set xs \<Longrightarrow> eoff + elen \<le> length (src_bytes s)) \<Longrightarrow> view_wf (view_new s xs)"
  by (simp add: view_wf_def view_new_def tiled_map_extents ext_total_map_extents)

lemma view_new_bytes:
  "view_bytes (view_new s xs) = concat (map (\<lambda>(eoff, elen). window (src_bytes s) eoff elen) xs)"
  by (simp add: view_bytes_def view_new_def ext_bytes_map_extents)

lemma extent_index_Cons:
  assumes "tiled n b ((elog, eoff, elen) # es)" "b \<le> pos" "pos < b + elen + ext_total es"
  shows "extent_index ((elog, eoff, elen) # es) pos =
     (if pos < b + elen then 0 else Suc (extent_index es pos))"
proof (cases es)
  case (Cons e es')
  obtain l o' k where e: "e = (l, o', k)" by (cases e) auto
  have l: "l = b + elen" using assms(1) by (simp add: Cons e)
  show ?thesis using assms by (auto simp: extent_index_def Cons e l)
qed (use assms in \<open>simp add: extent_index_def\<close>)

lemma extent_locate:
  assumes "tiled (length c) b es" "b \<le> pos" "pos < b + ext_total es"
  shows "\<exists>elog eoff elen. es ! extent_index es pos = (elog, eoff, elen) \<and> elog \<le> pos \<and> pos < elog + elen \<and>
     eoff + elen \<le> length c \<and>
     (\<forall>j. j \<le> elen - (pos - elog) \<longrightarrow> window (ext_bytes c es) (pos - b) j = window c (eoff + (pos - elog)) j)"
  using assms
proof (induction es arbitrary: b)
  case (Cons e es)
  obtain l eoff elen where e: "e = (l, eoff, elen)" by (cases e) auto
  have l: "l = b" and k: "0 < elen" "eoff + elen \<le> length c" and t: "tiled (length c) (b + elen) es"
    using Cons.prems(1) by (simp_all add: e)
  have lw: "length (window c eoff elen) = elen" using k by (simp add: length_window)
  have idx: "extent_index (e # es) pos = (if pos < b + elen then 0 else Suc (extent_index es pos))"
    unfolding e by (rule extent_index_Cons [of "length c"]) (use Cons.prems in \<open>simp_all add: e\<close>)
  show ?case
  proof (cases "pos < b + elen")
    case True
    have "window (ext_bytes c (e # es)) (pos - b) j = window c (eoff + (pos - b)) j"
      if "j \<le> elen - (pos - b)" for j
    proof -
      have "window (ext_bytes c (e # es)) (pos - b) j = window (window c eoff elen) (pos - b) j"
        using that True Cons.prems(2) lw by (simp add: e window_append_left)
      then show ?thesis using that by (simp add: window_window min_def)
    qed
    then show ?thesis using True idx k Cons.prems(2) by (simp add: e l)
  next
    case False
    have "\<exists>elog' eoff' elen'. es ! extent_index es pos = (elog', eoff', elen') \<and> elog' \<le> pos \<and>
        pos < elog' + elen' \<and> eoff' + elen' \<le> length c \<and>
        (\<forall>j. j \<le> elen' - (pos - elog') \<longrightarrow>
           window (ext_bytes c es) (pos - (b + elen)) j = window c (eoff' + (pos - elog')) j)"
      using Cons.IH [OF t] Cons.prems False by (simp add: e)
    moreover have "window (ext_bytes c (e # es)) (pos - b) j = window (ext_bytes c es) (pos - (b + elen)) j" for j
      using False lw by (simp add: e window_append_right)
    ultimately show ?thesis using idx False by simp
  qed
qed simp

text \<open>
  The interface of a positioned source: a read returns a prefix of the wanted window, and an
  empty result means that the window is empty (end of file).
\<close>

locale positioned_source =
  fixes read_src :: "'s \<Rightarrow> nat \<Rightarrow> nat \<Rightarrow> byte list"
    and contents :: "'s \<Rightarrow> byte list"
  assumes read_prefix: "read_src s want off = window (contents s) off (length (read_src s want off))"
    and read_bound: "length (read_src s want off) \<le> want"
    and read_progress: "0 < want \<Longrightarrow> off < length (contents s) \<Longrightarrow> read_src s want off \<noteq> []"
begin

lemma read_extent:
  assumes "elog \<le> pos" "pos < elog + elen" "eoff + elen \<le> length (contents s)" "0 < want"
  shows "read_src s (min (elen - (pos - elog)) want) (eoff + (pos - elog)) \<noteq> []"
  using assms by (intro read_progress) auto

lemma read_extent_window:
  assumes "\<And>j. j \<le> elen - within \<Longrightarrow> window bs p j = window (contents s) (eoff + within) j"
    and "got = read_src s (min (elen - within) want) (eoff + within)"
  shows "got = window bs p (length got)"
proof -
  have "length got \<le> elen - within"
    using read_bound [of s "min (elen - within) want"] assms(2) by (simp add: le_trans)
  then show ?thesis using assms(1) read_prefix assms(2) by metis
qed

end

interpretation ps: positioned_source psource_read_at src_bytes
proof unfold_locales
  fix s want off
  show "psource_read_at s want off = window (src_bytes s) off (length (psource_read_at s want off))"
    by (cases s) (auto simp: Let_def length_window window_clamp min_def window_def)
  show "length (psource_read_at s want off) \<le> want" by (rule length_psource_read_at)
  show "0 < want \<Longrightarrow> off < length (src_bytes s) \<Longrightarrow> psource_read_at s want off \<noteq> []"
    by (cases s) (auto simp: Let_def window_def min_def)
qed

lemma read_at_logical_window:
  assumes "view_wf v"
  shows "read_at_logical v want pos = window (view_bytes v) pos (length (read_at_logical v want pos))"
    and "0 < want \<Longrightarrow> pos < v_len v \<Longrightarrow> read_at_logical v want pos \<noteq> []"
proof -
  let ?c = "src_bytes (v_src v)"
  have t: "tiled (length ?c) 0 (v_extents v)" and len: "v_len v = ext_total (v_extents v)"
    using assms by (simp_all add: view_wf_def)
  have both: "read_at_logical v want pos = window (view_bytes v) pos (length (read_at_logical v want pos))
      \<and> (0 < want \<longrightarrow> read_at_logical v want pos \<noteq> [])" if pos: "pos < v_len v" and w: "0 < want"
  proof -
    obtain elog eoff elen where e: "v_extents v ! extent_index (v_extents v) pos = (elog, eoff, elen)"
        "elog \<le> pos" "pos < elog + elen" "eoff + elen \<le> length ?c"
        "\<And>j. j \<le> elen - (pos - elog) \<Longrightarrow> window (view_bytes v) pos j = window ?c (eoff + (pos - elog)) j"
      using extent_locate [OF t, of pos] pos len by (auto simp: view_bytes_def)
    have r: "read_at_logical v want pos =
        psource_read_at (v_src v) (min (elen - (pos - elog)) want) (eoff + (pos - elog))"
      using pos w e(1) by (simp add: read_at_logical_def Let_def)
    show ?thesis
      using ps.read_extent_window [OF e(5) r] ps.read_extent [OF e(2-4) w] r by simp
  qed
  show "read_at_logical v want pos = window (view_bytes v) pos (length (read_at_logical v want pos))"
    using both by (cases "pos < v_len v \<and> 0 < want") (auto simp: read_at_logical_def window_0_len)
  show "0 < want \<Longrightarrow> pos < v_len v \<Longrightarrow> read_at_logical v want pos \<noteq> []" using both by blast
qed

lemma read_full_window:
  assumes "view_wf v" "acc = window (view_bytes v) off (length acc)" "length acc \<le> want"
  shows "read_full v want off acc = window (view_bytes v) off want"
  using assms
proof (induction v want off acc rule: read_full.induct)
  case (1 v want off acc)
  define got where "got = read_at_logical v (want - length acc) (off + length acc)"
  note len = length_view_bytes [OF 1(2)]
  show ?case
  proof (cases "length acc < want \<and> got \<noteq> []")
    case True
    have g: "got = window (view_bytes v) (off + length acc) (length got)"
      unfolding got_def by (rule read_at_logical_window(1) [OF 1(2)])
    have "acc @ got = window (view_bytes v) off (length acc) @ window (view_bytes v) (off + length acc) (length got)"
      using 1(3) g by simp
    then have ag: "acc @ got = window (view_bytes v) off (length (acc @ got))"
      by (metis window_append length_append)
    have "length (acc @ got) \<le> want"
      using True length_read_at_logical [of v "want - length acc" "off + length acc"] by (auto simp: got_def)
    then have "read_full v want off (acc @ got) = window (view_bytes v) off want"
      using 1(1) [OF _ got_def _ 1(2) ag] True by blast
    then show ?thesis using True by (simp add: read_full.simps [of v want off acc] got_def [symmetric])
  next
    case False
    then have "read_full v want off acc = acc"
      by (auto simp: read_full.simps [of v want off acc] got_def [symmetric])
    moreover have "acc = window (view_bytes v) off want"
    proof (cases "length acc < want")
      case True
      with False have "got = []" by blast
      then have "\<not> off + length acc < v_len v"
        using read_at_logical_window(2) [OF 1(2), of "want - length acc" "off + length acc"] True
        by (auto simp: got_def)
      then have "v_len v \<le> off + length acc" by simp
      then have "window (view_bytes v) off (length acc) = window (view_bytes v) off want"
        using True len by (simp add: window_def)
      then show ?thesis using 1(3) by simp
    qed (use 1(3,4) in simp)
    ultimately show ?thesis by simp
  qed
qed

lemma read_full_at_window: "view_wf v \<Longrightarrow> read_full_at v want off = window (view_bytes v) off want"
  unfolding read_full_at_def by (rule read_full_window) (simp_all add: window_0_len)

subsection \<open>Slicing\<close>

lemma slice_range_in_source:
  "tiled n b es \<Longrightarrow> b \<le> want_start \<Longrightarrow> (eoff, elen) \<in> set (slice_range es want_start want_end) \<Longrightarrow>
   0 < elen \<and> eoff + elen \<le> n"
proof (induction es arbitrary: b want_start)
  case (Cons e es)
  obtain l ef el where e: "e = (l, ef, el)" by (cases e) auto
  have t: "tiled n (b + el) es" "l = b" "0 < el" "ef + el \<le> n" using Cons.prems(1) by (simp_all add: e)
  consider "want_end \<le> want_start" | "want_start < want_end" "b + el \<le> want_start"
    | "want_start < want_end" "want_start < b + el" by linarith
  then show ?case
  proof cases
    case 3
    let ?to = "min want_end (b + el)"
    have "slice_range (e # es) want_start want_end
        = (ef + (want_start - b), ?to - want_start) # slice_range es ?to want_end"
      using 3 Cons.prems(2) t(2) by (simp add: e max_def Let_def)
    then consider "(eoff, elen) = (ef + (want_start - b), ?to - want_start)"
      | "(eoff, elen) \<in> set (slice_range es ?to want_end)" using Cons.prems(3) by auto
    then show ?thesis
    proof cases
      case 1
      then show ?thesis using 3 t Cons.prems(2) by (auto simp: min_def)
    next
      case 2
      show ?thesis
      proof (cases "want_end \<le> b + el")
        case True
        then have "slice_range es ?to want_end = []" by (cases es) auto
        then show ?thesis using 2 by simp
      next
        case False
        then show ?thesis using Cons.IH [OF t(1) _ 2] by simp
      qed
    qed
  qed (use Cons t in \<open>auto simp: e\<close>)
qed simp

lemma slice_range_bytes:
  "tiled (length c) b es \<Longrightarrow> b \<le> want_start \<Longrightarrow>
   concat (map (\<lambda>(eoff, elen). window c eoff elen) (slice_range es want_start want_end))
     = window (ext_bytes c es) (want_start - b) (want_end - want_start)"
proof (induction es arbitrary: b want_start)
  case (Cons e es)
  obtain l ef el where e: "e = (l, ef, el)" by (cases e) auto
  have t: "tiled (length c) (b + el) es" "l = b" "0 < el" "ef + el \<le> length c"
    using Cons.prems(1) by (simp_all add: e)
  have lw: "length (window c ef el) = el" using t by (simp add: length_window)
  consider "want_end \<le> want_start" | "want_start < want_end" "b + el \<le> want_start"
    | "want_start < want_end" "want_start < b + el" by linarith
  then show ?case
  proof cases
    case 2
    then show ?thesis using Cons.IH [OF t(1)] t(2) lw by (simp add: e window_append_right)
  next
    case 3
    define to where "to = min want_end (b + el)"
    have s: "slice_range (e # es) want_start want_end
        = (ef + (want_start - b), to - want_start) # slice_range es to want_end"
      using 3 Cons.prems(2) t(2) by (simp add: e max_def to_def Let_def)
    have rest: "concat (map (\<lambda>(eoff, elen). window c eoff elen) (slice_range es to want_end))
        = window (ext_bytes c es) (to - (b + el)) (want_end - to)"
    proof (cases "want_end \<le> b + el")
      case True
      then have "slice_range es to want_end = []" by (cases es) (auto simp: to_def)
      then show ?thesis using True by (simp add: to_def window_0_len)
    qed (use Cons.IH [OF t(1), of to] in \<open>simp add: to_def\<close>)
    have first: "window c (ef + (want_start - b)) (to - want_start)
        = window (ext_bytes c (e # es)) (want_start - b) (to - want_start)"
    proof -
      have "window (ext_bytes c (e # es)) (want_start - b) (to - want_start)
          = window (window c ef el) (want_start - b) (to - want_start)"
        using 3 Cons.prems(2) lw by (simp add: e window_append_left to_def)
      then show ?thesis using 3 Cons.prems(2) by (simp add: window_window to_def min_def)
    qed
    have second: "window (ext_bytes c es) (to - (b + el)) (want_end - to)
        = window (ext_bytes c (e # es)) (to - b) (want_end - to)"
    proof (cases "want_end \<le> b + el")
      case True
      then show ?thesis by (simp add: to_def window_0_len)
    next
      case False
      then have "to = b + el" by (simp add: to_def)
      then show ?thesis using lw by (simp add: e window_append_right)
    qed
    have "to - b = want_start - b + (to - want_start)"
      and "want_end - want_start = (to - want_start) + (want_end - to)"
      using 3 Cons.prems(2) by (simp_all add: to_def)
    then show ?thesis using s rest first second window_append
      by (metis (no_types, lifting) concat.simps(2) list.simps(9) prod.case)
  qed (simp add: e window_0_len)
qed (simp add: window_def)

lemma view_slice_wf: "view_wf v \<Longrightarrow> view_wf (view_slice v ranges)"
  unfolding view_slice_def
  by (rule view_new_wf) (auto simp: view_wf_def dest: slice_range_in_source)

lemma view_slice_src: "v_src (view_slice v ranges) = v_src v"
  by (simp add: view_slice_def view_new_def)

lemma concat_map_concat_map:
  "concat (map f (concat (map g xs))) = concat (map (\<lambda>x. concat (map f (g x))) xs)"
  by (induction xs) simp_all

lemma view_slice_bytes:
  assumes "view_wf v"
  shows "view_bytes (view_slice v ranges) = concat (map (\<lambda>(lo, ln). window (view_bytes v) lo ln) ranges)"
proof -
  let ?c = "src_bytes (v_src v)"
  have t: "tiled (length ?c) 0 (v_extents v)" using assms by (simp add: view_wf_def)
  have len: "length (view_bytes v) = v_len v" using assms by (rule length_view_bytes)
  have one: "concat (map (\<lambda>(eoff, elen). window ?c eoff elen)
       (slice_range (v_extents v) (min lo (v_len v)) (min (lo + ln) (v_len v))))
     = window (view_bytes v) lo ln" for lo ln
  proof -
    have "window (ext_bytes ?c (v_extents v)) (min lo (v_len v)) (min (lo + ln) (v_len v) - min lo (v_len v))
        = window (view_bytes v) lo ln"
    proof (cases "lo \<le> v_len v")
      case True
      then have "min (lo + ln) (v_len v) - min lo (v_len v) = min ln (length (view_bytes v) - lo)"
        using len by (auto simp: min_def)
      then show ?thesis using True by (simp add: view_bytes_def [symmetric] window_clamp)
    next
      case False
      then show ?thesis using len by (simp add: window_past_end window_0_len)
    qed
    then show ?thesis using slice_range_bytes [OF t] by simp
  qed
  show ?thesis
    unfolding view_slice_def view_new_bytes concat_map_concat_map
    by (rule arg_cong [where f = concat], rule map_cong) (simp_all add: one case_prod_beta)
qed

text \<open>
  C21. A view slice stands for exactly the requested ranges of its parent, clamped at the
  parent's end, whatever extents the parent has; it is again a well-formed view of the same
  source, so slices nest. (Also the statement that extents are merely re-addressed, never
  copied: the source is unchanged.)
\<close>

theorem view_slice_spec:
  assumes "view_wf v"
  shows "view_wf (view_slice v ranges) \<and> v_src (view_slice v ranges) = v_src v \<and>
         view_bytes (view_slice v ranges) = concat (map (\<lambda>(lo, ln). window (view_bytes v) lo ln) ranges) \<and>
         v_len (view_slice v ranges) = length (view_bytes (view_slice v ranges))"
  using view_slice_wf [OF assms] view_slice_bytes [OF assms] view_slice_src length_view_bytes by metis

theorem view_slice_spec_witness:
  "view_bytes (view_slice (view_new (PMem [10, 11, 12, 13, 14, 15]) [(0, 2), (4, 2)]) [(1, 2), (3, 9)])
   = [11, 14, 15]"
proof -
  have wf: "view_wf (view_new (PMem [10, 11, 12, 13, 14, 15]) [(0, 2), (4, 2)])"
    by (rule view_new_wf) auto
  have "view_bytes (view_new (PMem [10, 11, 12, 13, 14, 15]) [(0, 2), (4, 2)]) = [10, 11, 14, 15]"
    by (simp add: view_new_bytes window_def)
  with view_slice_spec [OF wf, of "[(1, 2), (3, 9)]"] show ?thesis by (simp add: window_def)
qed

text \<open>
  C22. A positional read returns exactly the wanted window of the view's bytes, short only at the
  view's end, however short the individual reads of the source are.
\<close>

theorem read_full_at_exact:
  assumes "view_wf v"
  shows "read_full_at v want off = window (view_bytes v) off want \<and>
         (length (read_full_at v want off) = want \<longleftrightarrow> want = 0 \<or> off + want \<le> v_len v)"
  using assms by (auto simp: read_full_at_window length_window length_view_bytes)

theorem read_full_at_exact_witness:
  "read_full_at (view_new (PFile [1, 2, 3, 4, 5, 6] (\<lambda>off want. 1)) [(4, 2), (0, 3)]) 4 1 = [6, 1, 2, 3]"
proof -
  have wf: "view_wf (view_new (PFile [1, 2, 3, 4, 5, 6] (\<lambda>off want. 1)) [(4, 2), (0, 3)])"
    by (rule view_new_wf) auto
  from read_full_at_exact [OF wf, of 4 1] show ?thesis
    by (simp add: view_new_bytes window_def)
qed

subsection \<open>Spools\<close>

lemma spool_chunks_bytes:
  "spool_chunks mem tf fed cs = (mem', tf', fed') \<Longrightarrow> (case tf of Some f \<Rightarrow> f | None \<Rightarrow> mem) = fed \<Longrightarrow>
   fed' = fed @ concat cs \<and> (case tf' of Some f \<Rightarrow> f | None \<Rightarrow> mem') = fed'"
  by (induction mem tf fed cs rule: spool_chunks.induct)
    (auto simp: Let_def split: option.splits if_splits)

text \<open>
  Spooling a stream yields a well-formed view of exactly the stream's bytes, and the hash
  jobs were fed those bytes, whether the spool stayed in memory or moved to a temporary file.
\<close>

theorem spool_stream_exact:
  "view_wf (fst (spool_stream g chunks)) \<and> view_bytes (fst (spool_stream g chunks)) = concat chunks \<and>
   snd (spool_stream g chunks) = concat chunks \<and> v_pos (fst (spool_stream g chunks)) = 0"
proof -
  obtain mem tf fed where r: "spool_chunks [] None [] chunks = (mem, tf, fed)"
    by (cases "spool_chunks [] None [] chunks") auto
  have b: "fed = concat chunks" "(case tf of Some f \<Rightarrow> f | None \<Rightarrow> mem) = fed"
    using spool_chunks_bytes [OF r] by simp_all
  show ?thesis
  proof (cases tf)
    case None
    have "view_wf (view_new (PMem mem) [(0, length mem)])" by (rule view_new_wf) simp
    then show ?thesis using None b r
      by (simp add: spool_stream_def view_new_bytes window_whole) (simp add: view_new_def)
  next
    case (Some f)
    have "view_wf (view_new (PFile f g) [(0, length f)])" by (rule view_new_wf) simp
    then show ?thesis using Some b r
      by (simp add: spool_stream_def view_new_bytes window_whole) (simp add: view_new_def)
  qed
qed

end
