(* ===== verification/Hdx_Text.thy ===== *)
theory Hdx_Text
  imports Hdx_Prelude
begin

text \<open>
  The standard library's lossy decoders, which turn the names a file system stores into the text
  the program reports. Text is a list of Unicode scalar values; an undecodable piece becomes
  U+FFFD.
\<close>

type_synonym ustring = "nat list"

definition replacement :: nat where "replacement = 0xFFFD"

subsection \<open>UTF-16\<close>

text \<open>\<open>String::from_utf16_lossy\<close>: a high surrogate followed by a low one is one character, any
  other surrogate is replaced.\<close>

definition is_high :: "nat \<Rightarrow> bool" where "is_high u \<longleftrightarrow> 0xD800 \<le> u \<and> u < 0xDC00"
definition is_low :: "nat \<Rightarrow> bool" where "is_low u \<longleftrightarrow> 0xDC00 \<le> u \<and> u < 0xE000"

fun utf16_lossy :: "nat list \<Rightarrow> ustring" where
  "utf16_lossy [] = []"
| "utf16_lossy [u] = [if is_high u \<or> is_low u then replacement else u]"
| "utf16_lossy (u # w # us) =
     (if is_high u \<and> is_low w
      then (0x10000 + (u - 0xD800) * 0x400 + (w - 0xDC00)) # utf16_lossy us
      else (if is_high u \<or> is_low u then replacement else u) # utf16_lossy (w # us))"

subsection \<open>UTF-8\<close>

text \<open>\<open>String::from_utf8_lossy\<close>: every maximal ill-formed piece is replaced once. \<open>utf8_char\<close> reads
  the character at the front: its value when well formed, and the bytes it consumes.\<close>

definition is_cont :: "nat \<Rightarrow> bool" where "is_cont b \<longleftrightarrow> 0x80 \<le> b \<and> b < 0xC0"

definition utf8_width :: "nat \<Rightarrow> nat" where
  "utf8_width b = (if b < 0x80 then 1 else if 0xC2 \<le> b \<and> b < 0xE0 then 2
     else if 0xE0 \<le> b \<and> b < 0xF0 then 3 else if 0xF0 \<le> b \<and> b < 0xF5 then 4 else 0)"

text \<open>Which second byte a lead byte of three or four bytes allows.\<close>

definition utf8_second :: "nat \<Rightarrow> nat \<Rightarrow> bool" where
  "utf8_second b c \<longleftrightarrow>
     (if b = 0xE0 then 0xA0 \<le> c \<and> c < 0xC0
      else if b = 0xED then 0x80 \<le> c \<and> c < 0xA0
      else if b = 0xF0 then 0x90 \<le> c \<and> c < 0xC0
      else if b = 0xF4 then 0x80 \<le> c \<and> c < 0x90
      else is_cont c)"

definition utf8_char :: "nat \<Rightarrow> nat list \<Rightarrow> nat \<times> nat" where
  "utf8_char b bs =
     (let w = utf8_width b;
          ok = (\<lambda>i. i < length bs \<and> (if i = 0 then utf8_second b (bs ! 0) else is_cont (bs ! i))) in
      if w = 1 then (b, 1)
      else if w = 0 then (replacement, 1)
      else if \<not> ok 0 then (replacement, 1)
      else if w = 2 then ((b - 0xC0) * 64 + (bs ! 0 - 0x80), 2)
      else if \<not> ok 1 then (replacement, 2)
      else if w = 3 then ((b - 0xE0) * 4096 + (bs ! 0 - 0x80) * 64 + (bs ! 1 - 0x80), 3)
      else if \<not> ok 2 then (replacement, 3)
      else ((b - 0xF0) * 262144 + (bs ! 0 - 0x80) * 4096 + (bs ! 1 - 0x80) * 64 + (bs ! 2 - 0x80), 4))"

lemma utf8_char_consumes: "0 < snd (utf8_char b bs)"
  by (simp add: utf8_char_def Let_def)

function utf8_lossy_nat :: "nat list \<Rightarrow> ustring" where
  "utf8_lossy_nat [] = []"
| "utf8_lossy_nat (b # bs) =
     fst (utf8_char b bs) # utf8_lossy_nat (drop (snd (utf8_char b bs) - 1) bs)"
  by pat_completeness auto
termination by (relation "measure length") simp_all

definition utf8_lossy :: "byte list \<Rightarrow> ustring" where
  "utf8_lossy b = utf8_lossy_nat (map unat b)"

subsection \<open>Trimming\<close>

text \<open>The characters with the \<open>White_Space\<close> property, and \<open>str::trim_end\<close>.\<close>

definition is_white_space :: "nat \<Rightarrow> bool" where
  "is_white_space c \<longleftrightarrow> 9 \<le> c \<and> c \<le> 13 \<or> c = 0x20 \<or> c = 0x85 \<or> c = 0xA0 \<or> c = 0x1680 \<or>
     0x2000 \<le> c \<and> c \<le> 0x200A \<or> c = 0x2028 \<or> c = 0x2029 \<or> c = 0x202F \<or> c = 0x205F \<or> c = 0x3000"

definition trim_end :: "ustring \<Rightarrow> ustring" where
  "trim_end t = rev (dropWhile is_white_space (rev t))"

lemma trim_end_last: "trim_end t = [] \<or> \<not> is_white_space (last (trim_end t))"
  by (cases "dropWhile is_white_space (rev t)")
    (auto simp: trim_end_def last_rev dest: dropWhile_eq_Cons_conv [THEN iffD1])

text \<open>ASCII is decoded as it is.\<close>

lemma utf8_lossy_ascii: "\<forall>b \<in> set bs. b < 0x80 \<Longrightarrow> utf8_lossy_nat bs = bs"
  by (induction bs) (simp_all add: utf8_char_def utf8_width_def)

end
