(* ===== verification/Hdx_Fat.thy ===== *)
theory Hdx_Fat
  imports Hdx_View Hdx_Text
begin

text \<open>
  \<open>src/src/fat.rs\<close>: the FAT12/16/32 reader and the El Torito boot catalog. Fields of 8, 16 and 32
  bits are naturals; the largest product formed from them (sectors times bytes per sector) is
  below \<open>2 ^ 45\<close>, so 64-bit arithmetic never wraps. Full Unicode lower-casing of a short name is a
  parameter (\<open>lower\<close>).
\<close>

datatype fat_bits = Fat12 | Fat16 | Fat32

record fat =
  ft_bytes_per_sector :: nat
  ft_sectors_per_cluster :: nat
  ft_reserved :: nat
  ft_num_fats :: nat
  ft_root_entries :: nat
  ft_fat_sectors :: nat
  ft_total_sectors :: nat
  ft_root_cluster :: nat
  ft_kind :: fat_bits
  ft_data_start :: nat
  ft_cluster_count :: nat

record fat_file =
  ff_path :: ustring
  ff_runs :: "(nat \<times> nat) list"

definition FAT_TABLE_MAX :: nat where "FAT_TABLE_MAX = 64 * 2 ^ 20"
definition MAX_DIR_DEPTH :: nat where "MAX_DIR_DEPTH = 64"

datatype fat_error =
    TruncatedBootSector | NotFatBootSector | EmptyFatGeometry | NoDataArea | FatTableTooLarge nat
  | TruncatedFatTable | ClusterOutsideData nat | ClusterChainLoops
  | TruncatedBootCatalog | NoValidationEntry

definition byte_at :: "byte list \<Rightarrow> nat \<Rightarrow> nat" where
  "byte_at b i = unat (b ! i)"

definition is_power_of_two :: "nat \<Rightarrow> bool" where
  "is_power_of_two n = list_ex (\<lambda>i. n = 2 ^ i) [0..<64]"

definition FAT_STR :: "byte list" where "FAT_STR = [70, 65, 84]"

definition fat_looks_like :: "byte list \<Rightarrow> bool" where
  "fat_looks_like head =
     (if length head < 512 \<or> byte_at head 510 \<noteq> 0x55 \<or> byte_at head 511 \<noteq> 0xAA then False
      else if byte_at head 0 \<notin> {0xEB, 0xE9} then False
      else let bps = le16 head 11; spc = byte_at head 13 in
        if bps \<notin> {512, 1024, 2048, 4096} \<or> spc = 0 \<or> \<not> is_power_of_two spc \<or> 128 < spc then False
        else if le16 head 14 = 0 \<or> byte_at head 16 \<notin> {1, 2} \<or> byte_at head 21 < 0xF0 then False
        else window head 54 3 = FAT_STR \<or> window head 82 3 = FAT_STR)"

definition fat_open :: "view \<Rightarrow> fat_error + fat" where
  "fat_open v =
     (let boot = read_full_at v 512 0 in
      ensureR (length boot = 512) TruncatedBootSector
      (ensureR (fat_looks_like boot) NotFatBootSector
      (let bytes_per_sector = le16 boot 11;
           sectors_per_cluster = byte_at boot 13;
           reserved = le16 boot 14;
           num_fats = byte_at boot 16;
           root_entries = le16 boot 17;
           fat_sectors = (if le16 boot 22 = 0 then le32 boot 36 else le16 boot 22);
           total_sectors = (if le16 boot 19 = 0 then le32 boot 32 else le16 boot 19)
       in ensureR (0 < fat_sectors \<and> 0 < total_sectors) EmptyFatGeometry
       (let root_sectors = div_ceil (root_entries * 32) bytes_per_sector;
            first_data = reserved + num_fats * fat_sectors + root_sectors
        in ensureR (first_data < total_sectors) NoDataArea
        (let clusters = (total_sectors - first_data) div sectors_per_cluster;
             kind = (if clusters < 4085 then Fat12 else if clusters < 65525 then Fat16 else Fat32)
         in ensureR (fat_sectors * bytes_per_sector \<le> FAT_TABLE_MAX)
              (FatTableTooLarge (fat_sectors * bytes_per_sector))
              (Inr \<lparr>ft_bytes_per_sector = bytes_per_sector,
                    ft_sectors_per_cluster = sectors_per_cluster,
                    ft_reserved = reserved, ft_num_fats = num_fats, ft_root_entries = root_entries,
                    ft_fat_sectors = fat_sectors, ft_total_sectors = total_sectors,
                    ft_root_cluster = le32 boot 44, ft_kind = kind,
                    ft_data_start = first_data * bytes_per_sector,
                    ft_cluster_count = min clusters (2 ^ 32 - 1)\<rparr>))))))"

definition cluster_bytes :: "fat \<Rightarrow> nat" where
  "cluster_bytes f = ft_bytes_per_sector f * ft_sectors_per_cluster f"

definition cluster_at :: "fat \<Rightarrow> nat \<Rightarrow> nat" where
  "cluster_at f c = ft_data_start f + (c - 2) * cluster_bytes f"

definition read_table :: "fat \<Rightarrow> view \<Rightarrow> fat_error + byte list" where
  "read_table f v =
     (let want = ft_fat_sectors f * ft_bytes_per_sector f;
          table = read_full_at v want (ft_reserved f * ft_bytes_per_sector f)
      in ensureR (length table = want) TruncatedFatTable (Inr table))"

definition fat_next :: "fat \<Rightarrow> byte list \<Rightarrow> nat \<Rightarrow> nat option" where
  "fat_next f table c =
     (let value =
        (case ft_kind f of
           Fat12 \<Rightarrow> (let i = c + c div 2 in
             if i + 2 \<le> length table then
               Some (if odd c then le16 table i div 16 else le16 table i mod 0x1000) else None)
         | Fat16 \<Rightarrow> (let i = c * 2 in if i + 2 \<le> length table then Some (le16 table i) else None)
         | Fat32 \<Rightarrow> (let i = c * 4 in
             if i + 4 \<le> length table then Some (le32 table i mod 0x10000000) else None));
         stop = (case ft_kind f of Fat12 \<Rightarrow> 0x0FF7 | Fat16 \<Rightarrow> 0xFFF7 | Fat32 \<Rightarrow> 0x0FFFFFF7)
      in case value of
           None \<Rightarrow> None
         | Some k \<Rightarrow> if 2 \<le> k \<and> k < stop then Some k else None)"

text \<open>\<open>runs.last_mut()\<close> extended when the cluster is adjacent, a new run otherwise.\<close>

definition push_run :: "(nat \<times> nat) list \<Rightarrow> nat \<Rightarrow> nat \<Rightarrow> (nat \<times> nat) list" where
  "push_run runs pos fsize =
     (if runs \<noteq> [] \<and> fst (last runs) + snd (last runs) = pos
      then butlast runs @ [(fst (last runs), snd (last runs) + fsize)]
      else runs @ [(pos, fsize)])"

function chain_loop ::
  "fat \<Rightarrow> byte list \<Rightarrow> nat \<Rightarrow> nat \<Rightarrow> (nat \<times> nat) list \<Rightarrow> fat_error + (nat \<times> nat) list" where
  "chain_loop f table cur steps runs =
     (if \<not> (2 \<le> cur \<and> cur - 2 < max (ft_cluster_count f) 1) then Inl (ClusterOutsideData cur)
      else let runs' = push_run runs (cluster_at f cur) (cluster_bytes f) in
        if \<not> Suc steps \<le> ft_cluster_count f then Inl ClusterChainLoops
        else case fat_next f table cur of
          Some n \<Rightarrow> chain_loop f table n (Suc steps) runs'
        | None \<Rightarrow> Inr runs')"
  by pat_completeness auto
termination
  by (relation "measure (\<lambda>(f, table, cur, steps, runs). ft_cluster_count f - steps)") auto

declare chain_loop.simps [simp del]

definition fat_chain :: "fat \<Rightarrow> byte list \<Rightarrow> nat \<Rightarrow> fat_error + (nat \<times> nat) list" where
  "fat_chain f table start = chain_loop f table start 0 []"

fun truncate_runs :: "(nat \<times> nat) list \<Rightarrow> nat \<Rightarrow> (nat \<times> nat) list" where
  "truncate_runs [] left = []"
| "truncate_runs ((pos, len) # runs) left =
     (if left = 0 then []
      else (pos, min len left) # truncate_runs runs (left - min len left))"

subsection \<open>Names\<close>

text \<open>The long name whose fragments were collected, sorted by ordinal (a stable sort); each
  fragment ends at its first 0x0000 or 0xFFFF.\<close>

definition long_name :: "(nat \<times> nat list) list \<Rightarrow> ustring option" where
  "long_name parts =
     (if parts = [] then None
      else let units = concat (map (\<lambda>(order, chunk). takeWhile (\<lambda>u. u \<noteq> 0 \<and> u \<noteq> 0xFFFF) chunk)
                (sort_key fst parts));
               name = utf16_lossy units
        in if name \<noteq> [] then Some name else None)"

definition short_name :: "(ustring \<Rightarrow> ustring) \<Rightarrow> byte list \<Rightarrow> ustring" where
  "short_name lower e =
     (let base = trim_end (utf8_lossy (window e 0 8));
          ext = trim_end (utf8_lossy (window e 8 3));
          base = (if byte_at e 0 = 0x05 then 0xE5 # drop 1 base else base);
          base = (if e ! 12 AND 0x08 \<noteq> 0 then lower base else base);
          ext = (if e ! 12 AND 0x10 \<noteq> 0 then lower ext else ext)
      in if ext = [] then base else base @ [46] @ ext)"

definition lfn_chars :: "byte list \<Rightarrow> nat list" where
  "lfn_chars e = concat (map (\<lambda>(r0, r1). map (\<lambda>i. le16 e (r0 + i * 2)) [0..<r1]) [(1, 5), (14, 6), (28, 2)])"

subsection \<open>Directories\<close>

datatype fat_note = NestingPast ustring | ChainNote ustring fat_error

record dir_state =
  ds_seen :: "nat set"
  ds_out :: "fat_file list"
  ds_notes :: "fat_note list"

definition DOT :: nat where "DOT = 46"
definition SLASH :: nat where "SLASH = 47"

text \<open>One pass over a directory's entries: the long-name fragments and the subdirectories found so
  far are threaded with the shared state.\<close>

fun dir_entries ::
  "(ustring \<Rightarrow> ustring) \<Rightarrow> fat \<Rightarrow> byte list \<Rightarrow> ustring \<Rightarrow> byte list list \<Rightarrow> (nat \<times> nat list) list \<Rightarrow>
   (ustring \<times> nat) list \<Rightarrow> dir_state \<Rightarrow> (ustring \<times> nat) list \<times> dir_state" where
  "dir_entries lower f table prefix [] lfn subdirs st = (subdirs, st)"
| "dir_entries lower f table prefix (e # es) lfn subdirs st =
     (if byte_at e 0 = 0x00 then (subdirs, st)
      else if byte_at e 0 = 0xE5 then dir_entries lower f table prefix es [] subdirs st
      else if byte_at e 11 = 0x0F then
        dir_entries lower f table prefix es (lfn @ [(unat (e ! 0 AND 0x3F), lfn_chars e)]) subdirs st
      else
        let attr = e ! 11;
            name = (case long_name lfn of Some n \<Rightarrow> n | None \<Rightarrow> short_name lower e);
            start = le16 e 20 * 65536 + le16 e 26;
            fsize = le32 e 28
        in if attr AND 0x08 \<noteq> 0 \<or> name = [] \<or> name = [DOT] \<or> name = [DOT, DOT]
           then dir_entries lower f table prefix es [] subdirs st
           else if attr AND 0x10 \<noteq> 0 then
             if 2 \<le> start \<and> start \<notin> ds_seen st
             then dir_entries lower f table prefix es [] (subdirs @ [(name, start)])
                    (st\<lparr>ds_seen := insert start (ds_seen st)\<rparr>)
             else dir_entries lower f table prefix es [] subdirs st
           else if fsize = 0 \<or> start < 2 then dir_entries lower f table prefix es [] subdirs st
           else case fat_chain f table start of
             Inr runs \<Rightarrow> dir_entries lower f table prefix es [] subdirs
                 (st\<lparr>ds_out := ds_out st @ [\<lparr>ff_path = prefix @ name, ff_runs = truncate_runs runs fsize\<rparr>]\<rparr>)
           | Inl err \<Rightarrow> dir_entries lower f table prefix es [] subdirs
                 (st\<lparr>ds_notes := ds_notes st @ [ChainNote (prefix @ name) err]\<rparr>))"

text \<open>The recursion over subdirectories; \<open>room\<close> is \<open>MAX_DIR_DEPTH\<close> less the depth.\<close>

fun fat_walk_dir ::
  "(ustring \<Rightarrow> ustring) \<Rightarrow> fat \<Rightarrow> view \<Rightarrow> byte list \<Rightarrow> nat \<Rightarrow> (nat \<times> nat) list \<Rightarrow> ustring \<Rightarrow>
   dir_state \<Rightarrow> dir_state" where
  "fat_walk_dir lower f v table 0 runs prefix st =
     st\<lparr>ds_notes := ds_notes st @ [NestingPast prefix]\<rparr>"
| "fat_walk_dir lower f v table (Suc room) runs prefix st =
     (let dir = concat (map (\<lambda>(pos, len). read_full_at v len pos) runs) in
      case dir_entries lower f table prefix (chunks_exact 32 dir) [] [] st of
        (subdirs, st') \<Rightarrow>
          foldl (\<lambda>st (name, start).
             case fat_chain f table start of
               Inr runs' \<Rightarrow> fat_walk_dir lower f v table room runs' (prefix @ name @ [SLASH]) st
             | Inl err \<Rightarrow> st\<lparr>ds_notes := ds_notes st @ [ChainNote (prefix @ name @ [SLASH]) err]\<rparr>)
           st' subdirs)"

definition fat_files ::
  "(ustring \<Rightarrow> ustring) \<Rightarrow> fat \<Rightarrow> view \<Rightarrow> fat_error + (fat_file list \<times> fat_note list)" where
  "fat_files lower f v =
     bindR (read_table f v) (\<lambda>table.
     bindR (if ft_kind f = Fat32 then fat_chain f table (ft_root_cluster f)
            else Inr [((ft_reserved f + ft_num_fats f * ft_fat_sectors f) * ft_bytes_per_sector f,
                       ft_root_entries f * 32)]) (\<lambda>root.
     let st = fat_walk_dir lower f v table MAX_DIR_DEPTH root [] \<lparr>ds_seen = {}, ds_out = [], ds_notes = []\<rparr>
     in Inr (ds_out st, ds_notes st)))"

definition fat_size :: "fat \<Rightarrow> nat" where
  "fat_size f = ft_total_sectors f * ft_bytes_per_sector f"

subsection \<open>El Torito boot images\<close>

record boot_image =
  bi_efi :: bool
  bi_at :: nat
  bi_len :: nat

datatype boot_note = PastEnd nat | NoLength nat nat

fun catalog_entries ::
  "view \<Rightarrow> byte list list \<Rightarrow> nat \<Rightarrow> boot_image list \<Rightarrow> boot_note list \<Rightarrow> boot_image list \<times> boot_note list" where
  "catalog_entries v [] platform out notes = (out, notes)"
| "catalog_entries v (e # es) platform out notes =
     (if byte_at e 0 \<in> {0x01, 0x90, 0x91} then catalog_entries v es (byte_at e 1) out notes
      else if byte_at e 0 = 0x88 then
        let lba = le32 e 8; stated = le16 e 6 * 512; pos = lba * 2048 in
        if v_len v \<le> pos then catalog_entries v es platform out (notes @ [PastEnd lba])
        else
          let sub = view_slice v [(pos, v_len v - pos)];
              len = (case fat_open sub of
                       Inr fs \<Rightarrow> if stated \<le> fat_size fs \<and> pos + fat_size fs \<le> v_len v
                                then fat_size fs else stated
                     | Inl _ \<Rightarrow> stated)
          in if len = 0 \<or> v_len v < pos + len
             then catalog_entries v es platform out (notes @ [NoLength lba stated])
             else catalog_entries v es platform
                    (out @ [\<lparr>bi_efi = (platform = 0xEF), bi_at = pos, bi_len = len\<rparr>]) notes
      else catalog_entries v es platform out notes)"

definition boot_images :: "view \<Rightarrow> nat \<Rightarrow> fat_error + (boot_image list \<times> boot_note list)" where
  "boot_images v catalog_lba =
     (let cat = read_full_at v 2048 (catalog_lba * 2048) in
      ensureR (length cat = 2048) TruncatedBootCatalog
      (ensureR (byte_at cat 0 = 0x01) NoValidationEntry
      (Inr (catalog_entries v (chunks_exact 32 cat) 0 [] []))))"

subsection \<open>What a chain is\<close>

text \<open>The whole chain from a cluster, following the table to its end.\<close>

inductive fat_follow :: "fat \<Rightarrow> byte list \<Rightarrow> nat \<Rightarrow> nat list \<Rightarrow> bool" for f table where
  follow_end: "fat_next f table c = None \<Longrightarrow> fat_follow f table c [c]"
| follow_next: "fat_next f table c = Some n \<Longrightarrow> fat_follow f table n cs \<Longrightarrow> fat_follow f table c (c # cs)"

inductive_cases fat_followE: "fat_follow f table c cs"

definition in_data :: "fat \<Rightarrow> nat \<Rightarrow> bool" where
  "in_data f c \<longleftrightarrow> 2 \<le> c \<and> c - 2 < ft_cluster_count f"

definition run_bytes :: "byte list \<Rightarrow> (nat \<times> nat) list \<Rightarrow> byte list" where
  "run_bytes b runs = concat (map (\<lambda>(pos, len). window b pos len) runs)"

definition clusters_runs :: "fat \<Rightarrow> (nat \<times> nat) list \<Rightarrow> nat list \<Rightarrow> (nat \<times> nat) list" where
  "clusters_runs f runs cs = foldl (\<lambda>r c. push_run r (cluster_at f c) (cluster_bytes f)) runs cs"

lemma fat_follow_unique: "fat_follow f table c cs \<Longrightarrow> fat_follow f table c cs' \<Longrightarrow> cs = cs'"
proof (induction c cs arbitrary: cs' rule: fat_follow.induct)
  case (follow_end c)
  from follow_end(2,1) show ?case by (auto elim: fat_followE)
next
  case (follow_next c n cs)
  from follow_next(4) show ?case
    by (rule fat_followE) (use follow_next(1,3) in \<open>metis option.distinct(1) option.inject\<close>)+
qed

lemma fat_follow_suffix:
  "fat_follow f table c cs \<Longrightarrow> d \<in> set cs \<Longrightarrow> \<exists>ds. fat_follow f table d ds \<and> length ds \<le> length cs"
proof (induction c cs rule: fat_follow.induct)
  case (follow_end c)
  then show ?case by (auto intro: fat_follow.follow_end)
next
  case (follow_next c n cs)
  show ?case
  proof (cases "d = c")
    case True
    then show ?thesis using fat_follow.follow_next [OF follow_next(1,2)] by auto
  next
    case False
    then show ?thesis using follow_next by (auto intro: le_SucI)
  qed
qed

lemma fat_follow_distinct: "fat_follow f table c cs \<Longrightarrow> distinct cs"
proof (induction c cs rule: fat_follow.induct)
  case (follow_next c n cs)
  have "c \<notin> set cs"
  proof
    assume "c \<in> set cs"
    then obtain ds where "fat_follow f table c ds" "length ds \<le> length cs"
      using fat_follow_suffix [OF follow_next(2)] by blast
    then show False
      using fat_follow_unique [OF fat_follow.follow_next [OF follow_next(1,2)]] by fastforce
  qed
  then show ?case using follow_next by simp
qed simp

lemma fat_follow_length:
  assumes "fat_follow f table c cs" "\<forall>c \<in> set cs. in_data f c"
  shows "length cs \<le> ft_cluster_count f"
proof -
  have "set cs \<subseteq> {2 ..< 2 + ft_cluster_count f}" using assms(2) by (auto simp: in_data_def)
  then have "card (set cs) \<le> card {2 ..< 2 + ft_cluster_count f}" by (rule card_mono [rotated]) simp
  then show ?thesis using distinct_card [OF fat_follow_distinct [OF assms(1)]] by simp
qed

subsection \<open>The chain loop\<close>

lemma chain_loop_step:
  assumes "in_data f cur" "steps < ft_cluster_count f"
  shows "chain_loop f table cur steps runs =
     (case fat_next f table cur of
        Some n \<Rightarrow> chain_loop f table n (Suc steps) (push_run runs (cluster_at f cur) (cluster_bytes f))
      | None \<Rightarrow> Inr (push_run runs (cluster_at f cur) (cluster_bytes f)))"
  using assms by (subst chain_loop.simps) (simp add: in_data_def Let_def)

lemma chain_loop_follows:
  "fat_follow f table cur cs \<Longrightarrow> \<forall>c \<in> set cs. in_data f c \<Longrightarrow> steps + length cs \<le> ft_cluster_count f \<Longrightarrow>
   chain_loop f table cur steps runs = Inr (clusters_runs f runs cs)"
  by (induction cur cs arbitrary: steps runs rule: fat_follow.induct)
    (simp_all add: chain_loop_step clusters_runs_def)

lemma chain_loop_sound:
  "chain_loop f table cur steps runs = Inr r \<Longrightarrow>
   \<exists>cs. fat_follow f table cur cs \<and> (\<forall>c \<in> set cs. in_data f c) \<and> r = clusters_runs f runs cs"
proof (induction f table cur steps runs rule: chain_loop.induct)
  case (1 f table cur steps runs)
  let ?r = "push_run runs (cluster_at f cur) (cluster_bytes f)"
  have "chain_loop f table cur steps runs = Inl (ClusterOutsideData cur)"
    if "\<not> (2 \<le> cur \<and> cur - 2 < max (ft_cluster_count f) 1)"
    using that by (subst chain_loop.simps) (rule if_P)
  moreover have "chain_loop f table cur steps runs = Inl ClusterChainLoops"
    if "2 \<le> cur \<and> cur - 2 < max (ft_cluster_count f) 1" "\<not> Suc steps \<le> ft_cluster_count f"
    using that by (subst chain_loop.simps) (simp add: Let_def)
  ultimately have c: "2 \<le> cur \<and> cur - 2 < max (ft_cluster_count f) 1" "Suc steps \<le> ft_cluster_count f"
    using 1(2) by (metis Inl_Inr_False)+
  then have d: "in_data f cur" by (auto simp: in_data_def)
  have step: "chain_loop f table cur steps runs =
     (case fat_next f table cur of Some n \<Rightarrow> chain_loop f table n (Suc steps) ?r | None \<Rightarrow> Inr ?r)"
    using chain_loop_step [OF d] c(2) by simp
  show ?case
  proof (cases "fat_next f table cur")
    case None
    then have "r = clusters_runs f runs [cur]" using 1(2) step by (simp add: clusters_runs_def)
    then show ?thesis using fat_follow.follow_end [OF None] d by (intro exI [of _ "[cur]"]) simp
  next
    case (Some n)
    have "chain_loop f table n (Suc steps) ?r = Inr r" using 1(2) step Some by simp
    with 1(1) [of ?r n] c Some obtain cs where cs: "fat_follow f table n cs" "\<forall>c \<in> set cs. in_data f c"
        "r = clusters_runs f ?r cs" by auto
    then show ?thesis using fat_follow.follow_next [OF Some cs(1)] d
      by (intro exI [of _ "cur # cs"]) (simp add: clusters_runs_def)
  qed
qed

lemma chain_loop_outside:
  assumes "\<not> in_data f cur" "0 < ft_cluster_count f"
  shows "chain_loop f table cur steps runs = Inl (ClusterOutsideData cur)"
proof -
  have "\<not> (2 \<le> cur \<and> cur - 2 < max (ft_cluster_count f) 1)"
    using assms by (cases "ft_cluster_count f") (auto simp: in_data_def max_def)
  then show ?thesis by (subst chain_loop.simps) (rule if_P)
qed

lemma chain_loop_not_loops:
  "fat_follow f table cur cs \<Longrightarrow> 0 < ft_cluster_count f \<Longrightarrow>
   steps + length (takeWhile (in_data f) cs) \<le> ft_cluster_count f \<Longrightarrow>
   chain_loop f table cur steps runs \<noteq> Inl ClusterChainLoops"
proof (induction cur cs arbitrary: steps runs rule: fat_follow.induct)
  case (follow_end c)
  then show ?case
    by (cases "in_data f c") (simp_all add: chain_loop_step chain_loop_outside)
next
  case (follow_next c n cs)
  show ?case
  proof (cases "in_data f c")
    case True
    then show ?thesis using follow_next by (simp add: chain_loop_step)
  next
    case False
    then show ?thesis using follow_next(4) by (simp add: chain_loop_outside)
  qed
qed

lemma takeWhile_in_data:
  assumes "fat_follow f table c cs"
  shows "length (takeWhile (in_data f) cs) \<le> ft_cluster_count f"
proof -
  let ?t = "takeWhile (in_data f) cs"
  have "set ?t \<subseteq> {2 ..< 2 + ft_cluster_count f}" 
    by (rule subsetI) (drule set_takeWhileD, simp add: in_data_def, linarith)
  then have "card (set ?t) \<le> card {2 ..< 2 + ft_cluster_count f}" by (rule card_mono [rotated]) simp
  then show ?thesis
    using distinct_card [of ?t] distinct_takeWhile [OF fat_follow_distinct [OF assms]] by simp
qed

lemma push_run_bytes: "run_bytes b (push_run runs pos k) = run_bytes b runs @ window b pos k"
proof (cases runs rule: rev_cases)
  case (snoc rs r)
  obtain o1 l1 where r: "r = (o1, l1)" by (cases r)
  show ?thesis
  proof (cases "o1 + l1 = pos")
    case True
    then show ?thesis using window_append [of b o1 l1 k] by (simp add: push_run_def snoc r run_bytes_def)
  qed (simp add: push_run_def snoc r run_bytes_def)
qed (simp add: push_run_def run_bytes_def)

lemma push_run_sum: "sum_list (map snd (push_run runs pos k)) = sum_list (map snd runs) + k"
  by (cases runs rule: rev_cases) (auto simp: push_run_def)

lemma push_run_within:
  assumes "\<forall>(p, l) \<in> set runs. 0 < l \<and> lo \<le> p \<and> p + l \<le> hi" "0 < k" "lo \<le> pos" "pos + k \<le> hi"
  shows "\<forall>(p, l) \<in> set (push_run runs pos k). 0 < l \<and> lo \<le> p \<and> p + l \<le> hi"
proof (cases runs rule: rev_cases)
  case (snoc rs r)
  then show ?thesis using assms by (cases r) (auto simp: push_run_def)
qed (use assms in \<open>simp add: push_run_def\<close>)

lemma clusters_runs_snoc:
  "clusters_runs f runs (cs @ [c]) = push_run (clusters_runs f runs cs) (cluster_at f c) (cluster_bytes f)"
  by (simp add: clusters_runs_def)

lemma clusters_runs_bytes:
  "run_bytes b (clusters_runs f [] cs) = concat (map (\<lambda>c. window b (cluster_at f c) (cluster_bytes f)) cs)"
  by (induction cs rule: rev_induct)
    (simp_all add: clusters_runs_snoc push_run_bytes, simp add: clusters_runs_def run_bytes_def)

lemma clusters_runs_sum: "sum_list (map snd (clusters_runs f [] cs)) = length cs * cluster_bytes f"
  by (induction cs rule: rev_induct)
    (simp_all add: clusters_runs_snoc push_run_sum, simp add: clusters_runs_def)

definition data_end :: "fat \<Rightarrow> nat" where
  "data_end f = ft_data_start f + ft_cluster_count f * cluster_bytes f"

lemma cluster_inside:
  assumes "in_data f c"
  shows "ft_data_start f \<le> cluster_at f c \<and> cluster_at f c + cluster_bytes f \<le> data_end f"
proof -
  have "Suc (c - 2) * cluster_bytes f \<le> ft_cluster_count f * cluster_bytes f"
    using assms by (intro mult_le_mono1) (simp add: in_data_def)
  then show ?thesis by (simp add: cluster_at_def data_end_def)
qed

lemma clusters_runs_within:
  "\<forall>c \<in> set cs. in_data f c \<Longrightarrow> 0 < cluster_bytes f \<Longrightarrow>
   \<forall>(p, l) \<in> set (clusters_runs f [] cs). 0 < l \<and> ft_data_start f \<le> p \<and> p + l \<le> data_end f"
proof (induction cs rule: rev_induct)
  case (snoc c cs)
  have "\<forall>(p, l) \<in> set (clusters_runs f [] cs). 0 < l \<and> ft_data_start f \<le> p \<and> p + l \<le> data_end f"
    using snoc by simp
  moreover have "in_data f c" using snoc(2) by simp
  ultimately show ?case
    unfolding clusters_runs_snoc by (intro push_run_within) (use snoc(3) cluster_inside in simp_all)
qed (simp add: clusters_runs_def)

text \<open>
  C14. Following a chain is exact. It succeeds exactly when the table leads from the start cluster
  to an end through clusters of the data area only; a chain it calls looping really never ends
  (when there is a data area at all). On success the clusters are distinct, and the runs name
  their bytes, cluster after cluster in chain order, and stay inside the data area.
\<close>

theorem fat_chain_exact:
  assumes "0 < cluster_bytes f" "0 < ft_cluster_count f"
  shows "((\<exists>runs. fat_chain f table start = Inr runs) \<longleftrightarrow>
            (\<exists>cs. fat_follow f table start cs \<and> (\<forall>c \<in> set cs. in_data f c))) \<and>
         (fat_chain f table start = Inl ClusterChainLoops \<longrightarrow> (\<nexists>cs. fat_follow f table start cs)) \<and>
         (\<forall>runs. fat_chain f table start = Inr runs \<longrightarrow>
            (\<exists>cs. fat_follow f table start cs \<and> distinct cs \<and> length cs \<le> ft_cluster_count f \<and>
               (\<forall>b. run_bytes b runs = concat (map (\<lambda>c. window b (cluster_at f c) (cluster_bytes f)) cs)) \<and>
               (\<forall>(p, l) \<in> set runs. 0 < l \<and> ft_data_start f \<le> p \<and> p + l \<le> data_end f)))"
proof -
  have complete: "fat_chain f table start = Inr (clusters_runs f [] cs)"
    if "fat_follow f table start cs" "\<forall>c \<in> set cs. in_data f c" for cs
    using chain_loop_follows [OF that, of 0] fat_follow_length [OF that] by (simp add: fat_chain_def)
  have sound: "\<exists>cs. fat_follow f table start cs \<and> (\<forall>c \<in> set cs. in_data f c) \<and> runs = clusters_runs f [] cs"
    if "fat_chain f table start = Inr runs" for runs
    using chain_loop_sound [of f table start 0 "[]" runs] that by (simp add: fat_chain_def)
  have "\<exists>cs. fat_follow f table start cs \<and> distinct cs \<and> length cs \<le> ft_cluster_count f \<and>
      (\<forall>b. run_bytes b runs = concat (map (\<lambda>c. window b (cluster_at f c) (cluster_bytes f)) cs)) \<and>
      (\<forall>(p, l) \<in> set runs. 0 < l \<and> ft_data_start f \<le> p \<and> p + l \<le> data_end f)"
    if r: "fat_chain f table start = Inr runs" for runs
  proof -
    obtain cs where cs: "fat_follow f table start cs" "\<forall>c \<in> set cs. in_data f c" "runs = clusters_runs f [] cs"
      using sound [OF r] by blast
    show ?thesis
      using cs fat_follow_distinct [OF cs(1)] fat_follow_length [OF cs(1,2)]
        clusters_runs_bytes [of _ f cs] clusters_runs_within [OF cs(2) assms(1)] by blast
  qed
  moreover have "(\<exists>runs. fat_chain f table start = Inr runs) \<longleftrightarrow>
      (\<exists>cs. fat_follow f table start cs \<and> (\<forall>c \<in> set cs. in_data f c))"
    using complete sound by blast
  moreover have "fat_chain f table start = Inl ClusterChainLoops \<Longrightarrow>
      \<nexists>cs. fat_follow f table start cs"
    using chain_loop_not_loops [OF _ assms(2), of table start _ 0 "[]"] takeWhile_in_data
    by (fastforce simp: fat_chain_def)
  ultimately show ?thesis by blast
qed

definition example_fat :: fat where
  "example_fat = \<lparr>ft_bytes_per_sector = 512, ft_sectors_per_cluster = 1, ft_reserved = 1,
     ft_num_fats = 1, ft_root_entries = 16, ft_fat_sectors = 1, ft_total_sectors = 9,
     ft_root_cluster = 0, ft_kind = Fat16, ft_data_start = 1536, ft_cluster_count = 6\<rparr>"

definition example_table :: "byte list" where
  "example_table = [0, 0, 0, 0, 4, 0, 0xFF, 0xFF, 5, 0, 0xFF, 0xFF, 7, 0, 6, 0]"

lemma example_next:
  "fat_next example_fat example_table 2 = Some 4" "fat_next example_fat example_table 4 = Some 5"
  "fat_next example_fat example_table 5 = None"
  by (simp_all add: fat_next_def example_fat_def example_table_def le16_def window_def)

text \<open>The example: the chain 2, 4, 5, whose last two clusters are adjacent, in two runs; and the
  chain 6, 7, 6, \<dots>, which loops.\<close>

theorem fat_chain_exact_witness:
  "\<exists>runs cs. fat_chain example_fat example_table 2 = Inr runs \<and>
     fat_follow example_fat example_table 2 cs \<and> distinct cs"
proof -
  have "fat_follow example_fat example_table 2 [2, 4, 5]"
    by (rule fat_follow.follow_next fat_follow.follow_end example_next)+
  moreover have "\<forall>c \<in> set [2, 4, 5]. in_data example_fat c"
    by (simp add: in_data_def example_fat_def)
  ultimately have "\<exists>cs. fat_follow example_fat example_table 2 cs \<and> (\<forall>c \<in> set cs. in_data example_fat c)"
    by blast
  moreover have "0 < cluster_bytes example_fat" "0 < ft_cluster_count example_fat"
    by (simp_all add: cluster_bytes_def example_fat_def)
  ultimately show ?thesis using fat_chain_exact [of example_fat example_table 2] by blast
qed

subsection \<open>The files of a file system\<close>

lemma truncate_runs_sum: "sum_list (map snd (truncate_runs runs n)) = min n (sum_list (map snd runs))"
proof (induction runs n rule: truncate_runs.induct)
  case (2 pos len runs left)
  then show ?case by (auto simp: min_def)
qed simp

lemma truncate_runs_within:
  "\<forall>(p, l) \<in> set runs. 0 < l \<and> lo \<le> p \<and> p + l \<le> hi \<Longrightarrow>
   \<forall>(p, l) \<in> set (truncate_runs runs n). 0 < l \<and> lo \<le> p \<and> p + l \<le> hi"
proof (induction runs n rule: truncate_runs.induct)
  case (2 pos len runs left)
  then show ?case by (cases "left = 0") auto
qed simp

lemma truncate_runs_bytes:
  "\<forall>(p, l) \<in> set runs. p + l \<le> length b \<Longrightarrow> run_bytes b (truncate_runs runs n) = take n (run_bytes b runs)"
proof (induction runs n rule: truncate_runs.induct)
  case (2 pos len runs left)
  have "pos + len \<le> length b" using 2(2) by simp
  then have w: "length (window b pos len) = len" by (simp add: length_window)
  have IH: "run_bytes b (truncate_runs runs (left - min len left)) = take (left - min len left) (run_bytes b runs)"
    if "left \<noteq> 0" using 2 that by simp
  have "window b pos (min len left) = take left (window b pos len)"
    by (simp add: window_def min.commute)
  then show ?case using IH w by (cases "left = 0") (simp_all add: run_bytes_def min_def)
qed (simp add: run_bytes_def)

text \<open>The fields of a directory entry, and the entries of a directory that are in use: those before the
  end mark that are neither deleted nor a fragment of a long name nor the volume label.\<close>

definition entry_cluster :: "byte list \<Rightarrow> nat" where
  "entry_cluster e = le_nat (window e 26 2) + 2 ^ 16 * le_nat (window e 20 2)"

definition entry_size :: "byte list \<Rightarrow> nat" where
  "entry_size e = le_nat (window e 28 4)"

definition entry_is_dir :: "byte list \<Rightarrow> bool" where
  "entry_is_dir e \<longleftrightarrow> bit (e ! 11) 4"

definition live :: "byte list list \<Rightarrow> byte list list" where
  "live es = filter (\<lambda>e. byte_at e 0 \<noteq> 0xE5 \<and> byte_at e 11 \<noteq> 0x0F \<and> \<not> bit (e ! 11) 3) (takeWhile (\<lambda>e. byte_at e 0 \<noteq> 0) es)"

definition live_entries :: "byte list \<Rightarrow> byte list list" where
  "live_entries d = live (chunks_exact 32 d)"

text \<open>The contents of the directories of the file system, from the root on.\<close>

definition clusters_content :: "fat \<Rightarrow> byte list \<Rightarrow> nat list \<Rightarrow> byte list" where
  "clusters_content f b cs = concat (map (\<lambda>c. window b (cluster_at f c) (cluster_bytes f)) cs)"

inductive fat_dir :: "fat \<Rightarrow> byte list \<Rightarrow> byte list \<Rightarrow> byte list \<Rightarrow> bool" for f b table where
  dir_fixed: "ft_kind f \<noteq> Fat32 \<Longrightarrow>
    fat_dir f b table (window b ((ft_reserved f + ft_num_fats f * ft_fat_sectors f) * ft_bytes_per_sector f) (ft_root_entries f * 32))"
| dir_root: "ft_kind f = Fat32 \<Longrightarrow> fat_follow f table (ft_root_cluster f) cs \<Longrightarrow> fat_dir f b table (clusters_content f b cs)"
| dir_sub: "fat_dir f b table d \<Longrightarrow> e \<in> set (live_entries d) \<Longrightarrow> entry_is_dir e \<Longrightarrow> fat_follow f table (entry_cluster e) cs \<Longrightarrow>
    fat_dir f b table (clusters_content f b cs)"

text \<open>A reported file is the chain of a file entry of one of the directories, inside the data area and cut to
  the entry's size.\<close>

definition file_ok :: "fat \<Rightarrow> byte list \<Rightarrow> byte list \<Rightarrow> fat_file \<Rightarrow> bool" where
  "file_ok f b table ff \<longleftrightarrow>
     (\<exists>d e cs. fat_dir f b table d \<and> e \<in> set (live_entries d) \<and> \<not> entry_is_dir e \<and> 0 < entry_size e \<and>
        fat_follow f table (entry_cluster e) cs \<and> (\<forall>c \<in> set cs. in_data f c) \<and>
        ff_runs ff = truncate_runs (clusters_runs f [] cs) (entry_size e))"

lemma fat_chain_clusters:
  "fat_chain f table start = Inr runs \<Longrightarrow>
   \<exists>cs. fat_follow f table start cs \<and> (\<forall>c \<in> set cs. in_data f c) \<and> runs = clusters_runs f [] cs"
  unfolding fat_chain_def by (rule chain_loop_sound)

lemma entry_fields:
  "le16 e 20 * 65536 + le16 e 26 = entry_cluster e" "le32 e 28 = entry_size e"
  "e ! 11 AND 0x10 \<noteq> 0 \<longleftrightarrow> entry_is_dir e" "e ! 11 AND 0x08 \<noteq> 0 \<longleftrightarrow> bit (e ! 11) 3"
  using and_exp_eq_0_iff_not_bit [of "e ! 11" 4] and_exp_eq_0_iff_not_bit [of "e ! 11" 3]
  by (simp_all add: entry_cluster_def entry_size_def entry_is_dir_def le16_def le32_def)

definition outs_ok :: "fat \<Rightarrow> byte list \<Rightarrow> byte list \<Rightarrow> dir_state \<Rightarrow> bool" where
  "outs_ok f b table st \<longleftrightarrow> (\<forall>ff \<in> set (ds_out st). file_ok f b table ff)"

lemma outs_ok_simps [simp]:
  "outs_ok f b table (st\<lparr>ds_seen := x\<rparr>) = outs_ok f b table st"
  "outs_ok f b table (st\<lparr>ds_notes := y\<rparr>) = outs_ok f b table st"
  by (simp_all add: outs_ok_def)

lemma outs_ok_push:
  assumes "outs_ok f b table st" "fat_chain f table (entry_cluster e) = Inr runs" "entry_size e \<noteq> 0"
    and "fat_dir f b table d" "e \<in> set (live_entries d)" "\<not> entry_is_dir e"
  shows "outs_ok f b table (st\<lparr>ds_out := ds_out st @ [\<lparr>ff_path = p, ff_runs = truncate_runs runs (entry_size e)\<rparr>]\<rparr>)"
proof -
  obtain cs where "fat_follow f table (entry_cluster e) cs" "\<forall>c \<in> set cs. in_data f c" "runs = clusters_runs f [] cs"
    using fat_chain_clusters [OF assms(2)] by blast
  then have "file_ok f b table \<lparr>ff_path = p, ff_runs = truncate_runs runs (entry_size e)\<rparr>"
    unfolding file_ok_def using assms(3-6) by (intro exI [of _ d] exI [of _ e] exI [of _ cs]) simp
  then show ?thesis using assms(1) by (auto simp: outs_ok_def)
qed

lemma live_tail: "byte_at e 0 \<noteq> 0 \<Longrightarrow> set (live es) \<subseteq> set (live (e # es))"
  by (auto simp: live_def)

lemma live_head:
  "byte_at e 0 \<noteq> 0 \<Longrightarrow> byte_at e 0 \<noteq> 0xE5 \<Longrightarrow> byte_at e 11 \<noteq> 0x0F \<Longrightarrow> \<not> bit (e ! 11) 3 \<Longrightarrow> e \<in> set (live (e # es))"
  by (simp add: live_def)

definition subs_ok :: "byte list \<Rightarrow> (ustring \<times> nat) list \<Rightarrow> bool" where
  "subs_ok d subs \<longleftrightarrow> (\<forall>(name, start) \<in> set subs. \<exists>e \<in> set (live_entries d). entry_is_dir e \<and> start = entry_cluster e)"

lemma dir_entries_ok:
  assumes "fat_dir f b table d"
  shows "outs_ok f b table st \<Longrightarrow> subs_ok d subdirs \<Longrightarrow> set (live es) \<subseteq> set (live_entries d) \<Longrightarrow>
    dir_entries lower f table prefix es lfn subdirs st = (subdirs', st') \<Longrightarrow> outs_ok f b table st' \<and> subs_ok d subdirs'"
proof (induction es arbitrary: lfn subdirs st)
  case (Cons e es)
  have IH: "outs_ok f b table st' \<and> subs_ok d subdirs'"
    if "dir_entries lower f table prefix es lfn subs st1 = (subdirs', st')" "outs_ok f b table st1" "subs_ok d subs"
      "byte_at e 0 \<noteq> 0" for lfn subs st1
    using Cons.IH [OF that(2,3) _ that(1)] live_tail [OF that(4), of es] Cons.prems(3) by blast
  have head: "e \<in> set (live_entries d)"
    if "byte_at e 0 \<noteq> 0" "byte_at e 0 \<noteq> 0xE5" "byte_at e 11 \<noteq> 0x0F" "\<not> bit (e ! 11) 3"
    using live_head [OF that, of es] Cons.prems(3) by blast
  note step = Cons.prems(4) [unfolded dir_entries.simps Let_def entry_fields]
  show ?case
  proof (cases "byte_at e 0 = 0 \<or> byte_at e 0 = 0xE5 \<or> byte_at e 11 = 0x0F")
    case True
    then consider "subdirs' = subdirs" "st' = st"
      | lfn' where "byte_at e 0 \<noteq> 0" "dir_entries lower f table prefix es lfn' subdirs st = (subdirs', st')"
      using step by (auto split: if_split_asm)
    then show ?thesis using IH Cons.prems(1,2) by cases blast+
  next
    case False
    define name where "name = (case long_name lfn of Some n \<Rightarrow> n | None \<Rightarrow> short_name lower e)"
    show ?thesis
    proof (cases "bit (e ! 11) 3 \<or> name = [] \<or> name = [DOT] \<or> name = [DOT, DOT]")
      case True
      then have "dir_entries lower f table prefix es [] subdirs st = (subdirs', st')"
        using step False unfolding name_def [symmetric] by simp
      then show ?thesis using IH Cons.prems(1,2) False by blast
    next
      case used: False
      then have e: "e \<in> set (live_entries d)" using False by (intro head) simp_all
      note step' = step [folded name_def]
      show ?thesis
      proof (cases "entry_is_dir e")
        case True
        have "subs_ok d (subdirs @ [(name, entry_cluster e)])"
          using Cons.prems(2) e True by (auto simp: subs_ok_def)
        then show ?thesis using step' False used True Cons.prems(1,2) IH by (auto split: if_split_asm)
      next
        case plain: False
        show ?thesis
        proof (cases "entry_size e = 0 \<or> entry_cluster e < 2")
          case True
          then have "dir_entries lower f table prefix es [] subdirs st = (subdirs', st')"
            using step' False used plain by auto
          then show ?thesis using IH Cons.prems(1,2) False by blast
        next
          case some: False
          show ?thesis
          proof (cases "fat_chain f table (entry_cluster e)")
            case (Inl err)
            then show ?thesis using step' False used plain some Cons.prems(1,2) IH by auto
          next
            case (Inr runs)
            have "outs_ok f b table (st\<lparr>ds_out := ds_out st @ [\<lparr>ff_path = prefix @ name, ff_runs = truncate_runs runs (entry_size e)\<rparr>]\<rparr>)"
              using outs_ok_push [OF Cons.prems(1) Inr _ assms e plain] some by blast
            then show ?thesis using step' False used plain some Inr Cons.prems(2) IH by auto
          qed
        qed
      qed
    qed
  qed
qed simp

lemma fat_walk_dir_ok:
  assumes v: "\<And>want off. read_full_at v want off = window b off want"
  shows "outs_ok f b table st \<Longrightarrow> fat_dir f b table (run_bytes b runs) \<Longrightarrow>
    outs_ok f b table (fat_walk_dir lower f v table room runs prefix st)"
proof (induction room arbitrary: runs prefix st)
  case (Suc room)
  have dir: "concat (map (\<lambda>(pos, len). read_full_at v len pos) runs) = run_bytes b runs" by (simp add: run_bytes_def v)
  obtain subs st' where d: "dir_entries lower f table prefix (chunks_exact 32 (run_bytes b runs)) [] [] st = (subs, st')"
    by (cases "dir_entries lower f table prefix (chunks_exact 32 (run_bytes b runs)) [] [] st")
  have ok: "outs_ok f b table st'" "subs_ok (run_bytes b runs) subs"
    using dir_entries_ok [OF Suc.prems(2,1) _ _ d] by (simp_all add: subs_ok_def live_entries_def)
  have sub: "fat_dir f b table (run_bytes b runs')"
    if s: "(name, start) \<in> set subs" and c: "fat_chain f table start = Inr runs'" for name start runs'
  proof -
    obtain e where "e \<in> set (live_entries (run_bytes b runs))" "entry_is_dir e" "start = entry_cluster e"
      using ok(2) s by (auto simp: subs_ok_def)
    moreover obtain cs where "fat_follow f table start cs" "runs' = clusters_runs f [] cs"
      using fat_chain_clusters [OF c] by blast
    ultimately show ?thesis
      using dir_sub [OF Suc.prems(2)] by (simp add: clusters_runs_bytes clusters_content_def)
  qed
  have "outs_ok f b table (foldl (\<lambda>st (name, start).
             case fat_chain f table start of
               Inr runs' \<Rightarrow> fat_walk_dir lower f v table room runs' (prefix @ name @ [SLASH]) st
             | Inl err \<Rightarrow> st\<lparr>ds_notes := ds_notes st @ [ChainNote (prefix @ name @ [SLASH]) err]\<rparr>)
           st' subs)"
    using ok(1) sub
  proof (induction subs arbitrary: st')
    case (Cons s subs)
    obtain name start where s: "s = (name, start)" by (cases s)
    have "outs_ok f b table (case fat_chain f table start of
               Inr runs' \<Rightarrow> fat_walk_dir lower f v table room runs' (prefix @ name @ [SLASH]) st'
             | Inl err \<Rightarrow> st'\<lparr>ds_notes := ds_notes st' @ [ChainNote (prefix @ name @ [SLASH]) err]\<rparr>)"
    proof (cases "fat_chain f table start")
      case (Inl err)
      then show ?thesis using Cons.prems(1) by simp
    next
      case (Inr runs')
      have "fat_dir f b table (run_bytes b runs')" using Cons.prems(2) [of name start, OF _ Inr] s by simp
      then show ?thesis using Suc.IH Cons.prems(1) Inr by simp
    qed
    then show ?case using Cons.IH Cons.prems(2) s by auto
  qed simp
  then show ?case by (simp add: d dir)
qed simp

lemma fat_open_geometry:
  assumes "fat_open v = Inr f"
  shows "0 < cluster_bytes f \<and> data_end f \<le> fat_size f"
proof -
  define boot where "boot = read_full_at v 512 0"
  define bps where "bps = le16 boot 11"
  define spc where "spc = byte_at boot 13"
  define tot where "tot = ft_total_sectors f"
  note conds = assms [unfolded fat_open_def Let_def ensureR_eq_Inr, folded boot_def]
  have ok: "fat_looks_like boot" using conds by (elim conjE)
  have f: "ft_bytes_per_sector f = bps" "ft_sectors_per_cluster f = spc"
    using conds by (auto simp only: bps_def spc_def fat.simps sum.inject)
  have fst: "\<exists>fd. ft_data_start f = fd * bps \<and> fd < tot \<and> ft_cluster_count f \<le> (tot - fd) div spc"
    using conds by (elim conjE) (auto simp only: bps_def spc_def tot_def fat.simps sum.inject min.cobounded1)
  have pos: "0 < bps" "0 < spc"
    using ok by (auto simp: fat_looks_like_def bps_def spc_def Let_def split: if_splits)
  obtain fd where fd: "ft_data_start f = fd * bps" "fd < tot" "ft_cluster_count f \<le> (tot - fd) div spc"
    using fst by blast
  have "ft_cluster_count f * spc \<le> (tot - fd) div spc * spc" using fd(3) by (rule mult_le_mono1)
  also have "\<dots> \<le> tot - fd" by (rule div_times_less_eq_dividend)
  finally have "fd + ft_cluster_count f * spc \<le> tot" using fd(2) by simp
  then have "(fd + ft_cluster_count f * spc) * bps \<le> tot * bps" by (rule mult_le_mono1)
  then show ?thesis using pos fd(1) f
    by (simp add: data_end_def cluster_bytes_def fat_size_def tot_def algebra_simps)
qed

text \<open>
  C15. Every file the reader reports has the bytes its directory entry promises. There is a directory of
  the file system, reached from the root through directory entries, with a live file entry in it whose
  first cluster starts a finite chain without repetition; the file's runs are the chain's clusters in order,
  cut to the size the entry states. No run is empty or leaves the data area (which lies inside the file
  system), the runs hold the size in full or all the chain has, and their bytes are the leading bytes of
  the chain's clusters.
\<close>

theorem fat_files_sound:
  assumes "fat_open v = Inr f" "fat_files lower f v = Inr (files, notes)" "ff \<in> set files"
    and "view_wf v" "b = view_bytes v" "fat_size f \<le> length b"
  shows "\<exists>table d e cs. read_table f v = Inr table \<and> fat_dir f b table d \<and> e \<in> set (live_entries d) \<and>
     \<not> entry_is_dir e \<and> 0 < entry_size e \<and> fat_follow f table (entry_cluster e) cs \<and> distinct cs \<and>
     (\<forall>(p, l) \<in> set (ff_runs ff). 0 < l \<and> ft_data_start f \<le> p \<and> p + l \<le> data_end f) \<and> data_end f \<le> fat_size f \<and>
     sum_list (map snd (ff_runs ff)) = min (entry_size e) (length cs * cluster_bytes f) \<and>
     run_bytes b (ff_runs ff) = take (entry_size e) (clusters_content f b cs)"
proof -
  have v: "read_full_at v want off = window b off want" for want off
    using read_full_at_window [OF assms(4)] assms(5) by simp
  obtain table root where t: "read_table f v = Inr table"
      "files = ds_out (fat_walk_dir lower f v table MAX_DIR_DEPTH root [] \<lparr>ds_seen = {}, ds_out = [], ds_notes = []\<rparr>)"
      "(if ft_kind f = Fat32 then fat_chain f table (ft_root_cluster f)
        else Inr [((ft_reserved f + ft_num_fats f * ft_fat_sectors f) * ft_bytes_per_sector f, ft_root_entries f * 32)]) = Inr root"
    using assms(2) by (auto simp: fat_files_def result_simps Let_def)
  have root: "fat_dir f b table (run_bytes b root)"
  proof (cases "ft_kind f = Fat32")
    case True
    then obtain cs where "fat_follow f table (ft_root_cluster f) cs" "root = clusters_runs f [] cs"
      using fat_chain_clusters t(3) by fastforce
    then show ?thesis using dir_root [OF True] by (simp add: clusters_runs_bytes clusters_content_def)
  next
    case False
    then show ?thesis using dir_fixed [OF False, of b table] t(3) by (auto simp: run_bytes_def)
  qed
  have "file_ok f b table ff"
    using fat_walk_dir_ok [OF v _ root, of "\<lparr>ds_seen = {}, ds_out = [], ds_notes = []\<rparr>" lower MAX_DIR_DEPTH "[]"]
      t(2) assms(3) by (simp add: outs_ok_def)
  then obtain d e cs where c: "fat_dir f b table d" "e \<in> set (live_entries d)" "\<not> entry_is_dir e" "0 < entry_size e"
      "fat_follow f table (entry_cluster e) cs" "\<forall>c \<in> set cs. in_data f c"
      "ff_runs ff = truncate_runs (clusters_runs f [] cs) (entry_size e)" by (auto simp: file_ok_def)
  have g: "0 < cluster_bytes f" "data_end f \<le> fat_size f" using fat_open_geometry [OF assms(1)] by simp_all
  have w: "\<forall>(p, l) \<in> set (clusters_runs f [] cs). 0 < l \<and> ft_data_start f \<le> p \<and> p + l \<le> data_end f"
    by (rule clusters_runs_within [OF c(6) g(1)])
  have "run_bytes b (ff_runs ff) = take (entry_size e) (clusters_content f b cs)"
    unfolding c(7) clusters_content_def clusters_runs_bytes [symmetric]
    by (rule truncate_runs_bytes) (use w g(2) assms(6) in force)
  moreover have "\<forall>(p, l) \<in> set (ff_runs ff). 0 < l \<and> ft_data_start f \<le> p \<and> p + l \<le> data_end f"
    unfolding c(7) by (rule truncate_runs_within [OF w])
  moreover have "sum_list (map snd (ff_runs ff)) = min (entry_size e) (length cs * cluster_bytes f)"
    by (simp add: c(7) truncate_runs_sum clusters_runs_sum)
  ultimately show ?thesis using t(1) c(1-5) fat_follow_distinct [OF c(5)] g(2) by blast
qed

text \<open>The example: a FAT12 image of five sectors whose root directory holds one file, A, of three
  bytes in cluster 2.\<close>

definition ex_boot :: "byte list" where
  "ex_boot = [0xEB, 0, 0, 0, 0, 0, 0, 0, 0, 0, 0, 0, 2, 1, 1, 0, 1, 16, 0, 5, 0, 0xF8, 1, 0]
     @ replicate 30 0 @ FAT_STR @ replicate 453 0 @ [0x55, 0xAA]"

definition ex_table :: "byte list" where "ex_table = [0, 0, 0, 0xFF, 0xFF] @ replicate 507 0"

definition ex_entry :: "byte list" where
  "ex_entry = [65, 32, 32, 32, 32, 32, 32, 32, 32, 32, 32, 0x20, 0, 0, 0, 0, 0, 0, 0, 0, 0, 0, 0, 0,
     0, 0, 2, 0, 3, 0, 0, 0]"

definition ex_image :: "byte list" where
  "ex_image = ex_boot @ ex_table @ (ex_entry @ replicate 480 0) @ ([7, 8, 9] @ replicate 1021 0)"

definition ex_view :: view where "ex_view = view_new (PMem ex_image) [(0, 2560)]"

definition ex_fat :: fat where
  "ex_fat = \<lparr>ft_bytes_per_sector = 512, ft_sectors_per_cluster = 1, ft_reserved = 1,
     ft_num_fats = 1, ft_root_entries = 16, ft_fat_sectors = 1, ft_total_sectors = 5,
     ft_root_cluster = 0, ft_kind = Fat12, ft_data_start = 1536, ft_cluster_count = 2\<rparr>"

lemma ex_lengths: "length ex_boot = 512" "length ex_table = 512" "length ex_entry = 32"
    "length ex_image = 2560"
  by (simp_all add: ex_boot_def ex_table_def ex_entry_def ex_image_def FAT_STR_def)

lemma ex_windows: "window ex_image 0 512 = ex_boot" "window ex_image 512 512 = ex_table"
    "window ex_image 1024 512 = ex_entry @ replicate 480 0"
  by (simp_all add: ex_image_def window_def ex_lengths)

lemma ex_view_bytes: "view_wf ex_view" "view_bytes ex_view = ex_image"
proof -
  show "view_wf ex_view" unfolding ex_view_def by (rule view_new_wf) (simp add: ex_lengths)
  show "view_bytes ex_view = ex_image"
    using window_whole [of ex_image] by (simp add: ex_view_def view_new_bytes ex_lengths)
qed

lemma ex_read: "read_full_at ex_view n p = window ex_image p n"
  by (simp add: read_full_at_window ex_view_bytes)

lemma ex_boot_fields:
  "le16 ex_boot 11 = 512" "byte_at ex_boot 13 = 1" "le16 ex_boot 14 = 1" "byte_at ex_boot 16 = 1"
  "le16 ex_boot 17 = 16" "le16 ex_boot 22 = 1" "le16 ex_boot 19 = 5"
  "byte_at ex_boot 510 = 0x55" "byte_at ex_boot 511 = 0xAA" "byte_at ex_boot 0 = 0xEB"
  "byte_at ex_boot 21 = 0xF8" "window ex_boot 54 3 = FAT_STR"
  by (simp_all add: ex_boot_def le16_def le32_def window_def byte_at_def nth_append FAT_STR_def nth_Cons')

lemma ex_boot_root: "le32 ex_boot 44 = 0"
proof -
  have "window ex_boot 44 4 = replicate 4 0" by (simp add: ex_boot_def window_def)
  then show ?thesis by (simp only: le32_def le_nat_zeros)
qed

lemma ex_open: "fat_open ex_view = Inr ex_fat"
proof -
  have "is_power_of_two 1" 
    unfolding is_power_of_two_def list_ex_iff by (rule bexI [of _ 0]) simp_all
  then have "fat_looks_like ex_boot"
    unfolding fat_looks_like_def ex_boot_fields ex_lengths Let_def by simp
  then show ?thesis
    unfolding fat_open_def ex_read ex_windows ex_lengths ex_boot_fields ex_boot_root Let_def
      div_ceil_def FAT_TABLE_MAX_def ex_fat_def by simp
qed

lemma ex_chain: "fat_chain ex_fat ex_table 2 = Inr [(1536, 512)]"
proof -
  have "fat_next ex_fat ex_table 2 = None"
    by (simp add: fat_next_def ex_fat_def ex_lengths) (simp add: le16_def window_def ex_table_def)
  then show ?thesis
    unfolding fat_chain_def
    by (subst chain_loop.simps) (simp add: ex_fat_def push_run_def cluster_at_def cluster_bytes_def)
qed

lemma ex_dir:
  "dir_entries id ex_fat ex_table [] (chunks_exact 32 (ex_entry @ replicate 480 0)) [] [] st
     = ([], st\<lparr>ds_out := ds_out st @ [\<lparr>ff_path = [65], ff_runs = [(1536, 3)]\<rparr>]\<rparr>)"
proof -
  have c: "chunks_exact 32 (ex_entry @ replicate 480 0)
      = ex_entry # replicate 32 0 # chunks_exact 32 (replicate 448 0)"
    by (subst chunks_exact.simps, simp add: ex_lengths, subst chunks_exact.simps, simp)
  have f: "byte_at ex_entry 0 = 65" "byte_at ex_entry 11 = 0x20" "ex_entry ! 11 = 0x20"
    "le16 ex_entry 20 = 0" "le16 ex_entry 26 = 2" "le32 ex_entry 28 = 3" "ex_entry ! 12 = 0"
    by (simp_all add: ex_entry_def byte_at_def le16_def le32_def window_def)
  have "utf8_lossy (window ex_entry 0 8) = [65, 32, 32, 32, 32, 32, 32, 32]"
    "utf8_lossy (window ex_entry 8 3) = [32, 32, 32]"
    by (simp_all add: utf8_lossy_def ex_entry_def window_def utf8_lossy_ascii del: utf8_lossy_nat.simps)
  then have "short_name id ex_entry = [65]"
    by (simp add: short_name_def f trim_end_def is_white_space_def)
  then show ?thesis
    using f(1) by (simp add: c f long_name_def DOT_def ex_chain [unfolded numeral_2_eq_2] Let_def)
      (simp add: byte_at_def)
qed

theorem fat_files_sound_witness:
  "fat_files id ex_fat ex_view = Inr ([\<lparr>ff_path = [65], ff_runs = [(1536, 3)]\<rparr>], []) \<and>
   (\<exists>d e cs. fat_dir ex_fat ex_image ex_table d \<and> e \<in> set (live_entries d) \<and> fat_follow ex_fat ex_table (entry_cluster e) cs \<and>
      run_bytes ex_image [(1536, 3)] = take (entry_size e) (clusters_content ex_fat ex_image cs))"
proof -
  have m: "MAX_DIR_DEPTH = Suc 63" by (simp add: MAX_DIR_DEPTH_def)
  have w: "fat_walk_dir id ex_fat ex_view ex_table MAX_DIR_DEPTH [(1024, 512)] [] st
      = st\<lparr>ds_out := ds_out st @ [\<lparr>ff_path = [65], ff_runs = [(1536, 3)]\<rparr>]\<rparr>" for st
    unfolding m fat_walk_dir.simps by (simp add: ex_read ex_windows ex_dir)
  have t: "read_table ex_fat ex_view = Inr ex_table"
    by (simp add: read_table_def ex_fat_def ex_read ex_windows ex_lengths)
  have k: "ft_kind ex_fat = Fat12" "(ft_reserved ex_fat + ft_num_fats ex_fat * ft_fat_sectors ex_fat)
      * ft_bytes_per_sector ex_fat = 1024" "ft_root_entries ex_fat * 32 = 512"
    by (simp_all add: ex_fat_def)
  have r: "fat_files id ex_fat ex_view = Inr ([\<lparr>ff_path = [65], ff_runs = [(1536, 3)]\<rparr>], [])"
    by (simp add: fat_files_def t k w)
  have "fat_size ex_fat \<le> length ex_image" by (simp add: fat_size_def ex_fat_def ex_lengths)
  from fat_files_sound [OF ex_open r _ _ _ this, of "\<lparr>ff_path = [65], ff_runs = [(1536, 3)]\<rparr>"] r t ex_view_bytes
  show ?thesis by auto
qed

subsection \<open>Boot images\<close>

text \<open>How many boot entries (first byte 0x88) a catalog holds.\<close>

definition boot_entries :: "byte list \<Rightarrow> nat" where
  "boot_entries cat = length (filter (\<lambda>e. byte_at e 0 = 0x88) (chunks_exact 32 cat))"

definition image_ok :: "view \<Rightarrow> boot_image \<Rightarrow> bool" where
  "image_ok v im \<longleftrightarrow> 0 < bi_len im \<and> bi_at im + bi_len im \<le> v_len v \<and> bi_at im mod 2048 = 0"

lemma catalog_entries_ok:
  "catalog_entries v es platform out nts = (out', nts') \<Longrightarrow> \<forall>im \<in> set out. image_ok v im \<Longrightarrow>
   (\<forall>im \<in> set out'. image_ok v im) \<and>
   length out' + length nts'
     = length out + length nts + length (filter (\<lambda>e. byte_at e 0 = 0x88) es)"
proof (induction es arbitrary: platform out nts)
  case (Cons e es)
  have IH: "catalog_entries v es platform out nts = (out', nts') \<Longrightarrow> \<forall>im \<in> set out. image_ok v im \<Longrightarrow>
      \<forall>im \<in> set out'. image_ok v im"
    "catalog_entries v es platform out nts = (out', nts') \<Longrightarrow> \<forall>im \<in> set out. image_ok v im \<Longrightarrow>
      length out' + length nts'
        = length out + length nts + length (filter (\<lambda>e. byte_at e 0 = 0x88) es)" for platform out nts
    using Cons.IH by blast+
  show ?case
  proof (cases "byte_at e 0 = 0x88")
    case False
    then show ?thesis using Cons.prems IH by (simp split: if_split_asm)
  next
    case True
    define pos where "pos = le32 e 8 * 2048"
    define len where "len = (case fat_open (view_slice v [(pos, v_len v - pos)]) of
        Inr fs \<Rightarrow> if le16 e 6 * 512 \<le> fat_size fs \<and> pos + fat_size fs \<le> v_len v
                 then fat_size fs else le16 e 6 * 512
      | Inl _ \<Rightarrow> le16 e 6 * 512)"
    have step: "(if v_len v \<le> pos then catalog_entries v es platform out (nts @ [PastEnd (le32 e 8)])
        else if len = 0 \<or> v_len v < pos + len
        then catalog_entries v es platform out (nts @ [NoLength (le32 e 8) (le16 e 6 * 512)])
        else catalog_entries v es platform
               (out @ [\<lparr>bi_efi = (platform = 0xEF), bi_at = pos, bi_len = len\<rparr>]) nts) = (out', nts')"
      using Cons.prems(1) True unfolding catalog_entries.simps Let_def pos_def len_def by simp
    have "image_ok v \<lparr>bi_efi = (platform = 0xEF), bi_at = pos, bi_len = len\<rparr>"
      if "len \<noteq> 0" "\<not> v_len v < pos + len"
      using that by (simp add: image_ok_def pos_def)
    then show ?thesis using step Cons.prems(2) True
      by (auto split: if_split_asm dest!: Cons.IH)
  qed
qed simp

text \<open>
  C16. No boot image is walked past its container and none is dropped silently: every image the
  catalog reader returns is non-empty, starts on a 2048-byte block and lies inside the view, and
  every boot entry of the catalog yields exactly one image or one note.
\<close>

theorem boot_images_accounted:
  assumes "boot_images v lba = Inr (images, nts)"
  shows "(\<forall>im \<in> set images. 0 < bi_len im \<and> bi_at im + bi_len im \<le> v_len v \<and> bi_at im mod 2048 = 0) \<and>
     length images + length nts = boot_entries (read_full_at v 2048 (lba * 2048))"
proof -
  have "catalog_entries v (chunks_exact 32 (read_full_at v 2048 (lba * 2048))) 0 [] [] = (images, nts)"
    using assms by (simp add: boot_images_def Let_def result_simps)
  from catalog_entries_ok [OF this] show ?thesis by (simp add: image_ok_def boot_entries_def)
qed

text \<open>The example: a catalog in block 0 with one boot entry, for the 512 bytes of block 1.\<close>

definition ex_catalog :: "byte list" where
  "ex_catalog = (1 # replicate 31 0)
     @ [0x88, 0, 0, 0, 0, 0, 1, 0, 1, 0, 0, 0] @ replicate 20 0 @ replicate 1984 0"

definition ex_iso :: view where
  "ex_iso = view_new (PMem (ex_catalog @ replicate 512 1)) [(0, 2560)]"

lemma chunks_exact_zeros: "chunks_exact 32 (replicate (32 * k) 0) = replicate k (replicate 32 (0 :: byte))"
proof (induction k)
  case 0
  then show ?case by (subst chunks_exact.simps) simp
next
  case (Suc k)
  have "chunks_exact 32 (replicate (32 * Suc k) (0 :: byte))
      = replicate 32 0 # chunks_exact 32 (replicate (32 * k) 0)"
    by (subst chunks_exact.simps) simp
  then show ?case using Suc by simp
qed

lemma catalog_entries_zeros: "catalog_entries v (replicate k (replicate 32 0)) platform out nts = (out, nts)"
  by (induction k) (simp_all add: byte_at_def)

theorem boot_images_accounted_witness:
  "boot_images ex_iso 0 = Inr ([\<lparr>bi_efi = False, bi_at = 2048, bi_len = 512\<rparr>], []) \<and>
   boot_entries (read_full_at ex_iso 2048 0) = 1"
proof -
  let ?im = "\<lparr>bi_efi = False, bi_at = 2048, bi_len = 512\<rparr>"
  let ?e = "[0x88, 0, 0, 0, 0, 0, 1, 0, 1, 0, 0, 0] @ replicate 20 0 :: byte list"
  have len: "length ex_catalog = 2048" by (simp add: ex_catalog_def)
  have wf: "view_wf ex_iso" unfolding ex_iso_def by (rule view_new_wf) (simp add: len)
  have bytes: "view_bytes ex_iso = ex_catalog @ replicate 512 1"
    by (simp add: ex_iso_def view_new_bytes window_def len)
  have vl: "v_len ex_iso = 2560" by (simp add: ex_iso_def view_new_def)
  have cat: "read_full_at ex_iso 2048 0 = ex_catalog"
    by (simp add: read_full_at_window [OF wf] bytes window_def len)
  have "view_bytes (view_slice ex_iso [(2048, 512)]) = replicate 512 1"
    by (simp add: view_slice_bytes [OF wf] bytes window_def len)
  then have "read_full_at (view_slice ex_iso [(2048, 512)]) 512 0 = replicate 512 1"
    by (simp add: read_full_at_window [OF view_slice_wf [OF wf]] window_def)
  then have nofs: "fat_open (view_slice ex_iso [(2048, 512)]) = Inl NotFatBootSector"
    by (simp add: fat_open_def fat_looks_like_def byte_at_def)
  have "chunks_exact 32 ex_catalog = (1 # replicate 31 0) # ?e # chunks_exact 32 (replicate (32 * 62) 0)"
    unfolding ex_catalog_def by (subst chunks_exact.simps, simp, subst chunks_exact.simps, simp)
  then have chunks: "chunks_exact 32 ex_catalog = (1 # replicate 31 0) # ?e # replicate 62 (replicate 32 0)"
    unfolding chunks_exact_zeros .
  have e: "byte_at ?e 0 = 0x88" "le32 ?e 8 = 1" "le16 ?e 6 = 1" "byte_at (1 # replicate 31 0) 0 = 1"
    "byte_at (1 # replicate 31 0) 1 = 0"
    by (simp_all add: byte_at_def le32_def le16_def window_def)
  have "catalog_entries ex_iso (chunks_exact 32 ex_catalog) 0 [] []
      = catalog_entries ex_iso (replicate 62 (replicate 32 0)) 0 [?im] []"
    unfolding chunks catalog_entries.simps e vl Let_def by (simp add: nofs)
  then have "boot_images ex_iso 0 = Inr ([?im], [])"
    by (simp add: boot_images_def cat len catalog_entries_zeros) (simp add: ex_catalog_def byte_at_def)
  with boot_images_accounted [OF this] show ?thesis by simp
qed

end
