(* ===== verification/Hdx_BTreeMap.thy ===== *)
theory Hdx_BTreeMap
  imports Hdx_Prelude
begin

text \<open>
  The part of the standard library's \<open>BTreeMap<u64, V>\<close> the program uses, as an association list
  with strictly ascending keys: \<open>insert\<close>, \<open>range(..=k).next_back()\<close> and
  \<open>range(a..b).next().is_some()\<close>. The locale \<open>ordered_map\<close> is the interface its two clients, the
  range store and the interval set of a splice, rely on.
\<close>

type_synonym 'v btree = "(nat \<times> 'v) list"

fun bt_insert :: "nat \<Rightarrow> 'v \<Rightarrow> 'v btree \<Rightarrow> 'v btree" where
  "bt_insert k v [] = [(k, v)]"
| "bt_insert k v ((k', v') # m) =
     (if k < k' then (k, v) # (k', v') # m
      else if k = k' then (k, v) # m
      else (k', v') # bt_insert k v m)"

fun bt_floor :: "'v btree \<Rightarrow> nat \<Rightarrow> (nat \<times> 'v) option" where
  "bt_floor [] p = None"
| "bt_floor ((k, v) # m) p =
     (if k \<le> p then (case bt_floor m p of None \<Rightarrow> Some (k, v) | Some e \<Rightarrow> Some e) else None)"

definition bt_any_in :: "'v btree \<Rightarrow> nat \<Rightarrow> nat \<Rightarrow> bool" where
  "bt_any_in m a b = list_ex (\<lambda>(k, v). a \<le> k \<and> k < b) m"

definition bt_wf :: "'v btree \<Rightarrow> bool" where
  "bt_wf m = sorted_wrt (<) (map fst m)"

locale ordered_map =
  fixes lookup :: "'m \<Rightarrow> nat \<Rightarrow> 'v option"
    and ins :: "nat \<Rightarrow> 'v \<Rightarrow> 'm \<Rightarrow> 'm"
    and floor :: "'m \<Rightarrow> nat \<Rightarrow> (nat \<times> 'v) option"
    and any_in :: "'m \<Rightarrow> nat \<Rightarrow> nat \<Rightarrow> bool"
    and invar :: "'m \<Rightarrow> bool"
  assumes lookup_ins: "invar m \<Longrightarrow> lookup (ins k v m) = (lookup m)(k \<mapsto> v)"
    and invar_ins: "invar m \<Longrightarrow> invar (ins k v m)"
    and floor_Some: "invar m \<Longrightarrow> floor m p = Some (k, v) \<longleftrightarrow>
          lookup m k = Some v \<and> k \<le> p \<and> (\<forall>k'. lookup m k' \<noteq> None \<and> k' \<le> p \<longrightarrow> k' \<le> k)"
    and floor_None: "invar m \<Longrightarrow> floor m p = None \<longleftrightarrow> (\<forall>k. lookup m k \<noteq> None \<longrightarrow> p < k)"
    and any_in_iff: "invar m \<Longrightarrow> any_in m a b \<longleftrightarrow> (\<exists>k. lookup m k \<noteq> None \<and> a \<le> k \<and> k < b)"
begin

lemma floor_ins_hit:
  assumes "invar m" "k \<le> p" "\<And>k'. lookup m k' \<noteq> None \<Longrightarrow> k' \<le> p \<Longrightarrow> k' \<le> k"
  shows "floor (ins k v m) p = Some (k, v)"
  using assms by (auto simp: floor_Some invar_ins lookup_ins)

lemma floor_ins_other:
  assumes "invar m" "floor m p = Some (k', v')" "p < k \<or> k < k'"
  shows "floor (ins k v m) p = Some (k', v')"
  using assms by (auto simp: floor_Some invar_ins lookup_ins)

lemma floor_ins_self: "invar m \<Longrightarrow> floor (ins k v m) k = Some (k, v)"
  by (rule floor_ins_hit) auto

end

lemma bt_wf_Cons: "bt_wf ((k, v) # m) \<longleftrightarrow> (\<forall>k' \<in> fst ` set m. k < k') \<and> bt_wf m"
  by (simp add: bt_wf_def)

lemma bt_insert_keys: "fst ` set (bt_insert k v m) = insert k (fst ` set m)"
  by (induction k v m rule: bt_insert.induct) auto

lemma bt_insert_wf: "bt_wf m \<Longrightarrow> bt_wf (bt_insert k v m)"
proof (induction k v m rule: bt_insert.induct)
  case (2 k v k' v' m)
  then show ?case by (auto simp: bt_wf_Cons bt_insert_keys)
qed (simp add: bt_wf_def)

lemma map_of_bt_insert: "bt_wf m \<Longrightarrow> map_of (bt_insert k v m) = (map_of m)(k \<mapsto> v)"
proof (induction k v m rule: bt_insert.induct)
  case (2 k v k' v' m)
  then show ?case by (auto simp: bt_wf_Cons fun_upd_twist)
qed simp

lemma map_of_key: "map_of m k \<noteq> None \<longleftrightarrow> k \<in> fst ` set m"
  by (metis map_of_eq_None_iff)

lemma bt_floor_None: "bt_wf m \<Longrightarrow> bt_floor m p = None \<longleftrightarrow> (\<forall>k \<in> fst ` set m. p < k)"
proof (induction m p rule: bt_floor.induct)
  case (2 k v m p)
  then show ?case by (auto simp: bt_wf_Cons split: option.splits)
qed simp

lemma bt_floor_Some:
  "bt_wf m \<Longrightarrow> bt_floor m p = Some (k, v) \<longleftrightarrow>
     map_of m k = Some v \<and> k \<le> p \<and> (\<forall>k' \<in> fst ` set m. k' \<le> p \<longrightarrow> k' \<le> k)"
proof (induction m p rule: bt_floor.induct)
  case (2 k0 v0 m p)
  have wf: "bt_wf m" and lt: "\<forall>k' \<in> fst ` set m. k0 < k'" using 2(2) by (simp_all add: bt_wf_Cons)
  have dom: "k \<in> fst ` set m" if "map_of m k = Some v" using that map_of_key [of m k] by simp
  show ?case
  proof (cases "bt_floor m p")
    case None
    then have "\<forall>k' \<in> fst ` set m. p < k'" using bt_floor_None [OF wf] by simp
    then show ?thesis using None lt dom by (cases "k0 \<le> p") force+
  next
    case (Some e)
    obtain ke ve where e: "e = (ke, ve)" by (cases e)
    have "\<not> (\<forall>k' \<in> fst ` set m. p < k')" using bt_floor_None [OF wf, of p] Some by simp
    then obtain k1 where k1: "k1 \<in> fst ` set m" "k1 \<le> p" by force
    then have "k0 \<le> p" using lt by force
    then show ?thesis using 2(1) [OF _ wf] Some lt k1 dom by force
  qed
qed simp

interpretation bt: ordered_map map_of bt_insert bt_floor bt_any_in bt_wf
proof unfold_locales
  fix m :: "'a btree" and k p a b :: nat and v :: 'a
  assume wf: "bt_wf m"
  show "map_of (bt_insert k v m) = (map_of m)(k \<mapsto> v)" by (rule map_of_bt_insert [OF wf])
  show "bt_wf (bt_insert k v m)" by (rule bt_insert_wf [OF wf])
  show "bt_floor m p = Some (k, v) \<longleftrightarrow>
          map_of m k = Some v \<and> k \<le> p \<and> (\<forall>k'. map_of m k' \<noteq> None \<and> k' \<le> p \<longrightarrow> k' \<le> k)"
    unfolding bt_floor_Some [OF wf] map_of_key by blast
  show "bt_floor m p = None \<longleftrightarrow> (\<forall>k. map_of m k \<noteq> None \<longrightarrow> p < k)"
    unfolding bt_floor_None [OF wf] map_of_key by blast
  show "bt_any_in m a b \<longleftrightarrow> (\<exists>k. map_of m k \<noteq> None \<and> a \<le> k \<and> k < b)"
    unfolding map_of_key bt_any_in_def list_ex_iff by force
qed

end
