(* ===== verification/Hdx_Range_Store.thy ===== *)
theory Hdx_Range_Store
  imports Hdx_BTreeMap
begin

text \<open>
  \<open>src/src/range_store.rs\<close>: an in-memory reader over the ranges of a remote file fetched so far. A
  read that touches unfetched bytes records the missing range and fails; the driver takes the
  miss, fetches it, inserts it and retries. The shared state behind the locks is the record
  \<open>store\<close>; the operations are called one at a time, so each is a state transformer.
\<close>

definition FETCH_BLOCK :: nat where "FETCH_BLOCK = 65536"

record store =
  rs_len :: nat
  rs_fetch_block :: nat
  rs_ranges :: "byte list btree"
  rs_miss :: "(nat \<times> nat) option"

definition store_with_fetch_block :: "nat \<Rightarrow> nat \<Rightarrow> store" where
  "store_with_fetch_block len block =
     \<lparr>rs_len = len, rs_fetch_block = block, rs_ranges = [], rs_miss = None\<rparr>"

definition store_new :: "nat \<Rightarrow> store" where
  "store_new len = store_with_fetch_block len FETCH_BLOCK"

definition store_insert :: "store \<Rightarrow> nat \<Rightarrow> byte list \<Rightarrow> store" where
  "store_insert s start bytes = s\<lparr>rs_ranges := bt_insert start bytes (rs_ranges s)\<rparr>"

definition take_miss :: "store \<Rightarrow> store \<times> (nat \<times> nat) option" where
  "take_miss s = (s\<lparr>rs_miss := None\<rparr>, rs_miss s)"

definition bytes_held :: "store \<Rightarrow> nat" where
  "bytes_held s = sum_list (map (\<lambda>(k, b). length b) (rs_ranges s))"

definition store_cached :: "store \<Rightarrow> nat \<Rightarrow> nat \<Rightarrow> byte list option" where
  "store_cached s start len =
     (case bt_floor (rs_ranges s) start of
        None \<Rightarrow> None
      | Some (k, b) \<Rightarrow>
          let off = start - k in
          if off + len \<le> length b then Some (window b off len) else None)"

text \<open>The length a miss asks for, and reports: at least a fetch block, but not past the end of the file.\<close>

definition miss_length :: "store \<Rightarrow> nat \<Rightarrow> nat \<Rightarrow> nat" where
  "miss_length s start len = max (min (max len (rs_fetch_block s)) (rs_len s - start)) len"

definition store_miss :: "store \<Rightarrow> nat \<Rightarrow> nat \<Rightarrow> store" where
  "store_miss s start len = s\<lparr>rs_miss := Some (start, miss_length s start len)\<rparr>"

datatype store_error = NotFetched nat nat

definition get_bytes :: "store \<Rightarrow> nat \<Rightarrow> nat \<Rightarrow> store \<times> (store_error + byte list)" where
  "get_bytes s start len =
     (if len = 0 then (s, Inr [])
      else case store_cached s start len of
        Some b \<Rightarrow> (s, Inr b)
      | None \<Rightarrow> (store_miss s start len, Inl (NotFetched start (miss_length s start len))))"

text \<open>The cursor serves as much as the covering range holds, halving the request until it fits.\<close>

fun halve_read :: "store \<Rightarrow> nat \<Rightarrow> nat \<Rightarrow> byte list option" where
  "halve_read s pos n =
     (case store_cached s pos n of
        Some b \<Rightarrow> Some b
      | None \<Rightarrow> if n div 2 = 0 then None else halve_read s pos (n div 2))"

declare halve_read.simps [simp del]

definition cursor_read :: "store \<Rightarrow> nat \<Rightarrow> nat \<Rightarrow> store \<times> nat \<times> (store_error + byte list)" where
  "cursor_read s pos want =
     (if rs_len s \<le> pos \<or> want = 0 then (s, pos, Inr [])
      else let avail = min (rs_len s - pos) want in
        case halve_read s pos avail of
          Some got \<Rightarrow> (s, pos + length got, Inr got)
        | None \<Rightarrow> (store_miss s pos avail, pos, Inl (NotFetched pos (miss_length s pos avail))))"

text \<open>One round trip of the driver: take the miss, fetch the range (which stops at the end of the
  remote file) and insert it.\<close>

definition serve_miss :: "byte list \<Rightarrow> store \<Rightarrow> store option" where
  "serve_miss remote s =
     (case take_miss s of
        (s', Some (start, len)) \<Rightarrow> Some (store_insert s' start (window remote start len))
      | (s', None) \<Rightarrow> None)"

subsection \<open>Soundness\<close>

definition store_ok :: "byte list \<Rightarrow> store \<Rightarrow> bool" where
  "store_ok remote s \<longleftrightarrow> bt_wf (rs_ranges s) \<and> rs_len s = length remote \<and>
     (\<forall>k b. map_of (rs_ranges s) k = Some b \<longrightarrow> b = window remote k (length b))"

lemma store_ok_new: "store_ok remote (store_with_fetch_block (length remote) block)"
  by (simp add: store_ok_def store_with_fetch_block_def bt_wf_def)

lemma store_ok_insert:
  "store_ok remote s \<Longrightarrow> store_ok remote (store_insert s start (window remote start len))"
  by (auto simp: store_ok_def store_insert_def bt.invar_ins bt.lookup_ins length_window window_clamp)

lemma store_ok_miss: "store_ok remote (store_miss s start len) \<longleftrightarrow> store_ok remote s"
  by (simp add: store_ok_def store_miss_def)

lemma store_cached_sound:
  assumes "store_ok remote s" "store_cached s start len = Some b"
  shows "b = window remote start len \<and> length b = len"
proof -
  obtain k c where c: "bt_floor (rs_ranges s) start = Some (k, c)" "start - k + len \<le> length c"
      "b = window c (start - k) len"
    using assms(2) by (auto simp: store_cached_def Let_def split: option.splits if_splits)
  have "bt_wf (rs_ranges s)" using assms(1) by (simp add: store_ok_def)
  from bt.floor_Some [OF this] c(1) have k: "map_of (rs_ranges s) k = Some c" "k \<le> start" by simp_all
  then have "c = window remote k (length c)" using assms(1) by (simp add: store_ok_def)
  then have "b = window (window remote k (length c)) (start - k) len" using c(3) by simp
  also have "\<dots> = window remote start len" using k(2) c(2) by (simp add: window_window)
  finally have "b = window remote start len" .
  moreover have "length b = len" using c(2,3) by (simp add: length_window)
  ultimately show ?thesis by simp
qed

lemma halve_read_sound:
  "store_ok remote s \<Longrightarrow> halve_read s pos n = Some b \<Longrightarrow>
   b = window remote pos (length b) \<and> length b \<le> n \<and> (0 < n \<longrightarrow> 0 < length b)"
proof (induction s pos n rule: halve_read.induct)
  case (1 s pos n)
  show ?case
  proof (cases "store_cached s pos n")
    case None
    then have "halve_read s pos n = (if n div 2 = 0 then None else halve_read s pos (n div 2))"
      by (subst halve_read.simps) simp
    then have nz: "n div 2 \<noteq> 0" and r: "halve_read s pos (n div 2) = Some b"
      using 1(3) by (simp_all split: if_splits)
    have w: "b = window remote pos (length b)" and l: "length b \<le> n div 2" "0 < length b"
      using 1(1) [OF None nz 1(2) r] nz by simp_all
    have "length b \<le> n" using l(1) by linarith
    with w l(2) show ?thesis by blast
  next
    case (Some c)
    then have "halve_read s pos n = Some c" by (subst halve_read.simps) simp
    then have "c = b" using 1(3) by simp
    with Some have "b = window remote pos n" "length b = n"
      using store_cached_sound [OF 1(2)] by simp_all
    then show ?thesis by simp
  qed
qed

lemma cursor_read_cases:
  assumes r: "cursor_read s pos want = (s', pos', Inr c)"
  shows "(rs_len s \<le> pos \<or> want = 0) \<and> c = [] \<and> pos' = pos \<or>
     pos < rs_len s \<and> 0 < want \<and> halve_read s pos (min (rs_len s - pos) want) = Some c \<and>
     pos' = pos + length c"
proof (cases "rs_len s \<le> pos \<or> want = 0")
  case True
  then show ?thesis using r by (simp add: cursor_read_def)
next
  case False
  then show ?thesis using r
    by (cases "halve_read s pos (min (rs_len s - pos) want)") (simp_all add: cursor_read_def Let_def)
qed

text \<open>
  C17. Whatever the store answers is the remote file's bytes: in a store that only ever received
  ranges of the file, a successful chunk read is exactly the wanted window, and a cursor read is
  a non-empty prefix of it (empty only at the end of the file), advancing by what it returned.
\<close>

theorem range_store_sound:
  assumes "store_ok remote s"
  shows "(get_bytes s start len = (s', Inr b) \<longrightarrow> b = window remote start len \<and> length b = len \<and> s' = s) \<and>
     (cursor_read s pos want = (s'', pos', Inr c) \<longrightarrow>
        c = window remote pos (length c) \<and> length c \<le> want \<and> pos' = pos + length c \<and>
        (c = [] \<longrightarrow> want = 0 \<or> length remote \<le> pos))"
proof (intro conjI impI)
  assume "get_bytes s start len = (s', Inr b)"
  then show "b = window remote start len" "length b = len" "s' = s"
    using store_cached_sound [OF assms]
    by (auto simp: get_bytes_def window_0_len split: if_splits option.splits)
next
  assume r: "cursor_read s pos want = (s'', pos', Inr c)"
  have len: "rs_len s = length remote" using assms by (simp add: store_ok_def)
  consider (fin) "rs_len s \<le> pos \<or> want = 0" "c = []" "pos' = pos"
    | (got) "pos < rs_len s" "0 < want" "halve_read s pos (min (rs_len s - pos) want) = Some c"
        "pos' = pos + length c"
    using cursor_read_cases [OF r] by blast
  then have all: "c = window remote pos (length c) \<and> length c \<le> want \<and> pos' = pos + length c \<and>
      (c = [] \<longrightarrow> want = 0 \<or> length remote \<le> pos)"
  proof cases
    case got
    have w: "c = window remote pos (length c)" and l: "length c \<le> min (rs_len s - pos) want"
      and nz: "0 < length c"
      using halve_read_sound [OF assms got(3)] got(1,2) by simp_all
    have "length c \<le> want" using l by simp
    with w nz got(4) show ?thesis by force
  qed (auto simp: window_0_len len)
  then show "c = window remote pos (length c)" "length c \<le> want" "pos' = pos + length c"
    "c = [] \<Longrightarrow> want = 0 \<or> length remote \<le> pos" by blast+
qed

theorem range_store_sound_witness:
  "get_bytes (store_insert (store_new 5) 1 [2, 3, 4]) 2 2
     = (store_insert (store_new 5) 1 [2, 3, 4], Inr (window [1, 2, 3, 4, 5] 2 2))"
proof -
  have ok: "store_ok [1, 2, 3, 4, 5] (store_insert (store_new 5) 1 [2, 3, 4])"
    using store_ok_insert [OF store_ok_new [of "[1, 2, 3, 4, 5]" FETCH_BLOCK], of 1 3]
    by (simp add: store_new_def window_def numeral_eq_Suc)
  have r: "get_bytes (store_insert (store_new 5) 1 [2, 3, 4]) 2 2
      = (store_insert (store_new 5) 1 [2, 3, 4], Inr [3, 4])"
    by (simp add: get_bytes_def store_cached_def store_insert_def store_new_def
        store_with_fetch_block_def window_def)
  from range_store_sound [OF ok] r show ?thesis by (metis (no_types, lifting))
qed

subsection \<open>Progress of the retry loop\<close>

definition servable :: "store \<Rightarrow> nat \<Rightarrow> nat \<Rightarrow> bool" where
  "servable s start len \<longleftrightarrow> store_cached s start len \<noteq> None"

lemma servable_iff:
  "servable s start len \<longleftrightarrow>
   (\<exists>k b. bt_floor (rs_ranges s) start = Some (k, b) \<and> start - k + len \<le> length b)"
  by (auto simp: servable_def store_cached_def Let_def split: option.splits)

text \<open>Inserting at an offset whose bytes are not all there keeps what was servable.\<close>

lemma servable_insert_mono:
  assumes wf: "bt_wf (rs_ranges s)" and miss: "\<not> servable s a n" and long: "n \<le> length b"
    and old: "servable s start len" and len: "0 < len"
  shows "servable (store_insert s a b) start len"
proof -
  obtain k c where kc: "bt_floor (rs_ranges s) start = Some (k, c)" "start - k + len \<le> length c"
    using old by (auto simp: servable_iff)
  have k: "k \<le> start" "map_of (rs_ranges s) k = Some c"
    and max: "\<And>k'. map_of (rs_ranges s) k' \<noteq> None \<Longrightarrow> k' \<le> start \<Longrightarrow> k' \<le> k"
    using bt.floor_Some [OF wf] kc(1) by auto
  show ?thesis
  proof (cases "start < a \<or> a < k")
    case True
    then have "bt_floor (bt_insert a b (rs_ranges s)) start = Some (k, c)"
      using bt.floor_ins_other [OF wf kc(1)] by blast
    then show ?thesis using kc(2) by (simp add: servable_iff store_insert_def)
  next
    case False
    then have "bt_floor (rs_ranges s) a = Some (k, c)"
      using k max by (auto simp: bt.floor_Some [OF wf])
    then have "length c < a - k + n" using miss by (auto simp: servable_iff not_le)
    moreover have "bt_floor (bt_insert a b (rs_ranges s)) start = Some (a, b)"
      using False max by (intro bt.floor_ins_hit [OF wf]) force+
    ultimately show ?thesis using kc(2) long False k(1) by (simp add: servable_iff store_insert_def)
  qed
qed

lemma store_miss_range:
  "rs_miss (store_miss s start len) = Some (start, l) \<Longrightarrow> len \<le> l \<and> (start + len \<le> rs_len s \<longrightarrow> start + l \<le> rs_len s)"
  by (auto simp: store_miss_def miss_length_def)

text \<open>
  C18. Every round trip of the retry loop makes progress: after a chunk read inside the file has
  missed and the driver has served the recorded miss (which never reaches past the end of the
  file), the same read succeeds, and every read that succeeded before still does. So no fetched
  range is ever asked for again.
\<close>

theorem retry_progress:
  assumes ok: "store_ok remote s" and inside: "start + len \<le> length remote"
    and miss: "get_bytes s start len = (s1, Inl e)" and serve: "serve_miss remote s1 = Some s2"
  shows "snd (get_bytes s2 start len) = Inr (window remote start len) \<and> store_ok remote s2 \<and>
     (\<forall>a n. 0 < n \<longrightarrow> servable s a n \<longrightarrow> servable s2 a n) \<and>
     (\<exists>l. rs_miss s1 = Some (start, l) \<and> len \<le> l \<and> start + l \<le> length remote)"
proof -
  have wf: "bt_wf (rs_ranges s)" and rl: "rs_len s = length remote" using ok by (simp_all add: store_ok_def)
  have s1: "s1 = store_miss s start len" and none: "store_cached s start len = None" and nz: "len \<noteq> 0"
    using miss by (auto simp: get_bytes_def split: if_splits option.splits)
  obtain l where l: "rs_miss s1 = Some (start, l)" by (simp add: s1 store_miss_def)
  have ll: "len \<le> l" "start + l \<le> length remote"
    using store_miss_range [of s start len l] l inside rl by (simp_all add: s1)
  define b where "b = window remote start l"
  have lb: "length b = l" using ll by (simp add: b_def length_window)
  have s2: "s2 = store_insert (s1\<lparr>rs_miss := None\<rparr>) start b"
    using serve l by (simp add: serve_miss_def take_miss_def b_def)
  have r2: "rs_ranges s2 = bt_insert start b (rs_ranges s)"
    by (simp add: s2 store_insert_def s1 store_miss_def)
  have ok2: "store_ok remote s2"
    using store_ok_insert [of remote "s1\<lparr>rs_miss := None\<rparr>" start l] ok
    by (simp add: s2 b_def s1 store_ok_def store_miss_def)
  have "bt_floor (rs_ranges s2) start = Some (start, b)" by (simp add: r2 bt.floor_ins_self wf)
  then have "store_cached s2 start len \<noteq> None" using ll lb by (simp add: store_cached_def)
  then obtain c where "store_cached s2 start len = Some c" by blast
  then have "snd (get_bytes s2 start len) = Inr (window remote start len)"
    using store_cached_sound [OF ok2] nz by (simp add: get_bytes_def)
  moreover have "servable s2 a n" if "0 < n" "servable s a n" for a n
  proof -
    have "servable (store_insert s start b) a n"
      by (rule servable_insert_mono [OF wf _ _ that(2,1)]) (use none ll lb in \<open>auto simp: servable_def\<close>)
    then show ?thesis by (simp add: servable_iff r2 store_insert_def)
  qed
  ultimately show ?thesis using ok2 l ll by blast
qed

theorem retry_progress_witness:
  "snd (get_bytes (store_insert (store_with_fetch_block 6 4) 1 [2, 3, 4, 5]) 1 2) = Inr [2, 3]"
proof -
  let ?r = "[1, 2, 3, 4, 5, 6] :: byte list"
  let ?s = "store_with_fetch_block 6 4"
  have ok: "store_ok ?r ?s" using store_ok_new [of ?r 4] by (simp add: eval_nat_numeral)
  have m: "get_bytes ?s 1 2 = (store_miss ?s 1 2, Inl (NotFetched 1 4))"
    by (simp add: get_bytes_def store_cached_def store_with_fetch_block_def miss_length_def)
  have v: "serve_miss ?r (store_miss ?s 1 2) = Some (store_insert ?s 1 [2, 3, 4, 5])"
    by (simp add: serve_miss_def take_miss_def store_miss_def miss_length_def store_with_fetch_block_def
        store_insert_def window_def)
  from retry_progress [OF ok _ m v] show ?thesis by (simp add: window_def)
qed

end
