(* ===== verification/Hdx_Git_Tree.thy ===== *)
theory Hdx_Git_Tree
  imports Hdx_Prelude "HOL-Library.Multiset" "HOL-Library.Sublist"
begin

text \<open>
  \<open>src/src/git_tree.rs\<close>: git object hashing of a directory tree built path by path. A tree's
  \<open>HashMap\<close> is an association list with distinct names, in any order; SHA-1 and SHA-256 are
  parameters. The main facts are what an insertion does to every path and that the hash depends
  on nothing but what the tree holds at each path.
\<close>

datatype tnode =
    TFile (tn_exec: bool) (tn_sha1: "byte list") (tn_sha256: "byte list")
  | TSymlink (tn_sha1: "byte list") (tn_sha256: "byte list")
  | TDir (tn_entries: "(byte list \<times> tnode) list")

type_synonym tree = "(byte list \<times> tnode) list"

definition is_tdir :: "tnode \<Rightarrow> bool" where
  "is_tdir x = (case x of TDir t \<Rightarrow> True | _ \<Rightarrow> False)"

lemma is_tdir_simps [simp]:
  "\<not> is_tdir (TFile e a b)" "\<not> is_tdir (TSymlink a b)" "is_tdir (TDir t)"
  by (simp_all add: is_tdir_def)

datatype tree_error = EmptyPath | InsideNonDirectory "byte list"

definition slash :: byte where "slash = 47"

text \<open>The path components: split on '/', empty pieces dropped.\<close>

definition path_parts :: "byte list \<Rightarrow> byte list list" where
  "path_parts path = filter (\<lambda>p. p \<noteq> []) (split_on slash path)"

lemma join_filter_le: "length (join_on c (filter (\<lambda>p. p \<noteq> []) ps)) \<le> length (join_on c ps)"
proof (induction ps)
  case (Cons p ps)
  show ?case
  proof (cases "p = []")
    case True
    then show ?thesis using Cons by (simp add: length_join_Cons)
  next
    case False
    have "filter (\<lambda>p. p \<noteq> []) ps \<noteq> [] \<Longrightarrow> ps \<noteq> []" by auto
    with False Cons show ?thesis by (auto simp: length_join_Cons)
  qed
qed simp

lemma path_parts_shorter:
  assumes "path_parts path = p # rest" "rest \<noteq> []"
  shows "length (join_on slash rest) < length path"
proof -
  have "length (join_on slash (p # rest)) \<le> length (join_on slash (split_on slash path))"
    using join_filter_le [of slash "split_on slash path"] assms(1) by (simp add: path_parts_def)
  then show ?thesis using assms(2) by (simp add: length_join_Cons del: join_on.simps)
qed

text \<open>
  \<open>Tree::insert\<close>. The entry lookup inserts an empty directory where the first component is
  missing, before the recursive call, so the updated tree is returned with the result, an error
  included.
\<close>

function tree_insert :: "tree \<Rightarrow> byte list \<Rightarrow> tnode \<Rightarrow> tree \<times> (tree_error + unit)" where
  "tree_insert t path node =
     (case path_parts path of
        [] \<Rightarrow> (t, Inl EmptyPath)
      | p # rest \<Rightarrow>
          if rest = [] then (hm_insert p node t, Inr ())
          else let t' = (if map_of t p = None then hm_insert p (TDir []) t else t) in
            case map_of t' p of
              Some (TDir sub) \<Rightarrow>
                (case tree_insert sub (join_on slash rest) node of
                   (sub', r) \<Rightarrow> (hm_insert p (TDir sub') t', r))
            | _ \<Rightarrow> (t', Inl (InsideNonDirectory path)))"
  by pat_completeness auto

termination
  by (relation "measure (\<lambda>(t, path, node). length path)") (auto simp: path_parts_shorter)

declare tree_insert.simps [simp del]

definition blob_hashes ::
  "(byte list \<Rightarrow> byte list) \<Rightarrow> (byte list \<Rightarrow> byte list) \<Rightarrow> nat \<Rightarrow> byte list list \<Rightarrow> byte list \<times> byte list" where
  "blob_hashes sha1 sha256 prefix_len chunks =
     (let input = [98, 108, 111, 98, 32] @ dec_ascii prefix_len @ [0] @ concat chunks
      in (sha1 input, sha256 input))"

definition tree_mode :: "tnode \<Rightarrow> byte list" where
  "tree_mode x = (case x of
     TFile exec _ _ \<Rightarrow> if exec then [49, 48, 48, 55, 53, 53] else [49, 48, 48, 54, 52, 52]
   | TSymlink _ _ \<Rightarrow> [49, 50, 48, 48, 48, 48]
   | TDir _ \<Rightarrow> [52, 48, 48, 48, 48])"

text \<open>Directories sort as if their names ended in '/'.\<close>

definition tree_key :: "byte list \<times> tnode \<Rightarrow> byte list" where
  "tree_key e = fst e @ (if is_tdir (snd e) then [slash] else [])"

definition tree_line :: "byte list \<Rightarrow> byte list \<Rightarrow> byte list \<Rightarrow> byte list" where
  "tree_line mode name h = mode @ [32] @ name @ [0] @ h"

definition tree_object :: "byte list \<Rightarrow> byte list" where
  "tree_object nodes = [116, 114, 101, 101, 32] @ dec_ascii (length nodes) @ [0] @ nodes"

lemma tnode_size_entry: "e \<in> set t \<Longrightarrow> size (snd e) < size (TDir t)"
proof (induction t)
  case (Cons a t)
  then show ?case by (cases a) (auto simp: less_Suc_eq_le)
qed simp

text \<open>\<open>Tree::hash\<close> under both algorithms: the entries in key order, one line each, then the
  object header. \<open>node_hash\<close> is the pair a line carries: the stored one, or the subtree's.\<close>

function node_hash ::
  "(byte list \<Rightarrow> byte list) \<Rightarrow> (byte list \<Rightarrow> byte list) \<Rightarrow> tnode \<Rightarrow> byte list \<times> byte list" where
  "node_hash sha1 sha256 (TFile exec h1 h256) = (h1, h256)"
| "node_hash sha1 sha256 (TSymlink h1 h256) = (h1, h256)"
| "node_hash sha1 sha256 (TDir t) =
     (let lines = map (\<lambda>e. case node_hash sha1 sha256 (snd e) of (h1, h256) \<Rightarrow>
             (tree_line (tree_mode (snd e)) (fst e) h1, tree_line (tree_mode (snd e)) (fst e) h256))
           (sort_key tree_key t)
      in (sha1 (tree_object (concat (map fst lines))), sha256 (tree_object (concat (map snd lines)))))"
  by pat_completeness auto

termination
  by (relation "measure (\<lambda>(a, b, x). size x)") (simp_all add: tnode_size_entry del: tnode.size)

definition tree_hash ::
  "(byte list \<Rightarrow> byte list) \<Rightarrow> (byte list \<Rightarrow> byte list) \<Rightarrow> tree \<Rightarrow> byte list \<times> byte list" where
  "tree_hash sha1 sha256 t = node_hash sha1 sha256 (TDir t)"

subsection \<open>What a tree holds at a path\<close>

text \<open>The path view of a tree: the node at a list of names.\<close>

fun tree_at :: "tree \<Rightarrow> byte list list \<Rightarrow> tnode option" where
  "tree_at t [] = Some (TDir t)"
| "tree_at t (p # ps) =
     (case map_of t p of
        None \<Rightarrow> None
      | Some x \<Rightarrow> if ps = [] then Some x else (case x of TDir sub \<Rightarrow> tree_at sub ps | _ \<Rightarrow> None))"

text \<open>Distinct names, each non-empty and without '/', at every level.\<close>

inductive tree_wf :: "tree \<Rightarrow> bool" where
  "distinct (map fst t) \<Longrightarrow> (\<And>n x. (n, x) \<in> set t \<Longrightarrow> n \<noteq> [] \<and> slash \<notin> set n) \<Longrightarrow>
   (\<And>n sub. (n, TDir sub) \<in> set t \<Longrightarrow> tree_wf sub) \<Longrightarrow> tree_wf t"

inductive_cases tree_wfE: "tree_wf t"

lemma tree_wf_distinct: "tree_wf t \<Longrightarrow> distinct (map fst t)" by (auto elim: tree_wfE)
lemma tree_wf_name: "tree_wf t \<Longrightarrow> (n, x) \<in> set t \<Longrightarrow> n \<noteq> [] \<and> slash \<notin> set n"
  by (auto elim: tree_wfE)
lemma tree_wf_sub: "tree_wf t \<Longrightarrow> (n, TDir sub) \<in> set t \<Longrightarrow> tree_wf sub"
  by (auto elim: tree_wfE)

lemma tree_wf_Nil [simp]: "tree_wf []" by (rule tree_wf.intros) simp_all

lemma tree_wf_hm_insert:
  assumes "tree_wf t" "p \<noteq> []" "slash \<notin> set p" "\<And>sub. x = TDir sub \<Longrightarrow> tree_wf sub"
  shows "tree_wf (hm_insert p x t)"
proof (rule tree_wf.intros)
  show "distinct (map fst (hm_insert p x t))"
    by (rule hm_insert_distinct [OF tree_wf_distinct [OF assms(1)]])
next
  fix n y
  assume "(n, y) \<in> set (hm_insert p x t)"
  then show "n \<noteq> [] \<and> slash \<notin> set n"
    using hm_insert_mem tree_wf_name [OF assms(1)] assms(2,3) by (metis prod.inject)
next
  fix n sub
  assume "(n, TDir sub) \<in> set (hm_insert p x t)"
  then show "tree_wf sub"
    using hm_insert_mem tree_wf_sub [OF assms(1)] assms(4) by (metis prod.inject)
qed

lemma path_parts_ok: "p \<in> set (path_parts path) \<Longrightarrow> p \<noteq> [] \<and> slash \<notin> set p"
  by (auto simp: path_parts_def dest: split_on_parts_free)

lemma path_parts_join:
  assumes "rest \<noteq> []" "\<forall>p \<in> set rest. p \<noteq> [] \<and> slash \<notin> set p"
  shows "path_parts (join_on slash rest) = rest"
  using assms by (simp add: path_parts_def split_join filter_id_conv)

text \<open>The insertion as a recursion over the components, which the proofs use.\<close>

lemma tree_insert_step:
  assumes "path_parts path = p # rest" "rest \<noteq> []"
  shows "tree_insert t path node =
     (case map_of t p of
        None \<Rightarrow> (case tree_insert [] (join_on slash rest) node of
                   (sub', r) \<Rightarrow> (hm_insert p (TDir sub') (hm_insert p (TDir []) t), r))
      | Some (TDir sub) \<Rightarrow> (case tree_insert sub (join_on slash rest) node of
                   (sub', r) \<Rightarrow> (hm_insert p (TDir sub') t, r))
      | Some _ \<Rightarrow> (t, Inl (InsideNonDirectory path)))"
  using assms
  by (subst tree_insert.simps) (auto split: option.splits tnode.splits)

lemma tree_insert_last:
  "path_parts path = [p] \<Longrightarrow> tree_insert t path node = (hm_insert p node t, Inr ())"
  by (simp add: tree_insert.simps)

lemma tree_insert_empty: "path_parts path = [] \<Longrightarrow> tree_insert t path node = (t, Inl EmptyPath)"
  by (simp add: tree_insert.simps)

subsection \<open>What an insertion does\<close>

text \<open>An insertion is blocked when a proper prefix of its path names something that is not a
  directory.\<close>

definition path_blocked :: "tree \<Rightarrow> byte list list \<Rightarrow> bool" where
  "path_blocked t ps \<longleftrightarrow> (\<exists>qs x. strict_prefix qs ps \<and> tree_at t qs = Some x \<and> \<not> is_tdir x)"

lemma tree_at_sub: "map_of t p = Some (TDir sub) \<Longrightarrow> tree_at t (p # ps) = tree_at sub ps"
  by (cases ps) simp_all

lemma path_blocked_single: "\<not> path_blocked t [p]"
  by (auto simp: path_blocked_def strict_prefix_def prefix_Cons)

lemma path_blocked_step:
  assumes "rest \<noteq> []"
  shows "path_blocked t (p # rest) \<longleftrightarrow>
     (case map_of t p of None \<Rightarrow> False | Some x \<Rightarrow> \<not> is_tdir x \<or> path_blocked (tn_entries x) rest)"
proof -
  have split: "(\<exists>qs. strict_prefix qs (p # rest) \<and> P qs) \<longleftrightarrow> P [] \<or> (\<exists>qs. strict_prefix qs rest \<and> P (p # qs))"
    for P
  proof
    assume "\<exists>qs. strict_prefix qs (p # rest) \<and> P qs"
    then obtain qs where qs: "strict_prefix qs (p # rest)" "P qs" by blast
    then show "P [] \<or> (\<exists>qs. strict_prefix qs rest \<and> P (p # qs))" by (cases qs) auto
  next
    have "strict_prefix [] (p # rest)" by (simp add: strict_prefix_def)
    moreover have "strict_prefix qs rest \<Longrightarrow> strict_prefix (p # qs) (p # rest)" for qs by simp
    moreover assume "P [] \<or> (\<exists>qs. strict_prefix qs rest \<and> P (p # qs))"
    ultimately show "\<exists>qs. strict_prefix qs (p # rest) \<and> P qs" by blast
  qed
  have "path_blocked t (p # rest) \<longleftrightarrow>
      (\<exists>qs. strict_prefix qs rest \<and> (\<exists>x. tree_at t (p # qs) = Some x \<and> \<not> is_tdir x))"
    using split [of "\<lambda>qs. \<exists>x. tree_at t qs = Some x \<and> \<not> is_tdir x"] by (auto simp: path_blocked_def)
  also have "\<dots> \<longleftrightarrow> (case map_of t p of None \<Rightarrow> False | Some x \<Rightarrow> \<not> is_tdir x \<or> path_blocked (tn_entries x) rest)"
  proof (cases "map_of t p")
    case (Some x)
    show ?thesis
    proof (cases "is_tdir x")
      case True
      then obtain sub where "x = TDir sub" by (cases x) simp_all
      then have "tree_at t (p # qs) = tree_at (tn_entries x) qs" for qs using Some by (simp add: tree_at_sub)
      then show ?thesis using Some True by (simp add: path_blocked_def)
    next
      case False
      have "strict_prefix [] rest" using assms by (simp add: strict_prefix_def)
      moreover have "tree_at t [p] = Some x" using Some by simp
      ultimately show ?thesis using False Some by auto
    qed
  qed simp
  finally show ?thesis .
qed

lemma tree_at_empty: "q \<noteq> [] \<Longrightarrow> tree_at [] q = None"
  by (cases q) simp_all

lemma path_blocked_Nil: "\<not> path_blocked [] ps"
proof
  assume "path_blocked [] ps"
  then obtain qs x where "tree_at [] qs = Some x" "\<not> is_tdir x" by (auto simp: path_blocked_def)
  then show False by (cases "qs = []") (auto simp: tree_at_empty)
qed

lemma tree_insert_result:
  assumes "path_parts path = ps" "ps \<noteq> []"
  shows "if path_blocked t ps then fst (tree_insert t path node) = t \<and>
           (\<exists>p'. snd (tree_insert t path node) = Inl (InsideNonDirectory p'))
         else snd (tree_insert t path node) = Inr ()"
  using assms
proof (induction ps arbitrary: t path)
  case (Cons p rest)
  show ?case
  proof (cases "rest = []")
    case True
    then show ?thesis using Cons(2) by (simp add: tree_insert_last path_blocked_single)
  next
    case False
    have ok: "path_parts (join_on slash rest) = rest"
      using False path_parts_ok [of _ path] Cons(2) by (intro path_parts_join) simp_all
    note step = tree_insert_step [OF Cons(2) False, of t node] path_blocked_step [OF False, of t p]
    show ?thesis
    proof (cases "map_of t p")
      case None
      then show ?thesis using Cons(1) [OF ok False, of "[]"] step path_blocked_Nil [of rest]
        by (simp add: case_prod_beta)
    next
      case (Some x)
      show ?thesis
      proof (cases x)
        case (TDir sub)
        then show ?thesis using Cons(1) [OF ok False, of sub] step Some
          by (auto simp: case_prod_beta hm_insert_same split: if_splits)
      qed (use step Some in simp_all)
    qed
  qed
qed simp

lemma tree_at_hm_insert_other:
  "hd q \<noteq> p \<or> q = [] \<Longrightarrow> q \<noteq> [] \<Longrightarrow> tree_at (hm_insert p x t) q = tree_at t q"
  by (cases q) simp_all

lemma tree_insert_at:
  assumes "path_parts path = ps" "ps \<noteq> []" "\<not> path_blocked t ps"
  shows "tree_at (fst (tree_insert t path node)) ps = Some node \<and>
     (\<forall>q. \<not> prefix ps q \<and> \<not> prefix q ps \<longrightarrow> tree_at (fst (tree_insert t path node)) q = tree_at t q)"
  using assms
proof (induction ps arbitrary: t path)
  case (Cons p rest)
  show ?case
  proof (cases "rest = []")
    case True
    then show ?thesis using Cons(2)
      by (auto simp: tree_insert_last tree_at_hm_insert_other prefix_Cons neq_Nil_conv)
  next
    case False
    have ok: "path_parts (join_on slash rest) = rest"
      using False path_parts_ok [of _ path] Cons(2) by (intro path_parts_join) simp_all
    define sub where "sub = (case map_of t p of Some (TDir s) \<Rightarrow> s | _ \<Rightarrow> [])"
    define sub' where "sub' = fst (tree_insert sub (join_on slash rest) node)"
    define t' where "t' = fst (tree_insert t path node)"
    have old: "map_of t p = None \<and> sub = [] \<or> map_of t p = Some (TDir sub)"
      using Cons(4) path_blocked_step [OF False, of t p]
      by (auto simp: sub_def split: option.splits tnode.splits)
    have m: "map_of t' = (map_of t)(p \<mapsto> TDir sub')"
      using tree_insert_step [OF Cons(2) False, of t node] old
      by (auto simp: t'_def sub'_def case_prod_beta)
    have "\<not> path_blocked sub rest"
      using old Cons(4) path_blocked_step [OF False, of t p] path_blocked_Nil [of rest] by auto
    from Cons(1) [OF ok False this]
    have IH: "tree_at sub' rest = Some node"
        "\<And>q. \<not> prefix rest q \<Longrightarrow> \<not> prefix q rest \<Longrightarrow> tree_at sub' q = tree_at sub q"
      by (simp_all add: sub'_def)
    have "tree_at t' (p # rest) = Some node" using IH(1) m False by simp
    moreover have "tree_at t' q = tree_at t q" if q: "\<not> prefix (p # rest) q" "\<not> prefix q (p # rest)" for q
    proof -
      obtain n q' where nq: "q = n # q'" using q(2) by (cases q) simp_all
      show ?thesis
      proof (cases "n = p")
        case True
        then have q': "\<not> prefix rest q'" "\<not> prefix q' rest" "q' \<noteq> []" using q nq by auto
        have "tree_at t' q = tree_at sub' q'" using m True nq by (simp add: tree_at_sub)
        also have "\<dots> = tree_at sub q'" using IH(2) q' by simp
        also have "\<dots> = tree_at t q" using old q'(3) True nq
          by (auto simp: tree_at_sub tree_at_empty)
        finally show ?thesis .
      next
        case False
        then show ?thesis using m nq by simp
      qed
    qed
    ultimately show ?thesis by (simp add: t'_def)
  qed
qed simp

lemma tree_insert_wf:
  assumes "tree_wf t" "\<And>sub. node = TDir sub \<Longrightarrow> tree_wf sub"
  shows "tree_wf (fst (tree_insert t path node))"
  using assms
proof (induction t path node rule: tree_insert.induct)
  case (1 t path node)
  show ?case
  proof (cases "path_parts path")
    case Nil
    then show ?thesis using 1(2) by (simp add: tree_insert_empty)
  next
    case (Cons p rest)
    have p: "p \<noteq> []" "slash \<notin> set p" using path_parts_ok [of p path] Cons by simp_all
    show ?thesis
    proof (cases "rest = []")
      case True
      then show ?thesis using Cons tree_wf_hm_insert [OF 1(2) p] 1(3) by (simp add: tree_insert_last)
    next
      case False
      define u where "u = (if map_of t p = None then hm_insert p (TDir []) t else t)"
      have wf': "tree_wf u" using tree_wf_hm_insert [OF 1(2) p, of "TDir []"] 1(2) by (simp add: u_def)
      have "tree_wf sub" if "map_of u p = Some (TDir sub)" for sub
        using tree_wf_sub [OF wf' map_of_SomeD [OF that]] .
      then have "tree_wf (fst (tree_insert sub (join_on slash rest) node))"
        if "map_of u p = Some (TDir sub)" for sub
        using 1(1) [OF Cons False u_def that refl] 1(3) that by blast
      note sub_wf = this
      have wfs: "tree_wf (hm_insert p (TDir (fst (tree_insert sub (join_on slash rest) node))) u)"
        if "map_of u p = Some (TDir sub)" for sub
        by (rule tree_wf_hm_insert [OF wf' p]) (use sub_wf [OF that] in simp)
      have "fst (tree_insert t path node) = (case map_of u p of
          Some (TDir sub) \<Rightarrow> hm_insert p (TDir (fst (tree_insert sub (join_on slash rest) node))) u
        | _ \<Rightarrow> u)"
        using tree_insert.simps [of t path node] Cons False
        by (simp add: u_def [symmetric] Let_def case_prod_beta del: if_split split: option.split tnode.split)
      then show ?thesis using wf' wfs by (simp del: if_split split: option.split tnode.split)
    qed
  qed
qed

text \<open>
  C10. \<open>Tree::insert\<close> does to every path what its callers rely on. It fails exactly on an empty
  path and on a path through something that is not a directory, and then the tree is unchanged.
  Otherwise the path afterwards holds the node, and every path that is neither above nor below it
  holds what it held before. Names stay distinct, non-empty and free of '/' at every level.
\<close>

theorem tree_insert_spec:
  assumes "tree_wf t" and "\<And>sub. node = TDir sub \<Longrightarrow> tree_wf sub"
    and "tree_insert t path node = (t', r)"
  shows "(r \<noteq> Inr () \<longleftrightarrow> path_parts path = [] \<or> path_blocked t (path_parts path)) \<and>
     (r \<noteq> Inr () \<longrightarrow> t' = t) \<and>
     (r = Inr () \<longrightarrow> tree_at t' (path_parts path) = Some node \<and>
        (\<forall>q. \<not> prefix (path_parts path) q \<and> \<not> prefix q (path_parts path) \<longrightarrow>
           tree_at t' q = tree_at t q)) \<and>
     tree_wf t'"
proof (cases "path_parts path = []")
  case True
  then show ?thesis using assms(1,3) by (auto simp: tree_insert_empty)
next
  case False
  have wf: "tree_wf t'" using tree_insert_wf [OF assms(1,2)] assms(3) by (metis fst_conv)
  show ?thesis
    using tree_insert_result [OF refl False, of t node] tree_insert_at [OF refl False, of t node]
      assms(3) False wf
    by (auto split: if_splits)
qed

text \<open>The example: a file put at "a/b" in a tree that holds "c".\<close>

theorem tree_insert_spec_witness:
  "tree_at (fst (tree_insert [([99], TFile False [1] [2])] [97, 47, 98] (TFile True [3] [4])))
     [[97], [98]] = Some (TFile True [3] [4])"
proof -
  let ?t = "[([99], TFile False [1] [2])] :: tree"
  have wf: "tree_wf ?t" by (rule tree_wf.intros) (simp_all add: slash_def)
  have pp: "path_parts [97, 47, 98] = [[97], [98]]" "path_parts [98] = [[98]]"
    by (simp_all add: path_parts_def slash_def)
  have r: "tree_insert ?t [97, 47, 98] (TFile True [3] [4])
      = ([([99], TFile False [1] [2]), ([97], TDir [([98], TFile True [3] [4])])], Inr ())"
    using tree_insert_step [OF pp(1), of ?t "TFile True [3] [4]"] tree_insert_last [OF pp(2)]
    by simp
  from tree_insert_spec [OF wf _ r] r pp show ?thesis by simp
qed

subsection \<open>The hash sees only what the tree holds\<close>

text \<open>Two trees hold the same: at every path the same leaf, or a directory in both.\<close>

definition tree_same :: "tree \<Rightarrow> tree \<Rightarrow> bool" where
  "tree_same t1 t2 \<longleftrightarrow>
     (\<forall>q. map_option (\<lambda>x. if is_tdir x then TDir [] else x) (tree_at t1 q)
        = map_option (\<lambda>x. if is_tdir x then TDir [] else x) (tree_at t2 q))"

definition entry_lines ::
  "(byte list \<Rightarrow> byte list) \<Rightarrow> (byte list \<Rightarrow> byte list) \<Rightarrow> byte list \<times> tnode \<Rightarrow>
   byte list \<times> bool \<times> byte list \<times> byte list" where
  "entry_lines sha1 sha256 e = (fst e, is_tdir (snd e),
     tree_line (tree_mode (snd e)) (fst e) (fst (node_hash sha1 sha256 (snd e))),
     tree_line (tree_mode (snd e)) (fst e) (snd (node_hash sha1 sha256 (snd e))))"

definition lines_key :: "byte list \<times> bool \<times> 'x \<Rightarrow> byte list" where
  "lines_key l = fst l @ (if fst (snd l) then [slash] else [])"

lemma insort_key_map: "map g (insort_key (\<lambda>y. f (g y)) x xs) = insort_key f (g x) (map g xs)"
  by (induction xs) simp_all

lemma sort_key_map: "map g (sort_key (\<lambda>y. f (g y)) xs) = sort_key f (map g xs)"
  by (induction xs) (simp_all add: sort_key_simps insort_key_map)

lemma node_hash_lines:
  "node_hash sha1 sha256 (TDir t) =
     (let ls = sort_key lines_key (map (entry_lines sha1 sha256) t) in
      (sha1 (tree_object (concat (map (\<lambda>l. fst (snd (snd l))) ls))),
       sha256 (tree_object (concat (map (\<lambda>l. snd (snd (snd l))) ls)))))"
proof -
  have key: "tree_key = lines_key \<circ> entry_lines sha1 sha256"
    by (simp add: fun_eq_iff tree_key_def lines_key_def entry_lines_def)
  have "sort_key lines_key (map (entry_lines sha1 sha256) t)
      = map (entry_lines sha1 sha256) (sort_key tree_key t)"
    unfolding key comp_def by (rule sort_key_map [symmetric])
  then show ?thesis by (simp add: Let_def case_prod_beta comp_def entry_lines_def)
qed

lemma takeWhile_slash:
  "slash \<notin> set n \<Longrightarrow> takeWhile (\<lambda>c. c \<noteq> slash) n = n"
  "slash \<notin> set n \<Longrightarrow> takeWhile (\<lambda>c. c \<noteq> slash) (n @ [slash]) = n"
  by (induction n) auto

lemma tree_keys_inj:
  assumes "tree_wf t"
  shows "inj_on lines_key (set (map (entry_lines sha1 sha256) t))"
proof (rule inj_onI)
  fix a b
  assume "a \<in> set (map (entry_lines sha1 sha256) t)" "b \<in> set (map (entry_lines sha1 sha256) t)"
    and k: "lines_key a = lines_key b"
  then obtain e1 e2 where e: "e1 \<in> set t" "a = entry_lines sha1 sha256 e1"
      "e2 \<in> set t" "b = entry_lines sha1 sha256 e2" by auto
  have s: "slash \<notin> set (fst e1)" "slash \<notin> set (fst e2)"
    using tree_wf_name [OF assms] e(1,3) by (metis prod.collapse)+
  have "takeWhile (\<lambda>c. c \<noteq> slash) (lines_key a) = fst e1"
    "takeWhile (\<lambda>c. c \<noteq> slash) (lines_key b) = fst e2"
    using s takeWhile_slash by (auto simp: e lines_key_def entry_lines_def)
  then have "fst e1 = fst e2" using k by simp
  then have "e1 = e2" using e(1,3) tree_wf_distinct [OF assms] by (metis eq_key_imp_eq_value prod.collapse)
  then show "a = b" by (simp add: e)
qed

lemma tree_same_sub:
  assumes "tree_same t1 t2" "map_of t1 p = Some (TDir s1)" "map_of t2 p = Some (TDir s2)"
  shows "tree_same s1 s2"
  unfolding tree_same_def
proof
  fix q
  show "map_option (\<lambda>x. if is_tdir x then TDir [] else x) (tree_at s1 q)
      = map_option (\<lambda>x. if is_tdir x then TDir [] else x) (tree_at s2 q)"
    using assms(1) [unfolded tree_same_def, rule_format, of "p # q"] assms(2,3)
    by (simp only: tree_at_sub)
qed

lemma tree_same_entry:
  assumes "tree_same t1 t2" "map_of t1 p = Some x1"
  shows "\<exists>x2. map_of t2 p = Some x2 \<and> (is_tdir x1 \<longleftrightarrow> is_tdir x2) \<and> (\<not> is_tdir x1 \<longrightarrow> x1 = x2)"
proof -
  have "map_option (\<lambda>x. if is_tdir x then TDir [] else x) (map_of t1 p)
      = map_option (\<lambda>x. if is_tdir x then TDir [] else x) (map_of t2 p)"
    using assms(1) [unfolded tree_same_def, rule_format, of "[p]"]
    by (cases "map_of t1 p"; cases "map_of t2 p") simp_all
  then obtain x2 where x2: "map_of t2 p = Some x2"
      "(if is_tdir x1 then TDir [] else x1) = (if is_tdir x2 then TDir [] else x2)"
    using assms(2) by (cases "map_of t2 p") simp_all
  then have "(is_tdir x1 \<longleftrightarrow> is_tdir x2) \<and> (\<not> is_tdir x1 \<longrightarrow> x1 = x2)"
    by (cases x1; cases x2) simp_all
  then show ?thesis using x2(1) by blast
qed

lemma tree_same_sym: "tree_same t1 t2 \<Longrightarrow> tree_same t2 t1"
  by (simp add: tree_same_def)

lemma entry_lines_subset:
  assumes same: "tree_same t1 t2" and wf: "tree_wf t1"
    and IH: "\<And>n s1 s2. (n, TDir s1) \<in> set t1 \<Longrightarrow> (n, TDir s2) \<in> set t2 \<Longrightarrow> tree_same s1 s2 \<Longrightarrow>
        node_hash sha1 sha256 (TDir s1) = node_hash sha1 sha256 (TDir s2)"
  shows "entry_lines sha1 sha256 ` set t1 \<subseteq> entry_lines sha1 sha256 ` set t2"
proof
  fix l
  assume "l \<in> entry_lines sha1 sha256 ` set t1"
  then obtain n x1 where e: "(n, x1) \<in> set t1" "l = entry_lines sha1 sha256 (n, x1)" by auto
  have m1: "map_of t1 n = Some x1" using e(1) tree_wf_distinct [OF wf] by simp
  obtain x2 where x2: "map_of t2 n = Some x2" "is_tdir x1 = is_tdir x2" "\<not> is_tdir x1 \<longrightarrow> x1 = x2"
    using tree_same_entry [OF same m1] by blast
  have "entry_lines sha1 sha256 (n, x1) = entry_lines sha1 sha256 (n, x2)"
  proof (cases x1)
    case (TDir s1)
    then obtain s2 where s2: "x2 = TDir s2" using x2(2) by (cases x2) simp_all
    have "tree_same s1 s2" using tree_same_sub [OF same] m1 x2(1) TDir s2 by simp
    then have "node_hash sha1 sha256 x1 = node_hash sha1 sha256 x2"
      using IH [of n s1 s2] e(1) map_of_SomeD [OF x2(1)] TDir s2 by simp
    then show ?thesis using TDir s2 by (simp add: entry_lines_def tree_mode_def)
  qed (use x2 in simp_all)
  then show "l \<in> entry_lines sha1 sha256 ` set t2"
    using e(2) map_of_SomeD [OF x2(1)] by (metis imageI)
qed

lemma distinct_entry_lines:
  "tree_wf t \<Longrightarrow> distinct (map (entry_lines sha1 sha256) t)"
  using tree_wf_distinct [of t]
  by (auto simp: distinct_map inj_on_def entry_lines_def dest: inj_onD)

lemma node_hash_same:
  "tree_wf t1 \<Longrightarrow> tree_wf t2 \<Longrightarrow> tree_same t1 t2 \<Longrightarrow>
   node_hash sha1 sha256 (TDir t1) = node_hash sha1 sha256 (TDir t2)"
proof (induction t1 arbitrary: t2 rule: tree_wf.induct)
  case (1 t1)
  have wf1: "tree_wf t1" by (rule tree_wf.intros) (use 1 in blast)+
  have IH: "node_hash sha1 sha256 (TDir s1) = node_hash sha1 sha256 (TDir s2)"
    if "(n, TDir s1) \<in> set t1" "(n, TDir s2) \<in> set t2" "tree_same s1 s2" for n s1 s2
    using 1(4) [OF that(1)] tree_wf_sub [OF 1(5) that(2)] that(3) by blast
  have "entry_lines sha1 sha256 ` set t1 = entry_lines sha1 sha256 ` set t2"
  proof
    show "entry_lines sha1 sha256 ` set t1 \<subseteq> entry_lines sha1 sha256 ` set t2"
      by (rule entry_lines_subset [OF 1(6) wf1]) (rule IH)
    show "entry_lines sha1 sha256 ` set t2 \<subseteq> entry_lines sha1 sha256 ` set t1"
      by (rule entry_lines_subset [OF tree_same_sym [OF 1(6)] 1(5)])
        (metis IH tree_same_sym)
  qed
  then have "mset (map (entry_lines sha1 sha256) t1) = mset (map (entry_lines sha1 sha256) t2)"
    using distinct_entry_lines [OF wf1] distinct_entry_lines [OF 1(5)]
    by (subst set_eq_iff_mset_eq_distinct [symmetric]) simp_all
  then have "sort_key lines_key (map (entry_lines sha1 sha256) t1)
      = sort_key lines_key (map (entry_lines sha1 sha256) t2)"
    using tree_keys_inj [OF wf1] by (intro sort_key_inj_key_eq) simp_all
  then show ?case by (simp only: node_hash_lines)
qed

text \<open>
  C9. The tree hash is an identity of content: two well-formed trees that hold the same leaf, or
  a directory, at every path have the same SHA-1 and SHA-256 tree hashes, whatever order their
  hash maps iterate in and whatever order their paths were inserted in.
\<close>

theorem tree_hash_content:
  assumes "tree_wf t1" "tree_wf t2" "tree_same t1 t2"
  shows "tree_hash sha1 sha256 t1 = tree_hash sha1 sha256 t2"
  unfolding tree_hash_def by (rule node_hash_same [OF assms])

theorem tree_hash_content_witness:
  "tree_hash id id [([97], TFile False [1] [2]), ([98], TDir [])]
     = tree_hash id id [([98], TDir []), ([97], TFile False [1] [2])]"
proof (rule tree_hash_content)
  let ?a = "[([97], TFile False [1] [2]), ([98], TDir [])] :: tree"
  let ?b = "[([98], TDir []), ([97], TFile False [1] [2])] :: tree"
  show "tree_wf ?a" "tree_wf ?b"
    by (rule tree_wf.intros; auto simp: slash_def)+
  have m: "map_of ?a = map_of ?b" by (rule ext) simp
  have "tree_at ?a (p # ps) = tree_at ?b (p # ps)" for p ps by (simp only: tree_at.simps m)
  then have "map_option (\<lambda>x. if is_tdir x then TDir [] else x) (tree_at ?a q)
      = map_option (\<lambda>x. if is_tdir x then TDir [] else x) (tree_at ?b q)" for q
    by (cases q) (simp, use \<open>\<And>p ps. tree_at ?a (p # ps) = tree_at ?b (p # ps)\<close> in \<open>simp only:\<close>)
  then show "tree_same ?a ?b" unfolding tree_same_def by (rule allI)
qed

end
