(* ===== verification/Hdx_Microcode.thy ===== *)
theory Hdx_Microcode
  imports Hdx_Prelude
begin

text \<open>
  \<open>src/src/microcode.rs\<close>: the entry boundaries of a microcode archive, a bare run of
  self-delimiting entries. 32-bit fields are naturals below \<open>2 ^ 32\<close>; no sum of two of them with a
  position inside a slice can reach \<open>2 ^ 64\<close>, so the code's checked additions never fail.
\<close>

datatype vendor = Intel | Amd

definition vendor_name :: "vendor \<Rightarrow> string" where
  "vendor_name v = (case v of Intel \<Rightarrow> ''GenuineIntel'' | Amd \<Rightarrow> ''AuthenticAMD'')"

definition MAX_ENTRIES :: nat where "MAX_ENTRIES = 8192"
definition MAX_INTEL_ENTRY :: nat where "MAX_INTEL_ENTRY = 32 * 2 ^ 20"
definition AMD_MAGIC :: "byte list" where "AMD_MAGIC = [68, 77, 65, 0]"

text \<open>\<open>b.get(at..at + len)\<close>: the window, when all of it is there.\<close>

definition get_range :: "'a list \<Rightarrow> nat \<Rightarrow> nat \<Rightarrow> 'a list option" where
  "get_range b at len = (if at + len \<le> length b then Some (window b at len) else None)"

definition bcd_date :: "nat \<Rightarrow> bool" where
  "bcd_date d \<longleftrightarrow>
     list_all (\<lambda>i. d div 16 ^ i mod 16 \<le> 9) [0..<8] \<and>
     0x01 \<le> d div 2 ^ 24 \<and> d div 2 ^ 24 \<le> 0x12 \<and>
     0x01 \<le> d div 2 ^ 16 mod 256 \<and> d div 2 ^ 16 mod 256 \<le> 0x31 \<and>
     0x1990 \<le> d mod 2 ^ 16 \<and> d mod 2 ^ 16 \<le> 0x2099"

definition intel_header :: "byte list \<Rightarrow> nat \<Rightarrow> nat option" where
  "intel_header b at =
     (case get_range b at 48 of
        None \<Rightarrow> None
      | Some h \<Rightarrow>
          if le32 h 0 \<noteq> 1 \<or> le32 h 20 \<noteq> 1 \<or> 0xff < le32 h 24 \<or> \<not> bcd_date (le32 h 8) then None
          else let data = (if le32 h 28 = 0 then 2000 else le32 h 28);
                   tot = (if le32 h 32 = 0 then 2048 else le32 h 32)
            in if tot mod 1024 = 0 \<and> tot \<le> MAX_INTEL_ENTRY \<and> data + 48 \<le> tot
               then Some tot else None)"

definition intel_entry :: "byte list \<Rightarrow> nat \<Rightarrow> nat option" where
  "intel_entry b at =
     (case intel_header b at of
        Some tot \<Rightarrow> if at + tot \<le> length b then Some tot else None
      | None \<Rightarrow> None)"

definition starts_with :: "byte list \<Rightarrow> byte list \<Rightarrow> bool" where
  "starts_with b m = (take (length m) b = m)"

text \<open>The section loop of \<open>amd_container\<close>: the position where the container ends.\<close>

function amd_sections :: "byte list \<Rightarrow> nat \<Rightarrow> nat option" where
  "amd_sections b pos =
     (if pos < length b \<and> \<not> starts_with (drop pos b) AMD_MAGIC then
        case get_range b pos 8 of
          None \<Rightarrow> None
        | Some h \<Rightarrow>
            if 1 < le32 h 0 then None
            else let pos' = pos + 8 + le32 h 4 in
              if length b < pos' then None else amd_sections b pos'
      else Some pos)"
  by pat_completeness auto
termination by (relation "measure (\<lambda>(b, pos). length b - pos)") auto

declare amd_sections.simps [simp del]

definition amd_container :: "byte list \<Rightarrow> nat \<Rightarrow> nat option" where
  "amd_container b at =
     (if \<not> starts_with (drop at b) AMD_MAGIC then None
      else map_option (\<lambda>pos. pos - at) (amd_sections b (at + 4)))"

definition mc_entry :: "vendor \<Rightarrow> byte list \<Rightarrow> nat \<Rightarrow> nat option" where
  "mc_entry v b pos = (case v of Intel \<Rightarrow> intel_entry b pos | Amd \<Rightarrow> amd_container b pos)"

lemma amd_sections_stop:
  "\<not> (pos < length b \<and> \<not> starts_with (drop pos b) AMD_MAGIC) \<Longrightarrow> amd_sections b pos = Some pos"
  unfolding amd_sections.simps [of b pos] by (rule if_not_P)

lemma amd_sections_step:
  assumes "pos < length b" "\<not> starts_with (drop pos b) AMD_MAGIC" "get_range b pos 8 = Some h"
    "le32 h 0 \<le> 1" "pos + 8 + le32 h 4 \<le> length b"
  shows "amd_sections b pos = amd_sections b (pos + 8 + le32 h 4)"
  unfolding amd_sections.simps [of b pos] using assms by (simp del: amd_sections.simps)

lemma amd_sections_le: "amd_sections b pos = Some p \<Longrightarrow> pos \<le> length b \<Longrightarrow> pos \<le> p \<and> p \<le> length b"
proof (induction b pos rule: amd_sections.induct)
  case (1 b pos)
  show ?case
  proof (cases "pos < length b \<and> \<not> starts_with (drop pos b) AMD_MAGIC")
    case True
    then obtain h where h: "get_range b pos 8 = Some h" "\<not> 1 < le32 h 0"
        "\<not> length b < pos + 8 + le32 h 4" "amd_sections b (pos + 8 + le32 h 4) = Some p"
      using 1(2) by (subst (asm) amd_sections.simps) (auto simp: Let_def split: option.splits if_splits)
    with 1(1) [OF True h(1,2) refl h(3)] show ?thesis by simp
  next
    case False
    then have "p = pos" using 1(2) amd_sections_stop [OF False] by simp
    then show ?thesis using 1(3) by simp
  qed
qed

lemma starts_with_AMD: "starts_with b AMD_MAGIC \<longleftrightarrow> take 4 b = [68, 77, 65, 0]"
  by (simp add: starts_with_def AMD_MAGIC_def eval_nat_numeral)

lemma mc_entry_bounds:
  assumes "mc_entry v b pos = Some len" "pos < length b"
  shows "0 < len \<and> pos + len \<le> length b"
proof (cases v)
  case Intel
  then show ?thesis using assms
    by (auto simp: mc_entry_def intel_entry_def intel_header_def Let_def split: option.splits if_splits)
next
  case Amd
  then have m: "starts_with (drop pos b) AMD_MAGIC" and
      s: "amd_sections b (pos + 4) = Some (pos + len) \<or> (\<exists>p. amd_sections b (pos + 4) = Some p \<and> len = p - pos)"
    using assms by (auto simp: mc_entry_def amd_container_def split: if_splits)
  have "take 4 (drop pos b) = [68, 77, 65, 0]"
    using m unfolding starts_with_AMD by simp
  then have "length (take 4 (drop pos b)) = length [68, 77, 65, 0 :: byte]" by (rule arg_cong)
  then have "pos + 4 \<le> length b" by simp
  then show ?thesis using s amd_sections_le [of b "pos + 4"] by fastforce
qed

definition looks_like :: "byte list \<Rightarrow> bool" where
  "looks_like head \<longleftrightarrow> starts_with head AMD_MAGIC \<or> intel_header head 0 \<noteq> None"

function split_loop ::
  "vendor \<Rightarrow> byte list \<Rightarrow> (nat \<times> nat) list \<Rightarrow> nat \<Rightarrow> ((nat \<times> nat) list \<times> nat) option" where
  "split_loop v b out pos =
     (if pos < length b then
        if MAX_ENTRIES \<le> length out then None
        else case mc_entry v b pos of
          None \<Rightarrow> None
        | Some len \<Rightarrow> split_loop v b (out @ [(pos, len)]) (pos + len)
      else Some (out, pos))"
  by pat_completeness auto
termination
  by (relation "measure (\<lambda>(v, b, out, pos). length b - pos)") (auto dest: mc_entry_bounds)

declare split_loop.simps [simp del]

definition mc_split :: "byte list \<Rightarrow> (vendor \<times> (nat \<times> nat) list) option" where
  "mc_split b =
     (let vendor = (if starts_with b AMD_MAGIC then Some Amd
                    else if intel_header b 0 \<noteq> None then Some Intel else None) in
      case vendor of
        None \<Rightarrow> None
      | Some v \<Rightarrow>
          (case split_loop v b [] 0 of
             None \<Rightarrow> None
           | Some (out, pos) \<Rightarrow> if pos = length b \<and> out \<noteq> [] then Some (v, out) else None))"

subsection \<open>Tiling\<close>

text \<open>The pieces lie end to end from \<open>at\<close> to \<open>stop\<close>, none empty.\<close>

fun tiles :: "nat \<Rightarrow> (nat \<times> nat) list \<Rightarrow> nat \<Rightarrow> bool" where
  "tiles at [] stop \<longleftrightarrow> at = stop"
| "tiles at ((o1, len) # es) stop \<longleftrightarrow> o1 = at \<and> 0 < len \<and> tiles (at + len) es stop"

lemma tiles_snoc: "tiles at es stop \<Longrightarrow> 0 < len \<Longrightarrow> tiles at (es @ [(stop, len)]) (stop + len)"
  by (induction at es stop rule: tiles.induct) auto

lemma tiles_concat:
  "tiles at es (length b) \<Longrightarrow> concat (map (\<lambda>(o1, len). window b o1 len) es) = drop at b"
proof (induction es arbitrary: at)
  case (Cons e es)
  obtain o1 len where e: "e = (o1, len)" by (cases e)
  then have "concat (map (\<lambda>(o1, len). window b o1 len) (e # es)) = window b at len @ drop (at + len) b"
    using Cons by simp
  also have "\<dots> = drop at b" by (simp add: window_def) (metis append_take_drop_id drop_drop add.commute)
  finally show ?case .
qed simp

lemma split_loop_tiles:
  "split_loop v b out pos = Some (es, p) \<Longrightarrow> tiles 0 out pos \<Longrightarrow> length out \<le> MAX_ENTRIES \<Longrightarrow> pos \<le> length b \<Longrightarrow>
   \<forall>(o1, len) \<in> set out. mc_entry v b o1 = Some len \<Longrightarrow>
   tiles 0 es p \<and> length es \<le> MAX_ENTRIES \<and> p = length b \<and> (\<forall>(o1, len) \<in> set es. mc_entry v b o1 = Some len)"
proof (induction v b out pos rule: split_loop.induct)
  case (1 v b out pos)
  show ?case
  proof (cases "pos < length b")
    case True
    from True obtain len where len: "\<not> MAX_ENTRIES \<le> length out" "mc_entry v b pos = Some len"
        "split_loop v b (out @ [(pos, len)]) (pos + len) = Some (es, p)"
      using 1(2) by (subst (asm) split_loop.simps) (auto split: option.splits if_splits)
    have b: "0 < len" "pos + len \<le> length b" using mc_entry_bounds [OF len(2) True] by simp_all
    have t: "tiles 0 (out @ [(pos, len)]) (pos + len)" by (rule tiles_snoc [OF 1(3) b(1)])
    have l: "length (out @ [(pos, len)]) \<le> MAX_ENTRIES" using len(1) by simp
    have a: "\<forall>(o1, len) \<in> set (out @ [(pos, len)]). mc_entry v b o1 = Some len"
      using 1(6) len(2) by simp
    show ?thesis by (rule 1(1) [OF True len(1,2,3) t l b(2) a])
  next
    case False
    then have "es = out" "p = pos" using 1(2) by (simp_all add: split_loop.simps)
    then show ?thesis using 1 False by simp
  qed
qed

text \<open>
  C25. A blob is only split when its entries tile it exactly: the boundaries run from offset 0 to
  the end without gap, overlap or empty entry, there are between one and 8192 of them, cutting
  the blob at them and joining the pieces gives the blob back, and every entry is one the
  vendor's own reader accepts at that offset.
\<close>

theorem split_tiles:
  assumes "mc_split b = Some (v, es)"
  shows "tiles 0 es (length b) \<and> 1 \<le> length es \<and> length es \<le> 8192 \<and>
     concat (map (\<lambda>(o1, len). window b o1 len) es) = b \<and>
     (\<forall>(o1, len) \<in> set es. mc_entry v b o1 = Some len)"
proof -
  have s: "split_loop v b [] 0 = Some (es, length b)" "es \<noteq> []"
    using assms by (auto simp: mc_split_def Let_def split: option.splits if_splits)
  have "tiles 0 es (length b) \<and> length es \<le> MAX_ENTRIES \<and> (\<forall>(o1, len) \<in> set es. mc_entry v b o1 = Some len)"
    using split_loop_tiles [OF s(1)] by simp
  then show ?thesis using s(2) tiles_concat [of 0 es b] by (auto simp: MAX_ENTRIES_def Suc_le_eq)
qed

text \<open>The example: two AMD containers, the first with one section of three bytes.\<close>

theorem split_tiles_witness:
  "tiles 0 [(0, 15), (15, 4)]
     (length ([68, 77, 65, 0, 1, 0, 0, 0, 3, 0, 0, 0, 7, 8, 9, 68, 77, 65, 0] :: byte list))"
proof -
  let ?b = "[68, 77, 65, 0, 1, 0, 0, 0, 3, 0, 0, 0, 7, 8, 9, 68, 77, 65, 0] :: byte list"
  have "amd_sections ?b 4 = amd_sections ?b (4 + 8 + le32 [1, 0, 0, 0, 3, 0, 0, 0] 4)"
    by (rule amd_sections_step) (simp_all add: get_range_def window_def le32_def starts_with_AMD)
  then have a: "amd_sections ?b 4 = Some 15"
    by (simp add: le32_def window_def amd_sections_stop starts_with_AMD)
  have b: "amd_sections ?b 19 = Some 19" by (rule amd_sections_stop) simp
  have e: "mc_entry Amd ?b 0 = Some 15" "mc_entry Amd ?b 15 = Some 4"
    by (simp_all add: mc_entry_def amd_container_def starts_with_AMD a b)
  have "split_loop Amd ?b [] 0 = split_loop Amd ?b [(0, 15)] 15"
    by (subst split_loop.simps) (simp add: e MAX_ENTRIES_def)
  also have "\<dots> = split_loop Amd ?b [(0, 15), (15, 4)] 19"
    by (subst split_loop.simps) (simp add: e MAX_ENTRIES_def)
  also have "\<dots> = Some ([(0, 15), (15, 4)], 19)" by (subst split_loop.simps) simp
  finally have "mc_split ?b = Some (Amd, [(0, 15), (15, 4)])"
    by (simp add: mc_split_def starts_with_AMD)
  from split_tiles [OF this] show ?thesis by simp
qed

subsection \<open>Completeness for Intel archives\<close>

text \<open>A published Intel entry: its header states its own length.\<close>

definition intel_blob :: "byte list \<Rightarrow> bool" where
  "intel_blob e \<longleftrightarrow> intel_header e 0 = Some (length e)"

fun boundaries :: "nat \<Rightarrow> byte list list \<Rightarrow> (nat \<times> nat) list" where
  "boundaries at [] = []"
| "boundaries at (e # es) = (at, length e) # boundaries (at + length e) es"

lemma intel_header_at:
  assumes "48 \<le> length e"
  shows "intel_header (pre @ e @ post) (length pre) = intel_header e 0"
proof -
  have "get_range (pre @ e @ post) (length pre) 48 = get_range e 0 48"
    using assms by (simp add: get_range_def window_def)
  then show ?thesis by (simp add: intel_header_def)
qed

lemma intel_blob_long: "intel_blob e \<Longrightarrow> 48 \<le> length e"
  by (auto simp: intel_blob_def intel_header_def get_range_def split: option.splits if_splits)

lemma intel_entry_at: "intel_blob e \<Longrightarrow> mc_entry Intel (pre @ e @ post) (length pre) = Some (length e)"
  using intel_header_at [OF intel_blob_long, of e pre post]
  by (simp add: mc_entry_def intel_entry_def intel_blob_def)

lemma split_loop_intel:
  "\<forall>e \<in> set es. intel_blob e \<Longrightarrow> length out + length es \<le> MAX_ENTRIES \<Longrightarrow>
   split_loop Intel (pre @ concat es) out (length pre)
     = Some (out @ boundaries (length pre) es, length (pre @ concat es))"
proof (induction es arbitrary: out pre)
  case Nil
  then show ?case by (simp add: split_loop.simps)
next
  case (Cons e es)
  have e: "intel_blob e" using Cons(2) by simp
  have "0 < length e" using intel_blob_long [OF e] by linarith
  then have "length pre < length (pre @ concat (e # es))" by simp
  moreover have "mc_entry Intel (pre @ concat (e # es)) (length pre) = Some (length e)"
    using intel_entry_at [OF e, of pre "concat es"] by simp
  moreover have "\<not> MAX_ENTRIES \<le> length out" using Cons(3) by simp
  ultimately have "split_loop Intel (pre @ concat (e # es)) out (length pre)
      = split_loop Intel (pre @ concat (e # es)) (out @ [(length pre, length e)]) (length pre + length e)"
    by (subst split_loop.simps) simp
  then show ?case using Cons(1) [of "out @ [(length pre, length e)]" "pre @ e"] Cons(2,3) by simp
qed

text \<open>
  C26. The splitter misses no Intel archive: the concatenation of any one to 8192 published entries
  (each a byte string whose header states its own length) is split, as an Intel archive, at
  exactly the boundaries it was concatenated at.
\<close>

theorem split_intel_complete:
  assumes "es \<noteq> []" "length es \<le> 8192" "\<forall>e \<in> set es. intel_blob e"
  shows "mc_split (concat es) = Some (Intel, boundaries 0 es)"
proof -
  obtain e es' where es: "es = e # es'" using assms(1) by (cases es) simp_all
  have e: "intel_blob e" using assms(3) es by simp
  have h: "intel_header (concat es) 0 = Some (length e)"
    using intel_header_at [OF intel_blob_long [OF e], of "[]" "concat es'"] e es
    by (simp add: intel_blob_def)
  have "\<not> starts_with (concat es) AMD_MAGIC"
  proof
    assume "starts_with (concat es) AMD_MAGIC"
    then have "window (concat es) 0 4 = AMD_MAGIC"
      unfolding starts_with_AMD by (simp add: window_def AMD_MAGIC_def)
    then have "le32 (window (concat es) 0 48) 0 = le_nat AMD_MAGIC"
      by (simp add: le32_def window_window)
    moreover have "le32 (window (concat es) 0 48) 0 = 1"
      using h by (auto simp: intel_header_def get_range_def split: if_splits)
    ultimately show False by (simp add: AMD_MAGIC_def)
  qed
  moreover have "split_loop Intel (concat es) [] 0 = Some (boundaries 0 es, length (concat es))"
    using split_loop_intel [OF assms(3), of "[]" "[]"] assms(2) by (simp add: MAX_ENTRIES_def)
  ultimately show ?thesis using h es by (simp add: mc_split_def)
qed

text \<open>The example: two entries of 1024 bytes, dated 12/31/2024, with 976 bytes of payload.\<close>

definition example_header :: "byte list" where
  "example_header = [1, 0, 0, 0, 0, 0, 0, 0, 0x24, 0x20, 0x31, 0x12, 0, 0, 0, 0, 0, 0, 0, 0,
     1, 0, 0, 0, 1, 0, 0, 0, 0xD0, 3, 0, 0, 0, 4, 0, 0, 0, 0, 0, 0, 0, 0, 0, 0, 0, 0, 0, 0]"

definition example_entry :: "byte list" where
  "example_entry = example_header @ replicate 976 0"

lemma example_entry_blob: "intel_blob example_entry"
proof -
  have len: "length example_header = 48" by (simp add: example_header_def)
  have f: "le32 example_header 0 = 1" "le32 example_header 20 = 1" "le32 example_header 24 = 1"
    "le32 example_header 8 = 0x12312024" "le32 example_header 28 = 976" "le32 example_header 32 = 1024"
    by (simp_all add: example_header_def le32_def window_def)
  have "get_range example_entry 0 48 = Some example_header"
    by (simp add: get_range_def example_entry_def len window_def)
  moreover have "bcd_date 0x12312024"
    by (simp add: bcd_date_def upt_rec)
  ultimately show ?thesis
    by (simp add: intel_blob_def intel_header_def f MAX_INTEL_ENTRY_def example_entry_def len)
qed

theorem split_intel_complete_witness:
  "mc_split (concat [example_entry, example_entry]) = Some (Intel, [(0, 1024), (1024, 1024)])"
proof -
  have len: "length example_entry = 1024" by (simp add: example_entry_def example_header_def)
  have "mc_split (concat [example_entry, example_entry])
      = Some (Intel, boundaries 0 [example_entry, example_entry])"
    by (intro split_intel_complete) (simp_all add: example_entry_blob)
  then show ?thesis by (simp add: len)
qed

end
