(* ===== verification/Hdx_Compressors.thy ===== *)
theory Hdx_Compressors
  imports Hdx_Coord
begin

text \<open>
  \<open>src/src/compressors.rs\<close>: the compressor catalogue's names, what a zstd frame and a gzip member
  say about themselves in their headers, and the plumbing that hands a compressor's output to a
  comparison sink. The compressors themselves (the \<open>gzip\<close> process, the zstd library) are
  parameters: the chunks their output arrives in. A sink is a state transformer that accepts,
  rejects or fails.
\<close>

subsection \<open>Numbers as text\<close>

definition digit_char :: "nat \<Rightarrow> char" where
  "digit_char d = ''0123456789'' ! d"

fun show_nat :: "nat \<Rightarrow> string" where
  "show_nat n = (if n < 10 then [digit_char n] else show_nat (n div 10) @ [digit_char (n mod 10)])"

declare show_nat.simps [simp del]

definition show_int :: "int \<Rightarrow> string" where
  "show_int i = (if i < 0 then CHR ''-'' # show_nat (nat (- i)) else show_nat (nat i))"

definition digit_val :: "char \<Rightarrow> nat option" where
  "digit_val c = (if 48 \<le> (of_char c :: nat) \<and> (of_char c :: nat) < 58 then Some (of_char c - 48) else None)"

fun parse_digits :: "nat \<Rightarrow> string \<Rightarrow> nat option" where
  "parse_digits acc [] = Some acc"
| "parse_digits acc (c # cs) =
     (case digit_val c of None \<Rightarrow> None | Some d \<Rightarrow> parse_digits (10 * acc + d) cs)"

text \<open>\<open>str::parse::<u8>\<close>: an optional '+', at least one digit, a value that fits.\<close>

definition parse_u8 :: "string \<Rightarrow> nat option" where
  "parse_u8 s =
     (let ds = (case s of c # cs \<Rightarrow> if c = CHR ''+'' then cs else s | [] \<Rightarrow> s) in
      if ds = [] then None
      else case parse_digits 0 ds of
        Some n \<Rightarrow> if n \<le> 255 then Some n else None
      | None \<Rightarrow> None)"

subsection \<open>The catalogue\<close>

record gnu_gzip =
  gz_level :: nat
  gz_rsyncable :: bool

definition strip_suffix :: "string \<Rightarrow> string \<Rightarrow> string option" where
  "strip_suffix suf s = map_option rev (strip_prefix (rev suf) (rev s))"

definition gnu_name :: "gnu_gzip \<Rightarrow> string" where
  "gnu_name g =
     (if gz_rsyncable g then ''gnu-'' @ show_nat (gz_level g) @ ''-rsyncable''
      else ''gnu-'' @ show_nat (gz_level g))"

definition gnu_parse :: "string \<Rightarrow> gnu_gzip option" where
  "gnu_parse nm =
     (let (level_str, rsyncable) =
        (case strip_suffix ''-rsyncable'' nm of Some r \<Rightarrow> (r, True) | None \<Rightarrow> (nm, False)) in
      case strip_prefix ''gnu-'' level_str of
        None \<Rightarrow> None
      | Some s \<Rightarrow>
          (case parse_u8 s of
             None \<Rightarrow> None
           | Some level \<Rightarrow>
               if 1 \<le> level \<and> level \<le> 9
               then Some \<lparr>gz_level = level, gz_rsyncable = rsyncable\<rparr> else None))"

definition GNU_GZIP_CANDIDATES :: "nat list" where
  "GNU_GZIP_CANDIDATES = [9, 6, 1, 8, 7, 5, 4, 3, 2]"

record zstd =
  zs_level :: int
  zs_single_thread :: bool
  zs_checksum :: bool
  zs_content_size :: bool

definition zstd_name :: "zstd \<Rightarrow> string" where
  "zstd_name z = ''zstd-'' @ show_int (zs_level z) @ (if zs_single_thread z then ''-single'' else [])"

definition ZSTD_LEVEL_CANDIDATES :: "int list" where
  "ZSTD_LEVEL_CANDIDATES = [15, 3, 19, 9, 1, 6, 22, 17, 12, 5, 8, 11]"

definition parse_zstd_header :: "byte list \<Rightarrow> zstd option" where
  "parse_zstd_header head =
     (if length head < 5 \<or> take 4 head \<noteq> [0x28, 0xb5, 0x2f, 0xfd] then None
      else let fhd = head ! 4 in
        if fhd AND 0x08 \<noteq> 0 \<or> fhd AND 0x03 \<noteq> 0 then None
        else Some \<lparr>zs_level = 0, zs_single_thread = False, zs_checksum = (fhd AND 0x04 \<noteq> 0),
                   zs_content_size = (drop_bit 6 fhd \<noteq> 0 \<or> fhd AND 0x20 \<noteq> 0)\<rparr>)"

subsection \<open>Feeding a sink\<close>

type_synonym ('s, 'e) sink = "'s \<Rightarrow> byte list \<Rightarrow> 's \<times> ('e + bool)"

text \<open>
  The read loop of \<open>gzip_body\<close> over the chunks of the child's standard output: the first \<open>skip\<close>
  bytes are dropped, what is left of each chunk goes to the sink, a rejection stops the loop.
\<close>

fun gzip_read_loop ::
  "('s, 'e) sink \<Rightarrow> nat \<Rightarrow> byte list list \<Rightarrow> 's \<Rightarrow> 's \<times> ('e + bool)" where
  "gzip_read_loop sink skip [] s = (s, Inr True)"
| "gzip_read_loop sink skip (c # cs) s =
     (let k = min skip (length c); b = drop k c in
      if b = [] then gzip_read_loop sink (skip - k) cs s
      else case sink s b of
        (s', Inl e) \<Rightarrow> (s', Inl e)
      | (s', Inr False) \<Rightarrow> (s', Inr False)
      | (s', Inr True) \<Rightarrow> gzip_read_loop sink (skip - k) cs s')"

datatype 'e gzip_error = SinkFailed 'e | GzipExited

definition gzip_body ::
  "('s, 'e) sink \<Rightarrow> byte list list \<Rightarrow> bool \<Rightarrow> 's \<Rightarrow> 's \<times> ('e gzip_error + bool)" where
  "gzip_body sink chunks status_ok s =
     (case gzip_read_loop sink 10 chunks s of
        (s', Inl e) \<Rightarrow> (s', Inl (SinkFailed e))
      | (s', Inr accepted) \<Rightarrow>
          if accepted \<and> \<not> status_ok then (s', Inl GzipExited) else (s', Inr accepted))"

text \<open>The zstd encoder writes through a \<open>SinkWriter\<close>, which fails the write when the sink rejects
  the bytes or fails; the encoder stops at the first failed write.\<close>

record ('s, 'e) sink_writer =
  sw_state :: 's
  sw_err :: "'e option"
  sw_mismatched :: bool

definition sink_write ::
  "('s, 'e) sink \<Rightarrow> ('s, 'e) sink_writer \<Rightarrow> byte list \<Rightarrow> ('s, 'e) sink_writer \<times> bool" where
  "sink_write sink w buf =
     (case sink (sw_state w) buf of
        (s', Inr True) \<Rightarrow> (w\<lparr>sw_state := s'\<rparr>, True)
      | (s', Inr False) \<Rightarrow> (w\<lparr>sw_state := s', sw_mismatched := True\<rparr>, False)
      | (s', Inl e) \<Rightarrow> (w\<lparr>sw_state := s', sw_err := Some e\<rparr>, False))"

fun sink_writes ::
  "('s, 'e) sink \<Rightarrow> ('s, 'e) sink_writer \<Rightarrow> byte list list \<Rightarrow> ('s, 'e) sink_writer \<times> bool" where
  "sink_writes sink w [] = (w, True)"
| "sink_writes sink w (b # bs) =
     (case sink_write sink w b of
        (w', True) \<Rightarrow> sink_writes sink w' bs
      | (w', False) \<Rightarrow> (w', False))"

datatype 'e zstd_error = ZstdSinkFailed 'e | ZstdEncoder

definition zstd_body ::
  "('s, 'e) sink \<Rightarrow> byte list list \<Rightarrow> bool \<Rightarrow> 's \<Rightarrow> 's \<times> ('e zstd_error + bool)" where
  "zstd_body sink writes encoder_ok s =
     (case sink_writes sink \<lparr>sw_state = s, sw_err = None, sw_mismatched = False\<rparr> writes of
        (w, finished) \<Rightarrow> (sw_state w,
          (case sw_err w of
             Some e \<Rightarrow> Inl (ZstdSinkFailed e)
           | None \<Rightarrow> if sw_mismatched w then Inr False
                    else if finished \<and> encoder_ok then Inr True else Inl ZstdEncoder)))"

subsection \<open>gzip member headers\<close>

datatype gzip_header_error = UnexpectedEof

text \<open>A reader is what is left of its stream; \<open>read_exact\<close> fails when it holds too little.\<close>

definition read_exact :: "nat \<Rightarrow> byte list \<Rightarrow> gzip_header_error + (byte list \<times> byte list)" where
  "read_exact n r = (if n \<le> length r then Inr (take n r, drop n r) else Inl UnexpectedEof)"

definition HEADER_CAP :: nat where "HEADER_CAP = 65536"

text \<open>The zero-terminated name and comment fields: \<open>None\<close> when the header outgrows its cap.\<close>

fun read_cstring ::
  "byte list \<Rightarrow> byte list \<Rightarrow> gzip_header_error + (byte list \<times> byte list) option" where
  "read_cstring hdr [] = Inl UnexpectedEof"
| "read_cstring hdr (b # r) =
     (if b = 0 then Inr (Some (hdr @ [b], r))
      else if HEADER_CAP < length (hdr @ [b]) then Inr None
      else read_cstring (hdr @ [b]) r)"

definition read_extra :: "byte list \<Rightarrow> byte list \<Rightarrow> gzip_header_error + (byte list \<times> byte list)" where
  "read_extra hdr r =
     bindR (read_exact 2 r) (\<lambda>(xlen, r).
     bindR (read_exact (le16 xlen 0) r) (\<lambda>(extra, r). Inr (hdr @ xlen @ extra, r)))"

definition parse_gzip_header :: "byte list \<Rightarrow> gzip_header_error + (byte list \<times> byte list) option" where
  "parse_gzip_header r =
     (case read_exact 10 r of
        Inl e \<Rightarrow> Inr None
      | Inr (hdr, r) \<Rightarrow>
          if hdr ! 0 \<noteq> 0x1f \<or> hdr ! 1 \<noteq> 0x8b \<or> hdr ! 2 \<noteq> 8 then Inr None
          else let flg = hdr ! 3 in
            if flg AND 0xe0 \<noteq> 0 then Inr None
            else
              bindR (if flg AND 0x04 \<noteq> 0 then read_extra hdr r else Inr (hdr, r)) (\<lambda>(hdr, r).
              bindR (if flg AND 0x08 \<noteq> 0 then read_cstring hdr r else Inr (Some (hdr, r))) (\<lambda>o1.
              case o1 of None \<Rightarrow> Inr None | Some (hdr, r) \<Rightarrow>
              bindR (if flg AND 0x10 \<noteq> 0 then read_cstring hdr r else Inr (Some (hdr, r))) (\<lambda>o2.
              case o2 of None \<Rightarrow> Inr None | Some (hdr, r) \<Rightarrow>
              if flg AND 0x02 \<noteq> 0
              then bindR (read_exact 2 r) (\<lambda>(crc, r). Inr (Some (hdr @ crc, r)))
              else Inr (Some (hdr, r))))))"

subsection \<open>Names\<close>

text \<open>
  Catalogue names name one compressor each: parsing the name of any entry the catalogue can
  hold gives that entry back, so names are pairwise different, and whatever parses has a level
  GNU gzip knows. All nine searched levels are among them.
\<close>

theorem gnu_name_roundtrip:
  "(\<forall>level \<in> {1..9}. \<forall>r. gnu_parse (gnu_name \<lparr>gz_level = level, gz_rsyncable = r\<rparr>)
      = Some \<lparr>gz_level = level, gz_rsyncable = r\<rparr>) \<and>
   (\<forall>nm g. gnu_parse nm = Some g \<longrightarrow> gz_level g \<in> {1..9}) \<and>
   set GNU_GZIP_CANDIDATES = {1..9}"
proof -
  have set9: "{1..9::nat} = {1, 2, 3, 4, 5, 6, 7, 8, 9}" by auto
  have one: "gnu_parse (gnu_name \<lparr>gz_level = level, gz_rsyncable = r\<rparr>)
      = Some \<lparr>gz_level = level, gz_rsyncable = r\<rparr>" if "level \<in> {1..9}" for level r
  proof -
    have "list_all (\<lambda>l. list_all (\<lambda>r. gnu_parse (gnu_name \<lparr>gz_level = l, gz_rsyncable = r\<rparr>)
        = Some \<lparr>gz_level = l, gz_rsyncable = r\<rparr>) [True, False]) [1, 2, 3, 4, 5, 6, 7, 8, 9]"
      by code_simp
    then show ?thesis using that unfolding set9 by (cases r) (auto simp: list_all_iff)
  qed
  have two: "gz_level g \<in> {1..9}" if "gnu_parse nm = Some g" for nm g
    using that by (auto simp: gnu_parse_def Let_def split: option.splits prod.splits if_splits)
  have "set GNU_GZIP_CANDIDATES = {1..9}" unfolding set9 by (auto simp: GNU_GZIP_CANDIDATES_def)
  with one two show ?thesis by blast
qed

theorem gnu_name_roundtrip_witness:
  "gnu_parse (gnu_name \<lparr>gz_level = 9, gz_rsyncable = True\<rparr>) = Some \<lparr>gz_level = 9, gz_rsyncable = True\<rparr> \<and>
   9 \<in> {1..9 :: nat}"
proof -
  have 9: "(9 :: nat) \<in> {1..9}" by simp
  from gnu_name_roundtrip 9
  have "gnu_parse (gnu_name \<lparr>gz_level = 9, gz_rsyncable = True\<rparr>) = Some \<lparr>gz_level = 9, gz_rsyncable = True\<rparr>"
    by blast
  with 9 show ?thesis by blast
qed

subsection \<open>What a sink receives\<close>

text \<open>A sink that records what it is given and decides by a predicate on all of it.\<close>

definition recording :: "(byte list \<Rightarrow> bool) \<Rightarrow> (byte list, 'e) sink" where
  "recording P s b = (s @ b, Inr (P (s @ b)))"

lemma recording_apply: "recording P s b = (s @ b, Inr (P (s @ b)))"
  by (simp add: recording_def)

lemma recording_eta: "(\<lambda>s b. (s @ b, Inr (P (s @ b)))) = recording P"
  by (simp add: fun_eq_iff recording_apply)

lemma gzip_read_loop_records:
  "gzip_read_loop (recording P :: (byte list, 'e) sink) skip cs s = (s', r) \<Longrightarrow>
   r = Inr True \<and> s' = s @ drop skip (concat cs) \<or>
   r = Inr False \<and> \<not> P s' \<and> (\<exists>rest. s' @ rest = s @ drop skip (concat cs))"
proof (induction cs arbitrary: skip s)
  case (Cons c cs)
  define k where "k = min skip (length c)"
  have split: "drop skip (concat (c # cs)) = drop k c @ drop (skip - k) (concat cs)"
    by (simp add: k_def min_def)
  show ?case
  proof (cases "drop k c = []")
    case True
    then have "gzip_read_loop (recording P :: (byte list, 'e) sink) (skip - k) cs s = (s', r)"
      using Cons.prems by (simp add: k_def [symmetric] Let_def)
    from Cons.IH [OF this] show ?thesis unfolding split True by simp
  next
    case False
    show ?thesis
    proof (cases "P (s @ drop k c)")
      case True
      then have "gzip_read_loop (recording P :: (byte list, 'e) sink) (skip - k) cs (s @ drop k c) = (s', r)"
        using Cons.prems False by (simp add: k_def [symmetric] Let_def recording_apply recording_eta)
      from Cons.IH [OF this] show ?thesis unfolding split by simp
    next
      case P: False
      then have "s' = s @ drop k c" "r = Inr False"
        using Cons.prems False by (simp_all add: k_def [symmetric] Let_def recording_apply)
      then show ?thesis using P unfolding split by simp
    qed
  qed
qed simp

text \<open>
  \<open>gzip_body\<close> hands its sink the compressor's output after the fixed ten-byte header and nothing
  else, however the output is cut into reads: when it reports acceptance the sink has received
  exactly that, and when it reports a mismatch what the sink has received is a beginning of it
  that the sink refused. It only reports acceptance when the process succeeded.
\<close>

theorem gzip_body_feeds:
  "(gzip_body (recording P :: (byte list, 'e) sink) chunks status_ok [] = (s', Inr True) \<longrightarrow>
      s' = drop 10 (concat chunks) \<and> status_ok) \<and>
   (gzip_body (recording P :: (byte list, 'e) sink) chunks status_ok [] = (s', Inr False) \<longrightarrow>
      \<not> P s' \<and> (\<exists>rest. s' @ rest = drop 10 (concat chunks)))"
proof -
  obtain s1 r where l: "gzip_read_loop (recording P :: (byte list, 'e) sink) 10 chunks [] = (s1, r)"
    by (cases "gzip_read_loop (recording P :: (byte list, 'e) sink) 10 chunks []")
  from gzip_read_loop_records [OF l] show ?thesis
    by (auto simp: gzip_body_def l split: if_splits)
qed

theorem gzip_body_feeds_witness:
  "gzip_body (recording (\<lambda>s. length s < 9) :: (byte list, nat) sink) [replicate 8 0, [1, 2, 3], [4]] True []
     = ([3, 4], Inr True) \<and> [3, 4] = drop 10 (concat [replicate 8 0, [1, 2, 3], [4 :: byte]])"
proof -
  have "gzip_body (recording (\<lambda>s. length s < 9) :: (byte list, nat) sink) [replicate 8 0, [1, 2, 3], [4]] True []
     = ([3, 4], Inr True)"
    by (simp add: gzip_body_def recording_apply)
  with gzip_body_feeds [of "\<lambda>s. length s < 9"] show ?thesis by blast
qed

text \<open>The zstd path keeps the same contract.\<close>

lemma sink_writes_records:
  "sink_writes (recording P :: (byte list, 'e) sink) w cs = (w', ok) \<Longrightarrow> sw_err w = None \<Longrightarrow> \<not> sw_mismatched w \<Longrightarrow>
   sw_err w' = None \<and> (ok \<longleftrightarrow> \<not> sw_mismatched w') \<and>
   (if ok then sw_state w' = sw_state w @ concat cs
    else \<not> P (sw_state w') \<and> (\<exists>rest. sw_state w' @ rest = sw_state w @ concat cs))"
proof (induction cs arbitrary: w)
  case (Cons c cs)
  show ?case
  proof (cases "P (sw_state w @ c)")
    case True
    then have "sink_writes (recording P :: (byte list, 'e) sink) (w\<lparr>sw_state := sw_state w @ c\<rparr>) cs = (w', ok)"
      using Cons.prems(1) by (simp add: sink_write_def recording_apply recording_eta)
    from Cons.IH [OF this] Cons.prems(2,3) show ?thesis by (cases ok) simp_all
  next
    case False
    then show ?thesis using Cons.prems by (auto simp: sink_write_def recording_apply)
  qed
qed simp

text \<open>
  \<open>zstd_body\<close> keeps \<open>gzip_body\<close>'s contract over the encoder's writes: acceptance means the sink
  received the whole frame and the encoder finished, and a rejection by the sink, although it
  reaches the encoder as a failed write, is reported as a mismatch and not as an error.
\<close>

theorem zstd_body_feeds:
  "(zstd_body (recording P :: (byte list, 'e) sink) writes encoder_ok [] = (s', Inr True) \<longrightarrow>
      s' = concat writes \<and> encoder_ok) \<and>
   (zstd_body (recording P :: (byte list, 'e) sink) writes encoder_ok [] = (s', Inr False) \<longrightarrow>
      \<not> P s' \<and> (\<exists>rest. s' @ rest = concat writes)) \<and>
   (encoder_ok \<longrightarrow> (\<exists>b. snd (zstd_body (recording P :: (byte list, 'e) sink) writes encoder_ok []) = Inr b))"
proof -
  obtain w ok where l: "sink_writes (recording P :: (byte list, 'e) sink)
      \<lparr>sw_state = [], sw_err = None, sw_mismatched = False\<rparr> writes = (w, ok)"
    by (cases "sink_writes (recording P :: (byte list, 'e) sink)
      \<lparr>sw_state = [], sw_err = None, sw_mismatched = False\<rparr> writes")
  from sink_writes_records [OF l] show ?thesis
    by (auto simp: zstd_body_def l split: if_splits)
qed

theorem zstd_body_feeds_witness:
  "zstd_body (recording (\<lambda>s. s \<noteq> [1, 2]) :: (byte list, nat) sink) [[1], [2], [3]] True [] = ([1, 2], Inr False) \<and>
   (\<exists>rest. [1, 2] @ rest = concat [[1], [2], [3 :: byte]])"
proof -
  have "zstd_body (recording (\<lambda>s. s \<noteq> [1, 2]) :: (byte list, nat) sink) [[1], [2], [3]] True [] = ([1, 2], Inr False)"
    by (simp add: zstd_body_def sink_write_def recording_apply)
  with zstd_body_feeds [of "\<lambda>s. s \<noteq> [1, 2]"] show ?thesis by blast
qed

subsection \<open>A gzip header is read verbatim\<close>

lemma read_exact_Inr:
  "read_exact n r = Inr (a, r') \<longleftrightarrow> r = a @ r' \<and> length a = n"
  by (auto simp: read_exact_def)

lemma read_cstring_sound:
  "read_cstring hdr r = Inr (Some (hdr', r')) \<Longrightarrow>
   \<exists>s. hdr' = hdr @ s \<and> r = s @ r' \<and> (\<forall>rest. read_cstring hdr (s @ rest) = Inr (Some (hdr', rest))) \<and>
       length hdr' \<le> max (length hdr + 1) (HEADER_CAP + 1)"
proof (induction hdr r rule: read_cstring.induct)
  case (2 hdr b r)
  show ?case
  proof (cases "b = 0")
    case True
    then show ?thesis using 2(2) by (intro exI [of _ "[b]"]) auto
  next
    case False
    have cap: "\<not> HEADER_CAP < length (hdr @ [b])" using 2(2) False by (auto split: if_splits)
    then have "read_cstring (hdr @ [b]) r = Inr (Some (hdr', r'))" using 2(2) False by simp
    from 2(1) [OF False cap this] obtain s where s: "hdr' = (hdr @ [b]) @ s" "r = s @ r'"
        "\<And>rest. read_cstring (hdr @ [b]) (s @ rest) = Inr (Some (hdr', rest))"
        "length hdr' \<le> max (length (hdr @ [b]) + 1) (HEADER_CAP + 1)" by blast
    have "read_cstring hdr ((b # s) @ rest) = Inr (Some (hdr', rest))" for rest
      using s(3) [of rest] False cap by simp
    moreover have "length hdr' \<le> HEADER_CAP + 1" using s(4) cap by simp
    ultimately show ?thesis using s(1,2) by (intro exI [of _ "b # s"]) auto
  qed
qed simp

lemma read_extra_sound:
  assumes "read_extra hdr r = Inr (hdr', r')"
  shows "\<exists>s. hdr' = hdr @ s \<and> r = s @ r' \<and> length s \<le> 65537 \<and>
    (\<forall>rest. read_extra hdr (s @ rest) = Inr (hdr', rest))"
proof -
  obtain xlen r1 extra where x: "read_exact 2 r = Inr (xlen, r1)" "read_exact (le16 xlen 0) r1 = Inr (extra, r')"
      "hdr' = hdr @ xlen @ extra"
    using assms by (auto simp: read_extra_def result_simps)
  have e: "r = (xlen @ extra) @ r'" "length xlen = 2" "length extra = le16 xlen 0"
    using x(1,2) by (auto simp: read_exact_Inr)
  have "read_extra hdr ((xlen @ extra) @ rest) = Inr (hdr', rest)" for rest
    using e x(3) by (simp add: read_extra_def read_exact_def)
  moreover have "length (xlen @ extra) \<le> 65537" using e le16_bound [of xlen 0] by simp
  ultimately show ?thesis using e(1) x(3) by blast
qed

lemma optional_extra:
  assumes "(if c then read_extra hdr r else Inr (hdr, r)) = Inr (hdr', r')"
  shows "\<exists>s. hdr' = hdr @ s \<and> r = s @ r' \<and> length s \<le> 65537 \<and>
    (\<forall>rest. (if c then read_extra hdr (s @ rest) else Inr (hdr, s @ rest)) = Inr (hdr', rest))"
  using assms read_extra_sound [of hdr r hdr' r'] by (cases c) auto

lemma optional_cstring:
  assumes "(if c then read_cstring hdr r else Inr (Some (hdr, r))) = Inr (Some (hdr', r'))"
  shows "\<exists>s. hdr' = hdr @ s \<and> r = s @ r' \<and> length hdr' \<le> max (length hdr + 1) (HEADER_CAP + 1) \<and>
    (\<forall>rest. (if c then read_cstring hdr (s @ rest) else Inr (Some (hdr, s @ rest))) = Inr (Some (hdr', rest)))"
  using assms read_cstring_sound [of hdr r hdr' r'] by (cases c) auto

lemma optional_crc:
  assumes "(if c then bindR (read_exact 2 r) (\<lambda>(crc, r). Inr (Some (hdr @ crc, r))) else Inr (Some (hdr, r)))
      = Inr (Some (hdr', r'))"
  shows "\<exists>s. hdr' = hdr @ s \<and> r = s @ r' \<and> length s \<le> 2 \<and>
    (\<forall>rest. (if c then bindR (read_exact 2 (s @ rest)) (\<lambda>(crc, r). Inr (Some (hdr @ crc, r)))
             else Inr (Some (hdr, s @ rest))) = Inr (Some (hdr', rest)))"
proof (cases c)
  case True
  then obtain crc where crc: "r = crc @ r'" "length crc = 2" "hdr' = hdr @ crc"
    using assms by (auto simp: result_simps read_exact_Inr)
  then show ?thesis using True by (intro exI [of _ crc]) (simp add: read_exact_def)
qed (use assms in auto)

text \<open>
  C28. A recorded gzip header is verbatim and self-contained: it is the beginning of the stream, what
  follows it is the rest, its length is between 10 and 65,551 bytes, and reading it again from any
  stream that begins with it gives the same header. So splicing the recorded bytes back in front
  of a rebuilt body restores the member's own header.
\<close>

theorem gzip_header_verbatim:
  assumes "parse_gzip_header r = Inr (Some (hdr, r'))"
  shows "r = hdr @ r' \<and> 10 \<le> length hdr \<and> length hdr \<le> 65551 \<and>
    parse_gzip_header (hdr @ rest) = Inr (Some (hdr, rest))"
proof -
  obtain h0 r0 where 0: "read_exact 10 r = Inr (h0, r0)"
    using assms by (auto simp: parse_gzip_header_def split: sum.splits)
  note body = assms [unfolded parse_gzip_header_def 0 sum.case prod.case]
  have magic: "\<not> (h0 ! 0 \<noteq> 0x1f \<or> h0 ! 1 \<noteq> 0x8b \<or> h0 ! 2 \<noteq> 8)"
    using body by (metis (no_types) Inr_inject option.distinct(1))
  define flg where "flg = h0 ! 3"
  note body2 = body [unfolded if_not_P [OF magic], folded flg_def, unfolded Let_def]
  have flags: "\<not> flg AND 0xe0 \<noteq> 0" using body2 by (metis (no_types) Inr_inject option.distinct(1))
  note body3 = body2 [unfolded if_not_P [OF flags]]
  obtain h1 r1 where 1: "(if flg AND 0x04 \<noteq> 0 then read_extra h0 r0 else Inr (h0, r0)) = Inr (h1, r1)"
    using body3 unfolding bindR_eq_Inr by force
  note body4 = body3 [unfolded 1 bindR_simps prod.case]
  obtain h2 r2 where 2: "(if flg AND 0x08 \<noteq> 0 then read_cstring h1 r1 else Inr (Some (h1, r1))) = Inr (Some (h2, r2))"
    using body4 unfolding bindR_eq_Inr by (auto split: option.splits)
  note body5 = body4 [unfolded 2 bindR_simps option.case prod.case]
  obtain h3 r3 where 3: "(if flg AND 0x10 \<noteq> 0 then read_cstring h2 r2 else Inr (Some (h2, r2))) = Inr (Some (h3, r3))"
    using body5 unfolding bindR_eq_Inr by (auto split: option.splits)
  note 4 = body5 [unfolded 3 bindR_simps option.case prod.case]
  obtain s1 where s1: "h1 = h0 @ s1" "r0 = s1 @ r1" "length s1 \<le> 65537"
    "\<And>rest. (if flg AND 0x04 \<noteq> 0 then read_extra h0 (s1 @ rest) else Inr (h0, s1 @ rest)) = Inr (h1, rest)"
    using optional_extra [OF 1] by blast
  obtain s2 where s2: "h2 = h1 @ s2" "r1 = s2 @ r2" "length h2 \<le> max (length h1 + 1) (HEADER_CAP + 1)"
    "\<And>rest. (if flg AND 0x08 \<noteq> 0 then read_cstring h1 (s2 @ rest) else Inr (Some (h1, s2 @ rest))) = Inr (Some (h2, rest))"
    using optional_cstring [OF 2] by blast
  obtain s3 where s3: "h3 = h2 @ s3" "r2 = s3 @ r3" "length h3 \<le> max (length h2 + 1) (HEADER_CAP + 1)"
    "\<And>rest. (if flg AND 0x10 \<noteq> 0 then read_cstring h2 (s3 @ rest) else Inr (Some (h2, s3 @ rest))) = Inr (Some (h3, rest))"
    using optional_cstring [OF 3] by blast
  obtain s4 where s4: "hdr = h3 @ s4" "r3 = s4 @ r'" "length s4 \<le> 2"
    "\<And>rest. (if flg AND 0x02 \<noteq> 0 then bindR (read_exact 2 (s4 @ rest)) (\<lambda>(crc, r). Inr (Some (h3 @ crc, r)))
             else Inr (Some (h3, s4 @ rest))) = Inr (Some (hdr, rest))"
    using optional_crc [OF 4] by blast
  have h0: "r = h0 @ r0" "length h0 = 10" using 0 by (simp_all add: read_exact_Inr)
  have hdr: "hdr = h0 @ s1 @ s2 @ s3 @ s4" by (simp add: s1(1) s2(1) s3(1) s4(1))
  have "read_exact 10 (hdr @ rest) = Inr (h0, s1 @ s2 @ s3 @ s4 @ rest)"
    using h0(2) by (simp add: hdr read_exact_def)
  then have "parse_gzip_header (hdr @ rest) = Inr (Some (hdr, rest))"
    unfolding parse_gzip_header_def
    by (simp only: sum.case prod.case if_not_P [OF magic] flg_def [symmetric] Let_def if_not_P [OF flags]
        s1(4) bindR_simps s2(4) option.case s3(4) s4(4))
  moreover have "length hdr \<le> 65551" using s1 s2(3) s3(3) s4(1,3) h0(2) by (simp add: HEADER_CAP_def)
  moreover have "r = hdr @ r'" using h0(1) s1(2) s2(2) s3(2) s4(2) by (simp add: hdr)
  ultimately show ?thesis using h0(2) by (simp add: hdr)
qed

text \<open>The example: a header that carries the name "a".\<close>

theorem gzip_header_verbatim_witness:
  "parse_gzip_header ([0x1f, 0x8b, 8, 8, 0, 0, 0, 0, 0, 3, 97, 0] @ [1, 2])
     = Inr (Some ([0x1f, 0x8b, 8, 8, 0, 0, 0, 0, 0, 3, 97, 0], [1, 2]))"
proof -
  have "parse_gzip_header [0x1f, 0x8b, 8, 8, 0, 0, 0, 0, 0, 3, 97, 0, 5]
      = Inr (Some ([0x1f, 0x8b, 8, 8, 0, 0, 0, 0, 0, 3, 97, 0], [5]))"
    by (simp add: parse_gzip_header_def read_exact_def HEADER_CAP_def)
  from gzip_header_verbatim [OF this] show ?thesis by blast
qed

end
