(* ===== verification/Hdx_Walk.thy ===== *)
theory Hdx_Walk
  imports Hdx_Coord "HOL-Library.Product_Lexorder" "HOL-Library.Option_ord" "HOL-Library.Multiset"
begin

text \<open>
  \<open>src/src/walk.rs\<close> and \<open>src/src/finding.rs\<close>: the bounded walk over co-observed coordinates, and the
  grouping of its evidence into identity clusters by union-find. The local sources and the
  observation store are functions from coordinates to findings, the JSON form of a finding (which
  keys its deduplication) is a function \<open>key\<close>, and the iteration order of the hash map of groups is a
  function \<open>iter\<close>.
\<close>

subsection \<open>Findings\<close>

record archive =
  ar_scheme :: string
  ar_digest :: string
  ar_path :: string
  ar_name :: string
  ar_url :: "string option"

record claim =
  cl_statement :: string
  cl_url :: "string option"

definition claim_new :: "string \<Rightarrow> string option \<Rightarrow> claim" where
  "claim_new statement url = \<lparr>cl_statement = statement, cl_url = url\<rparr>"

record finding =
  fd_backend :: string
  fd_claims :: "claim list"
  fd_coords :: "string list"
  fd_archive :: "archive option"

record evidence =
  ev_found_at :: coord
  ev_finding :: finding

definition MAX_HOPS :: nat where "MAX_HOPS = 5"
definition MAX_EVIDENCE :: nat where "MAX_EVIDENCE = 1000"

definition is_identity_grade :: "scheme \<Rightarrow> bool" where
  "is_identity_grade s = (s \<in> {Sha256, Sha512, Blake2s256})"

text \<open>The coordinates of a finding that parse.\<close>

definition finding_coords :: "codecs \<Rightarrow> finding \<Rightarrow> coord list" where
  "finding_coords cs f =
     concat (map (\<lambda>s. case coord_parse cs s of Inr c \<Rightarrow> [c] | Inl _ \<Rightarrow> []) (fd_coords f))"

subsection \<open>The walk\<close>

text \<open>The innermost loop, over the findings of one coordinate; it stops when the evidence is full.\<close>

fun walk_findings ::
  "codecs \<Rightarrow> (finding \<Rightarrow> 'k) \<Rightarrow> coord \<Rightarrow> coord set \<Rightarrow> finding list \<Rightarrow>
   'k set \<times> coord list \<times> evidence list \<Rightarrow> 'k set \<times> coord list \<times> evidence list" where
  "walk_findings cs key coord visited [] (seen, nxt, ev) = (seen, nxt, ev)"
| "walk_findings cs key coord visited (f # fs) (seen, nxt, ev) =
     (if key f \<in> seen then walk_findings cs key coord visited fs (seen, nxt, ev)
      else
        let seen' = insert (key f) seen;
            nxt' = nxt @ filter (\<lambda>c. c \<notin> visited) (finding_coords cs f);
            ev' = ev @ [\<lparr>ev_found_at = coord, ev_finding = f\<rparr>]
        in if MAX_EVIDENCE \<le> length ev' then (seen', nxt', ev')
           else walk_findings cs key coord visited fs (seen', nxt', ev'))"

text \<open>The loop over the frontier of one hop.\<close>

fun walk_frontier ::
  "codecs \<Rightarrow> (finding \<Rightarrow> 'k) \<Rightarrow> (coord \<Rightarrow> finding list) \<Rightarrow> coord list \<Rightarrow>
   coord set \<times> 'k set \<times> coord list \<times> evidence list \<Rightarrow>
   coord set \<times> 'k set \<times> coord list \<times> evidence list" where
  "walk_frontier cs key found [] st = st"
| "walk_frontier cs key found (c # frontier) (visited, seen, nxt, ev) =
     (if c \<in> visited then walk_frontier cs key found frontier (visited, seen, nxt, ev)
      else
        let visited' = insert c visited in
        case walk_findings cs key c visited' (found c) (seen, nxt, ev) of
          (seen', nxt', ev') \<Rightarrow> walk_frontier cs key found frontier (visited', seen', nxt', ev'))"

fun walk_hops ::
  "codecs \<Rightarrow> (finding \<Rightarrow> 'k) \<Rightarrow> (coord \<Rightarrow> finding list) \<Rightarrow> nat \<Rightarrow> coord list \<Rightarrow>
   coord set \<times> 'k set \<times> evidence list \<Rightarrow> evidence list" where
  "walk_hops cs key found 0 frontier (visited, seen, ev) = ev"
| "walk_hops cs key found (Suc hops) frontier (visited, seen, ev) =
     (if frontier = [] \<or> MAX_EVIDENCE \<le> length ev then ev
      else case walk_frontier cs key found frontier (visited, seen, [], ev) of
        (visited', seen', nxt, ev') \<Rightarrow> walk_hops cs key found hops nxt (visited', seen', ev'))"

definition walk_found ::
  "(coord \<Rightarrow> finding list) \<Rightarrow> (coord \<Rightarrow> finding list) option \<Rightarrow> coord \<Rightarrow> finding list" where
  "walk_found loc cache c = loc c @ (case cache of Some findings_for \<Rightarrow> findings_for c | None \<Rightarrow> [])"

definition walk ::
  "codecs \<Rightarrow> (finding \<Rightarrow> 'k) \<Rightarrow> coord list \<Rightarrow> (coord \<Rightarrow> finding list) \<Rightarrow>
   (coord \<Rightarrow> finding list) option \<Rightarrow> evidence list" where
  "walk cs key seeds loc cache =
     walk_hops cs key (walk_found loc cache) MAX_HOPS seeds ({}, {}, [])"

subsection \<open>Union-find\<close>

text \<open>\<open>find\<close> with path compression; not returning (a cyclic parent table) is \<open>None\<close>.\<close>

partial_function (option) uf_find :: "nat list \<Rightarrow> nat \<Rightarrow> (nat list \<times> nat) option" where
  "uf_find p i =
     (if p ! i \<noteq> i
      then Option.bind (uf_find p (p ! i)) (\<lambda>(p', root). Some (p'[i := root], root))
      else Some (p, i))"

definition uf_union :: "nat list \<Rightarrow> nat \<Rightarrow> nat \<Rightarrow> nat list option" where
  "uf_union p a b =
     Option.bind (uf_find p a) (\<lambda>(p1, ra).
     Option.bind (uf_find p1 b) (\<lambda>(p2, rb).
     Some (if ra \<noteq> rb then p2[ra := rb] else p2)))"

subsection \<open>Clusters\<close>

record cluster =
  cr_findings :: "finding list"
  cr_coords :: "coord list"
  cr_anchored :: bool
  cr_primary :: bool

record walk_result =
  wr_clusters :: "cluster list"
  wr_truncated :: bool
  wr_collision :: bool

definition coord_key :: "coord \<Rightarrow> string \<times> byte list" where
  "coord_key c = (as_str (c_scheme c), c_digest c)"

definition sort_dedup :: "coord list \<Rightarrow> coord list" where
  "sort_dedup v = remdups_adj (sort_key coord_key v)"

definition coords_of :: "codecs \<Rightarrow> evidence \<Rightarrow> coord list" where
  "coords_of cs e =
     (let v = finding_coords cs (ev_finding e);
          contradicted = list_ex (\<lambda>c. c_scheme c = c_scheme (ev_found_at e) \<and> c \<noteq> ev_found_at e) v
      in sort_dedup (if contradicted then v else v @ [ev_found_at e]))"

text \<open>The anchor loop over one finding's coordinates, with the union as a parameter.\<close>

fun anchor_coords ::
  "('s \<Rightarrow> nat \<Rightarrow> nat \<Rightarrow> 's option) \<Rightarrow> nat \<Rightarrow> coord list \<Rightarrow> (coord \<rightharpoonup> nat) \<times> 's \<Rightarrow> ((coord \<rightharpoonup> nat) \<times> 's) option"
  where
  "anchor_coords weld i [] st = Some st"
| "anchor_coords weld i (c # cs) (anchor, s) =
     (if is_identity_grade (c_scheme c) then
        case anchor c of
          Some j \<Rightarrow> Option.bind (weld s i j) (\<lambda>s'. anchor_coords weld i cs (anchor, s'))
        | None \<Rightarrow> anchor_coords weld i cs (anchor(c \<mapsto> i), s)
      else anchor_coords weld i cs (anchor, s))"

fun anchor_all ::
  "('s \<Rightarrow> nat \<Rightarrow> nat \<Rightarrow> 's option) \<Rightarrow> nat \<Rightarrow> coord list list \<Rightarrow> (coord \<rightharpoonup> nat) \<times> 's \<Rightarrow>
   ((coord \<rightharpoonup> nat) \<times> 's) option" where
  "anchor_all weld i [] st = Some st"
| "anchor_all weld i (cs # css) st =
     Option.bind (anchor_coords weld i cs st) (\<lambda>st'. anchor_all weld (Suc i) css st')"

text \<open>\<open>groups.entry(root).or_default().push(i)\<close>.\<close>

fun group_push :: "nat \<Rightarrow> nat \<Rightarrow> (nat \<times> nat list) list \<Rightarrow> (nat \<times> nat list) list" where
  "group_push r i [] = [(r, [i])]"
| "group_push r i ((k, ms) # g) = (if k = r then (k, ms @ [i]) # g else (k, ms) # group_push r i g)"

fun group_all ::
  "nat list \<Rightarrow> nat list \<Rightarrow> (nat \<times> nat list) list \<Rightarrow> (nat \<times> nat list) list option" where
  "group_all p [] g = Some g"
| "group_all p (i # is) g =
     Option.bind (uf_find p i) (\<lambda>(p', root). group_all p' is (group_push root i g))"

definition cluster_groups :: "codecs \<Rightarrow> evidence list \<Rightarrow> (nat \<times> nat list) list option" where
  "cluster_groups cs ev =
     Option.bind (anchor_all uf_union 0 (map (coords_of cs) ev) (Map.empty, [0..<length ev])) (\<lambda>(anchor, p).
     group_all p [0..<length ev] [])"

definition build_cluster :: "codecs \<Rightarrow> evidence list \<Rightarrow> coord \<Rightarrow> nat list \<Rightarrow> cluster" where
  "build_cluster cs ev queried members =
     (let coords = sort_dedup (concat (map (\<lambda>i. coords_of cs (ev ! i)) members)) in
      \<lparr>cr_findings = map (\<lambda>i. ev_finding (ev ! i)) (sort members), cr_coords = coords,
       cr_anchored = list_ex (\<lambda>c. is_identity_grade (c_scheme c)) coords,
       cr_primary = (queried \<in> set coords)\<rparr>)"

definition cluster_key :: "cluster \<Rightarrow> bool \<times> bool \<times> int \<times> string option" where
  "cluster_key c = (\<not> cr_primary c, \<not> cr_anchored c, - int (length (cr_findings c)),
     (case cr_coords c of [] \<Rightarrow> None | x # xs \<Rightarrow> Some (coord_display x)))"

definition cluster_evidence ::
  "codecs \<Rightarrow> ((nat \<times> nat list) list \<Rightarrow> (nat \<times> nat list) list) \<Rightarrow> evidence list \<Rightarrow> coord \<Rightarrow> walk_result option"
  where
  "cluster_evidence cs iter ev queried =
     map_option (\<lambda>groups.
       let clusters = sort_key cluster_key (map (\<lambda>(root, members). build_cluster cs ev queried members) (iter groups));
           collision = (\<not> is_identity_grade (c_scheme queried) \<and>
             2 \<le> length (filter (\<lambda>cl. cr_anchored cl \<and> cr_primary cl) clusters))
       in \<lparr>wr_clusters = clusters, wr_truncated = (MAX_EVIDENCE \<le> length ev), wr_collision = collision\<rparr>)
     (cluster_groups cs ev)"

subsection \<open>What the walk returns\<close>

text \<open>The coordinates within \<open>n\<close> co-observations of a seed.\<close>

fun reach :: "codecs \<Rightarrow> (coord \<Rightarrow> finding list) \<Rightarrow> coord set \<Rightarrow> nat \<Rightarrow> coord set" where
  "reach cs found seeds 0 = seeds"
| "reach cs found seeds (Suc n) = reach cs found seeds n \<union>
     {d. \<exists>c \<in> reach cs found seeds n. \<exists>f \<in> set (found c). d \<in> set (finding_coords cs f)}"

lemma reach_mono: "m \<le> n \<Longrightarrow> reach cs found seeds m \<subseteq> reach cs found seeds n"
  by (induction n) (auto simp: le_Suc_eq)

text \<open>Every piece of evidence in the list is witnessed at its coordinate, itself in \<open>R\<close>; keys are
  distinct and are the keys seen.\<close>

definition ev_ok ::
  "(finding \<Rightarrow> 'k) \<Rightarrow> (coord \<Rightarrow> finding list) \<Rightarrow> coord set \<Rightarrow> 'k set \<Rightarrow> evidence list \<Rightarrow> bool" where
  "ev_ok key found R seen ev \<longleftrightarrow>
     (\<forall>e \<in> set ev. ev_finding e \<in> set (found (ev_found_at e)) \<and> ev_found_at e \<in> R) \<and>
     distinct (map (key \<circ> ev_finding) ev) \<and> seen = (key \<circ> ev_finding) ` set ev"

lemma ev_ok_mono: "ev_ok key found R seen ev \<Longrightarrow> R \<subseteq> R' \<Longrightarrow> ev_ok key found R' seen ev"
  by (auto simp: ev_ok_def)

lemma walk_findings_ok:
  "ev_ok key found R seen ev \<Longrightarrow> coord \<in> R \<Longrightarrow> set fs \<subseteq> set (found coord) \<Longrightarrow>
   walk_findings cs key coord visited fs (seen, nxt, ev) = (seen', nxt', ev') \<Longrightarrow>
   ev_ok key found R seen' ev' \<and>
   set nxt' \<subseteq> set nxt \<union> {d. \<exists>f \<in> set (found coord). d \<in> set (finding_coords cs f)}"
proof (induction fs arbitrary: seen nxt ev)
  case (Cons f fs)
  show ?case
  proof (cases "key f \<in> seen")
    case True
    then show ?thesis using Cons by simp
  next
    case False
    let ?ev = "ev @ [\<lparr>ev_found_at = coord, ev_finding = f\<rparr>]"
    let ?nxt = "nxt @ filter (\<lambda>c. c \<notin> visited) (finding_coords cs f)"
    have ok: "ev_ok key found R (insert (key f) seen) ?ev"
      using Cons.prems(1-3) False by (auto simp: ev_ok_def)
    show ?thesis
    proof (cases "MAX_EVIDENCE \<le> length ?ev")
      case True
      then show ?thesis using Cons.prems False ok by (auto simp: Let_def)
    next
      case full: False
      then have "walk_findings cs key coord visited fs (insert (key f) seen, ?nxt, ?ev) = (seen', nxt', ev')"
        using Cons.prems(4) False by (simp add: Let_def)
      from Cons.IH [OF ok Cons.prems(2) _ this] Cons.prems(3) show ?thesis by fastforce
    qed
  qed
qed simp

lemma walk_frontier_ok:
  "ev_ok key found R seen ev \<Longrightarrow> set frontier \<subseteq> R \<Longrightarrow>
   walk_frontier cs key found frontier (visited, seen, nxt, ev) = (visited', seen', nxt', ev') \<Longrightarrow>
   ev_ok key found R seen' ev' \<and>
   set nxt' \<subseteq> set nxt \<union> {d. \<exists>c \<in> R. \<exists>f \<in> set (found c). d \<in> set (finding_coords cs f)}"
proof (induction frontier arbitrary: visited seen nxt ev)
  case (Cons c frontier)
  show ?case
  proof (cases "c \<in> visited")
    case True
    then show ?thesis using Cons by simp
  next
    case False
    obtain s1 n1 e1 where w: "walk_findings cs key c (insert c visited) (found c) (seen, nxt, ev) = (s1, n1, e1)"
      by (cases "walk_findings cs key c (insert c visited) (found c) (seen, nxt, ev)") auto
    have c: "c \<in> R" using Cons.prems(2) by simp
    have 1: "ev_ok key found R s1 e1"
      "set n1 \<subseteq> set nxt \<union> {d. \<exists>f \<in> set (found c). d \<in> set (finding_coords cs f)}"
      using walk_findings_ok [OF Cons.prems(1) c _ w] by auto
    have "walk_frontier cs key found frontier (insert c visited, s1, n1, e1) = (visited', seen', nxt', ev')"
      using Cons.prems(3) False w by (simp add: Let_def)
    from Cons.IH [OF 1(1) _ this] Cons.prems(2) 1(2) c show ?thesis by fastforce
  qed
qed simp

lemma walk_hops_ok:
  "ev_ok key found (reach cs found seeds k) seen ev \<Longrightarrow> set frontier \<subseteq> reach cs found seeds k \<Longrightarrow>
   \<exists>seen'. ev_ok key found (reach cs found seeds (k + hops - 1)) seen'
     (walk_hops cs key found hops frontier (visited, seen, ev)) \<or>
   hops = 0 \<and> walk_hops cs key found hops frontier (visited, seen, ev) = ev"
proof (induction hops arbitrary: k frontier visited seen ev)
  case (Suc hops)
  have mono: "reach cs found seeds k \<subseteq> reach cs found seeds (k + Suc hops - 1)" by (rule reach_mono) simp
  show ?case
  proof (cases "frontier = [] \<or> MAX_EVIDENCE \<le> length ev")
    case True
    then show ?thesis using ev_ok_mono [OF Suc.prems(1) mono] by auto
  next
    case False
    obtain v1 s1 n1 e1 where w: "walk_frontier cs key found frontier (visited, seen, [], ev) = (v1, s1, n1, e1)"
      by (cases "walk_frontier cs key found frontier (visited, seen, [], ev)") auto
    have 1: "ev_ok key found (reach cs found seeds k) s1 e1"
      "set n1 \<subseteq> {d. \<exists>c \<in> reach cs found seeds k. \<exists>f \<in> set (found c). d \<in> set (finding_coords cs f)}"
      using walk_frontier_ok [OF Suc.prems w] by auto
    have step: "walk_hops cs key found (Suc hops) frontier (visited, seen, ev)
        = walk_hops cs key found hops n1 (v1, s1, e1)" using False w by simp
    show ?thesis
    proof (cases hops)
      case 0
      then show ?thesis using step ev_ok_mono [OF 1(1) mono] by auto
    next
      case (Suc h)
      have "ev_ok key found (reach cs found seeds (Suc k)) s1 e1"
        by (rule ev_ok_mono [OF 1(1) reach_mono]) simp
      moreover have "set n1 \<subseteq> reach cs found seeds (Suc k)" using 1(2) by auto
      ultimately show ?thesis using Suc.IH [of "Suc k" s1 e1 n1 v1] Suc step by auto
    qed
  qed
qed simp

lemma walk_ev_ok:
  "\<exists>seen. ev_ok key (walk_found loc cache) (reach cs (walk_found loc cache) (set seeds) 4) seen
     (walk cs key seeds loc cache)"
proof -
  have "ev_ok key (walk_found loc cache) (reach cs (walk_found loc cache) (set seeds) 0) {} []"
    by (simp add: ev_ok_def)
  from walk_hops_ok [OF this, of seeds MAX_HOPS "{}"] show ?thesis
    by (auto simp: walk_def MAX_HOPS_def)
qed

text \<open>
  C3. The walk invents nothing and repeats nothing: every piece of evidence was stated by a local
  source or the observation store about the very coordinate it is filed under, that coordinate
  is at most four co-observations away from a seed, and no two pieces are the same finding.
\<close>

theorem walk_sound:
  assumes "e \<in> set (walk cs key seeds loc cache)"
  shows "ev_finding e \<in> set (walk_found loc cache (ev_found_at e)) \<and>
     ev_found_at e \<in> reach cs (walk_found loc cache) (set seeds) 4 \<and>
     distinct (map (key \<circ> ev_finding) (walk cs key seeds loc cache))"
  using walk_ev_ok [of key loc cache cs seeds] assms by (auto simp: ev_ok_def)

lemma walk_hops_empty [simp]: "walk_hops cs key found hops [] (visited, seen, ev) = ev"
  by (cases hops) simp_all

definition ex_codecs :: codecs where
  "ex_codecs = \<lparr>b64_decode = (\<lambda>_. None), b32_decode = (\<lambda>_. None)\<rparr>"

theorem walk_sound_witness:
  "let c = \<lparr>c_scheme = Md5, c_digest = replicate 16 7\<rparr>;
       f = \<lparr>fd_backend = ''b'', fd_claims = [], fd_coords = [], fd_archive = None\<rparr>;
       loc = (\<lambda>d. if d = c then [f, f] else [])
   in walk ex_codecs fd_backend [c] loc None = [\<lparr>ev_found_at = c, ev_finding = f\<rparr>] \<and>
      c \<in> reach ex_codecs (walk_found loc None) {c} 4"
proof -
  define c where "c = \<lparr>c_scheme = Md5, c_digest = replicate 16 7\<rparr>"
  define f where "f = \<lparr>fd_backend = ''b'', fd_claims = [], fd_coords = [], fd_archive = None\<rparr>"
  define loc where "loc = (\<lambda>d. if d = c then [f, f] else [])"
  have five: "MAX_HOPS = Suc 4" by (simp add: MAX_HOPS_def)
  have front: "walk_frontier ex_codecs fd_backend (walk_found loc None) [c] ({}, {}, [], [])
      = ({c}, {''b''}, [], [\<lparr>ev_found_at = c, ev_finding = f\<rparr>])"
    by (simp add: walk_found_def loc_def MAX_EVIDENCE_def f_def finding_coords_def)
  have "walk ex_codecs fd_backend [c] loc None
      = walk_hops ex_codecs fd_backend (walk_found loc None) (Suc 3) [] ({c}, {''b''}, [\<lparr>ev_found_at = c, ev_finding = f\<rparr>])"
    unfolding walk_def five walk_hops.simps(2) front by (simp add: MAX_EVIDENCE_def)
  then have w: "walk ex_codecs fd_backend [c] loc None = [\<lparr>ev_found_at = c, ev_finding = f\<rparr>]"
    unfolding walk_hops.simps(2) by simp
  have r: "c \<in> reach ex_codecs (walk_found loc None) {c} 4"
    using walk_sound [of "\<lparr>ev_found_at = c, ev_finding = f\<rparr>" ex_codecs fd_backend "[c]" loc None] w by simp
  show ?thesis
    unfolding Let_def by (fold c_def f_def, fold loc_def, rule conjI [OF w r])
qed

subsection \<open>What the walk does not miss\<close>

lemma walk_findings_complete:
  "walk_findings cs key coord visited fs (seen, nxt, ev) = (seen', nxt', ev') \<Longrightarrow> length ev' < MAX_EVIDENCE \<Longrightarrow>
   \<exists>new. ev' = ev @ new \<and> seen' = seen \<union> (key \<circ> ev_finding) ` set new \<and> key ` set fs \<subseteq> seen' \<and>
     set nxt \<subseteq> set nxt' \<and> (\<forall>e \<in> set new. set (finding_coords cs (ev_finding e)) \<subseteq> visited \<union> set nxt')"
proof (induction fs arbitrary: seen nxt ev)
  case (Cons f fs)
  show ?case
  proof (cases "key f \<in> seen")
    case True
    then have "walk_findings cs key coord visited fs (seen, nxt, ev) = (seen', nxt', ev')" using Cons.prems by simp
    from Cons.IH [OF this Cons.prems(2)] True show ?thesis by auto
  next
    case False
    define e where "e = \<lparr>ev_found_at = coord, ev_finding = f\<rparr>"
    let ?nxt = "nxt @ filter (\<lambda>c. c \<notin> visited) (finding_coords cs f)"
    have "\<not> MAX_EVIDENCE \<le> length (ev @ [e])"
      using Cons.prems False by (auto simp: Let_def e_def)
    then have "walk_findings cs key coord visited fs (insert (key f) seen, ?nxt, ev @ [e]) = (seen', nxt', ev')"
      using Cons.prems False by (simp add: Let_def e_def)
    from Cons.IH [OF this Cons.prems(2)] obtain new where new: "ev' = (ev @ [e]) @ new"
        "seen' = insert (key f) seen \<union> (key \<circ> ev_finding) ` set new" "key ` set fs \<subseteq> seen'"
        "set ?nxt \<subseteq> set nxt'" "\<forall>e \<in> set new. set (finding_coords cs (ev_finding e)) \<subseteq> visited \<union> set nxt'"
      by blast
    then show ?thesis by (intro exI [of _ "e # new"]) (auto simp: e_def)
  qed
qed simp

lemma walk_findings_extends:
  "walk_findings cs key coord visited fs (seen, nxt, ev) = (seen', nxt', ev') \<Longrightarrow> length ev \<le> length ev'"
proof (induction fs arbitrary: seen nxt ev)
  case (Cons f fs)
  then show ?case by (fastforce simp: Let_def split: if_splits)
qed simp

lemma walk_frontier_extends:
  "walk_frontier cs key found frontier (visited, seen, nxt, ev) = (visited', seen', nxt', ev') \<Longrightarrow>
   length ev \<le> length ev'"
proof (induction frontier arbitrary: visited seen nxt ev)
  case (Cons c frontier)
  show ?case
  proof (cases "c \<in> visited")
    case True
    then show ?thesis using Cons by simp
  next
    case False
    obtain s1 n1 e1 where w: "walk_findings cs key c (insert c visited) (found c) (seen, nxt, ev) = (s1, n1, e1)"
      by (cases "walk_findings cs key c (insert c visited) (found c) (seen, nxt, ev)") auto
    then show ?thesis using Cons False walk_findings_extends [OF w] by (fastforce simp: Let_def)
  qed
qed simp

lemma walk_hops_extends: "length ev \<le> length (walk_hops cs key found hops frontier (visited, seen, ev))"
proof (induction hops arbitrary: frontier visited seen ev)
  case (Suc hops)
  obtain v1 s1 n1 e1 where w: "walk_frontier cs key found frontier (visited, seen, [], ev) = (v1, s1, n1, e1)"
    by (cases "walk_frontier cs key found frontier (visited, seen, [], ev)") auto
  show ?case using walk_frontier_extends [OF w] Suc [of e1 n1 v1 s1] w by simp
qed simp

lemma walk_frontier_complete:
  "walk_frontier cs key found frontier (visited, seen, nxt, ev) = (visited', seen', nxt', ev') \<Longrightarrow>
   length ev' < MAX_EVIDENCE \<Longrightarrow>
   \<exists>new. ev' = ev @ new \<and> seen' = seen \<union> (key \<circ> ev_finding) ` set new \<and>
     visited' = visited \<union> set frontier \<and> set nxt \<subseteq> set nxt' \<and>
     (\<forall>c \<in> set frontier - visited. key ` set (found c) \<subseteq> seen') \<and>
     (\<forall>e \<in> set new. set (finding_coords cs (ev_finding e)) \<subseteq> visited' \<union> set nxt')"
proof (induction frontier arbitrary: visited seen nxt ev)
  case (Cons c frontier)
  show ?case
  proof (cases "c \<in> visited")
    case True
    then have "walk_frontier cs key found frontier (visited, seen, nxt, ev) = (visited', seen', nxt', ev')"
      using Cons.prems by simp
    from Cons.IH [OF this Cons.prems(2)] True show ?thesis by auto
  next
    case False
    obtain s1 n1 e1 where w: "walk_findings cs key c (insert c visited) (found c) (seen, nxt, ev) = (s1, n1, e1)"
      by (cases "walk_findings cs key c (insert c visited) (found c) (seen, nxt, ev)") auto
    have r: "walk_frontier cs key found frontier (insert c visited, s1, n1, e1) = (visited', seen', nxt', ev')"
      using Cons.prems(1) False w by (simp add: Let_def)
    have "length e1 < MAX_EVIDENCE" using walk_frontier_extends [OF r] Cons.prems(2) by simp
    from walk_findings_complete [OF w this] obtain a where a: "e1 = ev @ a"
        "s1 = seen \<union> (key \<circ> ev_finding) ` set a" "key ` set (found c) \<subseteq> s1" "set nxt \<subseteq> set n1"
        "\<forall>e \<in> set a. set (finding_coords cs (ev_finding e)) \<subseteq> insert c visited \<union> set n1" by blast
    from Cons.IH [OF r Cons.prems(2)] obtain b where b: "ev' = e1 @ b"
        "seen' = s1 \<union> (key \<circ> ev_finding) ` set b" "visited' = insert c visited \<union> set frontier"
        "set n1 \<subseteq> set nxt'" "\<forall>d \<in> set frontier - insert c visited. key ` set (found d) \<subseteq> seen'"
        "\<forall>e \<in> set b. set (finding_coords cs (ev_finding e)) \<subseteq> visited' \<union> set nxt'" by blast
    have "key ` set (found c) \<subseteq> seen'" using a(3) b(2) by blast
    then have "\<forall>d \<in> set (c # frontier) - visited. key ` set (found d) \<subseteq> seen'"
      using b(5) by (metis DiffE DiffI insertE list.simps(15))
    moreover have "\<forall>e \<in> set (a @ b). set (finding_coords cs (ev_finding e)) \<subseteq> visited' \<union> set nxt'"
      using a(5) b(3,4,6) by auto
    ultimately show ?thesis using a(1,2,4) b(1,2,3,4) by (intro exI [of _ "a @ b"]) auto
  qed
qed simp

text \<open>The state at a hop boundary: everything visited has been asked and its answers are in the
  evidence, and everything the evidence co-observes is visited or waiting.\<close>

definition hop_inv ::
  "codecs \<Rightarrow> (finding \<Rightarrow> 'k) \<Rightarrow> (coord \<Rightarrow> finding list) \<Rightarrow> coord list \<Rightarrow>
   coord set \<times> 'k set \<times> evidence list \<Rightarrow> bool" where
  "hop_inv cs key found frontier = (\<lambda>(visited, seen, ev).
     seen = (key \<circ> ev_finding) ` set ev \<and> (\<forall>c \<in> visited. key ` set (found c) \<subseteq> seen) \<and>
     (\<forall>e \<in> set ev. set (finding_coords cs (ev_finding e)) \<subseteq> visited \<union> set frontier))"

lemma hop_inv_closed:
  assumes "inj key" "hop_inv cs key found frontier (visited, seen, ev)" "c \<in> visited" "f \<in> set (found c)"
  shows "f \<in> ev_finding ` set ev \<and> set (finding_coords cs f) \<subseteq> visited \<union> set frontier"
proof -
  have "key f \<in> (key \<circ> ev_finding) ` set ev" using assms by (auto simp: hop_inv_def)
  then obtain e where e: "e \<in> set ev" "key f = key (ev_finding e)" by auto
  then have "f = ev_finding e" using assms(1) by (simp add: inj_eq)
  then show ?thesis using e(1) assms(2) by (auto simp: hop_inv_def)
qed

lemma reach_closed:
  assumes "inj key" "hop_inv cs key found [] (visited, seen, ev)" "reach cs found seeds k \<subseteq> visited" "k \<le> n"
  shows "reach cs found seeds n \<subseteq> visited"
  using assms(4)
proof (induction n)
  case (Suc n)
  then show ?case
    using assms(3) hop_inv_closed [OF assms(1,2)] by (cases "k = Suc n") fastforce+
qed (use assms(3) in simp)

lemma walk_hops_complete:
  "inj key \<Longrightarrow> hop_inv cs key found frontier (visited, seen, ev) \<Longrightarrow>
   reach cs found seeds k \<subseteq> visited \<union> set frontier \<Longrightarrow>
   length (walk_hops cs key found hops frontier (visited, seen, ev)) < MAX_EVIDENCE \<Longrightarrow>
   c \<in> visited \<or> 0 < hops \<and> c \<in> reach cs found seeds (k + hops - 1) \<Longrightarrow> f \<in> set (found c) \<Longrightarrow>
   f \<in> ev_finding ` set (walk_hops cs key found hops frontier (visited, seen, ev))"
proof (induction hops arbitrary: k frontier visited seen ev)
  case 0
  then show ?case using hop_inv_closed [of key cs found frontier visited seen ev c f] by simp
next
  case (Suc hops)
  have few: "length ev < MAX_EVIDENCE"
    using walk_hops_extends [of ev cs key found "Suc hops" frontier visited seen] Suc.prems(4) by simp
  show ?case
  proof (cases "frontier = []")
    case True
    have "c \<in> visited"
      using reach_closed [of key cs found visited seen ev seeds k "k + Suc hops - 1"] Suc.prems True by auto
    then show ?thesis
      using hop_inv_closed [OF Suc.prems(1,2) _ Suc.prems(6)] True by simp
  next
    case False
    obtain v1 s1 n1 e1 where w: "walk_frontier cs key found frontier (visited, seen, [], ev) = (v1, s1, n1, e1)"
      by (cases "walk_frontier cs key found frontier (visited, seen, [], ev)") auto
    have step: "walk_hops cs key found (Suc hops) frontier (visited, seen, ev)
        = walk_hops cs key found hops n1 (v1, s1, e1)" using False w few by simp
    have few1: "length (walk_hops cs key found hops n1 (v1, s1, e1)) < MAX_EVIDENCE"
      using Suc.prems(4) step by simp
    then have "length e1 < MAX_EVIDENCE"
      using walk_hops_extends [of e1 cs key found hops n1 v1 s1] by simp
    from walk_frontier_complete [OF w this] obtain new where new: "e1 = ev @ new"
        "s1 = seen \<union> (key \<circ> ev_finding) ` set new" "v1 = visited \<union> set frontier"
        "\<forall>c \<in> set frontier - visited. key ` set (found c) \<subseteq> s1"
        "\<forall>e \<in> set new. set (finding_coords cs (ev_finding e)) \<subseteq> v1 \<union> set n1" by blast
    have inv: "hop_inv cs key found n1 (v1, s1, e1)"
      unfolding hop_inv_def prod.case
    proof (intro conjI ballI)
      have seen: "seen = (key \<circ> ev_finding) ` set ev" using Suc.prems(2) by (simp add: hop_inv_def)
      then show "s1 = (key \<circ> ev_finding) ` set e1" by (simp add: new(1,2) image_Un)
      show "key ` set (found c) \<subseteq> s1" if c: "c \<in> v1" for c
      proof (cases "c \<in> visited")
        case True
        then have "key ` set (found c) \<subseteq> seen"
          using Suc.prems(2) unfolding hop_inv_def prod.case by blast
        then show ?thesis using new(2) by blast
      next
        case False
        then show ?thesis using c new(3,4) by blast
      qed
      show "set (finding_coords cs (ev_finding e)) \<subseteq> v1 \<union> set n1" if e: "e \<in> set e1" for e
      proof (cases "e \<in> set ev")
        case True
        then have "set (finding_coords cs (ev_finding e)) \<subseteq> visited \<union> set frontier"
          using Suc.prems(2) by (simp add: hop_inv_def)
        then show ?thesis using new(3) by blast
      next
        case False
        then show ?thesis using e new(1,5) by auto
      qed
    qed
    have R: "reach cs found seeds k \<subseteq> v1" using Suc.prems(3) new(3) by simp
    have R1: "reach cs found seeds (Suc k) \<subseteq> v1 \<union> set n1"
      using R hop_inv_closed [OF Suc.prems(1) inv] by fastforce
    have "c \<in> v1 \<or> 0 < hops \<and> c \<in> reach cs found seeds (Suc k + hops - 1)"
      using Suc.prems(5) new(3) R by (cases hops) auto
    then show ?thesis
      using Suc.IH [OF Suc.prems(1) inv R1 few1 _ Suc.prems(6)] step by simp
  qed
qed

text \<open>
  C2. Below its cap the walk misses nothing: when it returns fewer than 1000 pieces of evidence (the
  result then is not marked truncated) and different findings have different JSON forms, every
  finding any source holds about any coordinate within four co-observations of a seed is there.
\<close>

theorem walk_complete:
  assumes "inj key" "length (walk cs key seeds loc cache) < 1000"
    and "c \<in> reach cs (walk_found loc cache) (set seeds) 4" "f \<in> set (walk_found loc cache c)"
  shows "f \<in> ev_finding ` set (walk cs key seeds loc cache)"
  unfolding walk_def
proof (rule walk_hops_complete [where k = 0 and seeds = "set seeds" and found = "walk_found loc cache" and c = c, OF assms(1) _ _ _ _ assms(4)])
  show "hop_inv cs key (walk_found loc cache) seeds ({}, {}, [])" by (simp add: hop_inv_def)
qed (use assms in \<open>simp_all add: walk_def MAX_EVIDENCE_def MAX_HOPS_def\<close>)

text \<open>The example: what the queried digest's finding co-observes is asked about too.\<close>

definition ex_md5 :: coord where "ex_md5 = \<lparr>c_scheme = Md5, c_digest = replicate 16 7\<rparr>"
definition ex_sha :: "byte \<Rightarrow> coord" where "ex_sha b = \<lparr>c_scheme = Sha256, c_digest = replicate 32 b\<rparr>"

definition ex_finding :: "string \<Rightarrow> coord list \<Rightarrow> finding" where
  "ex_finding b cs = \<lparr>fd_backend = b, fd_claims = [], fd_coords = map coord_display cs, fd_archive = None\<rparr>"

definition ex_loc :: "coord \<Rightarrow> finding list" where
  "ex_loc c = (if c = ex_md5 then [ex_finding ''a'' [ex_sha 1]]
     else if c = ex_sha 1 then [ex_finding ''b'' []] else [])"

lemma ex_finding_coords: "\<forall>c \<in> set ds. coord_wf c \<Longrightarrow> finding_coords cs (ex_finding b ds) = ds"
  by (induction ds) (simp_all add: finding_coords_def ex_finding_def coord_parse_display)

theorem walk_complete_witness:
  "ex_finding ''b'' [] \<in> ev_finding ` set (walk ex_codecs (\<lambda>f. f) [ex_md5] ex_loc None)"
proof (rule walk_complete)
  have sub: "set (walk_found ex_loc None c) \<subseteq> {ex_finding ''a'' [ex_sha 1], ex_finding ''b'' []}" for c
    by (auto simp: walk_found_def ex_loc_def)
  obtain seen where ok: "ev_ok (\<lambda>f. f) (walk_found ex_loc None)
      (reach ex_codecs (walk_found ex_loc None) (set [ex_md5]) 4) seen (walk ex_codecs (\<lambda>f. f) [ex_md5] ex_loc None)"
    using walk_ev_ok by blast
  then have d: "distinct (map ev_finding (walk ex_codecs (\<lambda>f. f) [ex_md5] ex_loc None))"
    by (simp add: ev_ok_def comp_def)
  have "set (map ev_finding (walk ex_codecs (\<lambda>f. f) [ex_md5] ex_loc None))
      \<subseteq> {ex_finding ''a'' [ex_sha 1], ex_finding ''b'' []}"
    using ok sub by (fastforce simp: ev_ok_def)
  then have "card (set (map ev_finding (walk ex_codecs (\<lambda>f. f) [ex_md5] ex_loc None)))
      \<le> card {ex_finding ''a'' [ex_sha 1], ex_finding ''b'' []}" by (rule card_mono [rotated]) simp
  also have "\<dots> \<le> 2" by (rule card_insert_le_m1) simp_all
  finally show "length (walk ex_codecs (\<lambda>f. f) [ex_md5] ex_loc None) < 1000"
    using distinct_card [OF d] by simp
  have "coord_wf (ex_sha 1)" by (simp add: coord_wf_def ex_sha_def)
  then have "ex_sha 1 \<in> reach ex_codecs (walk_found ex_loc None) {ex_md5} 1"
    by (auto simp: walk_found_def ex_loc_def ex_finding_coords)
  then show "ex_sha 1 \<in> reach ex_codecs (walk_found ex_loc None) (set [ex_md5]) 4"
    using reach_mono [of 1 4 ex_codecs "walk_found ex_loc None" "{ex_md5}"] by auto
  show "ex_finding ''b'' [] \<in> set (walk_found ex_loc None (ex_sha 1))"
    by (simp add: walk_found_def ex_loc_def ex_sha_def ex_md5_def)
qed simp

subsection \<open>Union-find\<close>

inductive uf_root :: "nat list \<Rightarrow> nat \<Rightarrow> nat \<Rightarrow> bool" for p where
  root_here: "p ! i = i \<Longrightarrow> uf_root p i i"
| root_up: "p ! i \<noteq> i \<Longrightarrow> uf_root p (p ! i) r \<Longrightarrow> uf_root p i r"

inductive_cases uf_rootE: "uf_root p i r"

lemma uf_root_fix: "uf_root p i r \<Longrightarrow> p ! r = r"
  by (induction rule: uf_root.induct) simp_all

lemma uf_root_unique: "uf_root p i r \<Longrightarrow> uf_root p i r' \<Longrightarrow> r = r'"
proof (induction i r rule: uf_root.induct)
  case (root_here i)
  from root_here(2,1) show ?case by (auto elim: uf_rootE)
next
  case (root_up i r)
  from root_up(4) show ?case
    by (rule uf_rootE) (use root_up(1,3) in \<open>simp_all\<close>)
qed

lemma uf_root_self: "p ! r = r \<Longrightarrow> uf_root p r x \<longleftrightarrow> x = r"
  using uf_root_unique uf_root.root_here by metis

text \<open>Parents are in range and strictly shallower, for some depth.\<close>

definition uf_depth :: "(nat \<Rightarrow> nat) \<Rightarrow> nat list \<Rightarrow> bool" where
  "uf_depth d p \<longleftrightarrow> (\<forall>i < length p. p ! i < length p \<and> (p ! i \<noteq> i \<longrightarrow> d (p ! i) < d i))"

definition uf_inv :: "nat list \<Rightarrow> bool" where
  "uf_inv p \<longleftrightarrow> (\<exists>d. uf_depth d p)"

lemma uf_root_props:
  "uf_root p i r \<Longrightarrow> uf_depth d p \<Longrightarrow> i < length p \<Longrightarrow> r < length p \<and> d r \<le> d i \<and> (r \<noteq> i \<longrightarrow> d r < d i)"
proof (induction i r rule: uf_root.induct)
  case (root_up i r)
  have "p ! i < length p" "d (p ! i) < d i" using root_up by (auto simp: uf_depth_def)
  with root_up show ?case by force
qed simp

lemma uf_compress:
  assumes d: "uf_depth d p" and i: "i < length p" and r: "uf_root p i r"
  shows "uf_depth d (p[i := r]) \<and> (\<forall>j x. j < length p \<longrightarrow> (uf_root (p[i := r]) j x \<longleftrightarrow> uf_root p j x))"
proof (cases "p ! i = i")
  case True
  then have "r = i" using uf_root_self r by blast
  then have "p[i := r] = p" using True by (metis list_update_id)
  then show ?thesis using d by simp
next
  case False
  have rp: "r < length p" "d r < d i"
    using uf_root_props [OF r d i] uf_root_fix [OF r] False by auto
  then have ri: "r \<noteq> i" by auto
  have "(p[i := r]) ! j < length p \<and> ((p[i := r]) ! j \<noteq> j \<longrightarrow> d ((p[i := r]) ! j) < d j)"
    if j: "j < length p" for j
  proof (cases "j = i")
    case True
    then show ?thesis using rp i by simp
  next
    case False
    then have "(p[i := r]) ! j = p ! j" by simp
    then show ?thesis using d j by (simp add: uf_depth_def)
  qed
  then have d': "uf_depth d (p[i := r])" by (simp add: uf_depth_def)
  have fwd: "uf_root p j x \<Longrightarrow> j < length p \<Longrightarrow> uf_root (p[i := r]) j x" for j x
  proof (induction j x rule: uf_root.induct)
    case (root_here j)
    then have "j \<noteq> i" using False by auto
    then show ?case using root_here by (intro uf_root.root_here) simp
  next
    case (root_up j x)
    have jp: "p ! j < length p" using root_up(4) d by (simp add: uf_depth_def)
    show ?case
    proof (cases "j = i")
      case True
      have "uf_root p i x" using root_up True uf_root.root_up by blast
      then have x: "x = r" using uf_root_unique r by blast
      have self: "uf_root (p[i := r]) r r" using ri uf_root_fix [OF r] by (intro uf_root.root_here) simp
      have up: "(p[i := r]) ! i = r" using i by simp
      have "uf_root (p[i := r]) i r"
        by (rule uf_root.root_up) (simp_all only: up self ri not_False_eq_True)
      then show ?thesis using True x by simp
    next
      case False
      then have "(p[i := r]) ! j = p ! j" by simp
      then show ?thesis using uf_root.root_up [of "p[i := r]" j x] root_up(1,3) jp by simp
    qed
  qed
  have total: "\<exists>x. uf_root p j x" if "j < length p" for j
    using that
  proof (induction "d j" arbitrary: j rule: less_induct)
    case less
    show ?case
    proof (cases "p ! j = j")
      case True
      then show ?thesis using uf_root.root_here by blast
    next
      case False
      then show ?thesis using less d uf_root.root_up unfolding uf_depth_def by metis
    qed
  qed
  have "uf_root (p[i := r]) j x \<longleftrightarrow> uf_root p j x" if j: "j < length p" for j x
    using fwd total uf_root_unique j by metis
  with d' show ?thesis by blast
qed

lemma uf_find_spec:
  "uf_depth d p \<Longrightarrow> i < length p \<Longrightarrow>
   \<exists>p' r. uf_find p i = Some (p', r) \<and> uf_root p i r \<and> uf_depth d p' \<and> length p' = length p \<and>
     (\<forall>j x. j < length p \<longrightarrow> (uf_root p' j x \<longleftrightarrow> uf_root p j x))"
proof (induction "d i" arbitrary: i rule: less_induct)
  case less
  show ?case
  proof (cases "p ! i = i")
    case True
    then show ?thesis using less.prems by (subst uf_find.simps) (auto intro: uf_root.root_here)
  next
    case False
    have up: "p ! i < length p" "d (p ! i) < d i" using less.prems False by (auto simp: uf_depth_def)
    from less.hyps [OF up(2) less.prems(1) up(1)] obtain p' r where p': "uf_find p (p ! i) = Some (p', r)"
        "uf_root p (p ! i) r" "uf_depth d p'" "length p' = length p"
        "\<And>j x. j < length p \<Longrightarrow> uf_root p' j x \<longleftrightarrow> uf_root p j x" by blast
    have r: "uf_root p i r" by (rule uf_root.root_up [OF False p'(2)])
    have i': "i < length p'" and r': "uf_root p' i r" using p'(4,5) less.prems(2) r by simp_all
    have "uf_find p i = Some (p'[i := r], r)" using False p'(1) by (subst uf_find.simps) simp
    then show ?thesis using uf_compress [OF p'(3) i' r'] r p'(4,5) by auto
  qed
qed

text \<open>Two elements are welded when they have the same root.\<close>

definition uf_same :: "nat list \<Rightarrow> nat \<Rightarrow> nat \<Rightarrow> bool" where
  "uf_same p a b \<longleftrightarrow> a < length p \<and> b < length p \<and> (\<exists>r. uf_root p a r \<and> uf_root p b r)"

lemma uf_link:
  assumes d: "uf_depth d p" and ra: "p ! ra = ra" "ra < length p" and rb: "p ! rb = rb" "rb < length p"
    and ne: "ra \<noteq> rb"
  shows "uf_inv (p[ra := rb]) \<and>
    (\<forall>j x. j < length p \<longrightarrow> uf_root p j x \<longrightarrow> uf_root (p[ra := rb]) j (if x = ra then rb else x))"
proof
  define d' where "d' j = (if uf_root p j ra then d j + d rb + 1 else d j)" for j
  have "\<not> uf_root p rb ra" using uf_root_self [OF rb(1)] ne by blast
  then have drb: "d' rb = d rb" by (simp add: d'_def)
  have dra: "d' ra = d ra + d rb + 1" using uf_root.root_here [of p ra] ra by (simp add: d'_def)
  have "(p[ra := rb]) ! i < length p \<and> ((p[ra := rb]) ! i \<noteq> i \<longrightarrow> d' ((p[ra := rb]) ! i) < d' i)"
    if i: "i < length p" for i
  proof (cases "i = ra")
    case True
    then show ?thesis using ra rb drb dra by simp
  next
    case False
    have "uf_root p (p ! i) ra \<longleftrightarrow> uf_root p i ra" if "p ! i \<noteq> i"
      using that uf_root.root_up [of p i ra] by (auto elim: uf_rootE)
    then show ?thesis using False i d by (auto simp: d'_def uf_depth_def)
  qed
  then show "uf_inv (p[ra := rb])" by (auto simp: uf_inv_def uf_depth_def)
  have "uf_root p j x \<Longrightarrow> j < length p \<Longrightarrow> uf_root (p[ra := rb]) j (if x = ra then rb else x)" for j x
  proof (induction j x rule: uf_root.induct)
    case (root_here j)
    have b: "uf_root (p[ra := rb]) rb rb" using rb ne by (intro uf_root.root_here) simp
    show ?case
    proof (cases "j = ra")
      case True
      have up: "(p[ra := rb]) ! ra = rb" using ra by simp
      have "uf_root (p[ra := rb]) ra rb" by (rule uf_root.root_up) (simp_all only: up b ne [symmetric] not_False_eq_True)
      then show ?thesis using True by simp
    next
      case False
      then have "(p[ra := rb]) ! j = j" using root_here(1) by simp
      then have "uf_root (p[ra := rb]) j j" by (rule uf_root.root_here)
      then show ?thesis using False by simp
    qed
  next
    case (root_up j x)
    have "j \<noteq> ra" using root_up(1) ra by auto
    moreover have "p ! j < length p" using d root_up(4) by (simp add: uf_depth_def)
    ultimately have "(p[ra := rb]) ! j = p ! j" "uf_root (p[ra := rb]) (p ! j) (if x = ra then rb else x)"
      using root_up(3) by simp_all
    then show ?case using uf_root.root_up [of "p[ra := rb]" j] root_up(1) by simp
  qed
  then show "\<forall>j x. j < length p \<longrightarrow> uf_root p j x \<longrightarrow> uf_root (p[ra := rb]) j (if x = ra then rb else x)"
    by blast
qed

subsection \<open>Welding through an interface\<close>

text \<open>What the anchor loop needs of its union-find: welding never fails on elements in range and
  merges exactly the two classes.\<close>

locale weld_store =
  fixes inv :: "'s \<Rightarrow> bool"
    and weld :: "'s \<Rightarrow> nat \<Rightarrow> nat \<Rightarrow> 's option"
    and same :: "'s \<Rightarrow> nat \<Rightarrow> nat \<Rightarrow> bool"
    and extent :: "'s \<Rightarrow> nat"
  assumes weld_some: "inv s \<Longrightarrow> a < extent s \<Longrightarrow> b < extent s \<Longrightarrow>
        \<exists>s'. weld s a b = Some s' \<and> inv s' \<and> extent s' = extent s \<and>
          (\<forall>x y. same s' x y \<longleftrightarrow> same s x y \<or> same s x a \<and> same s b y \<or> same s x b \<and> same s a y)"
    and same_refl: "inv s \<Longrightarrow> x < extent s \<Longrightarrow> same s x x"
    and same_sym: "inv s \<Longrightarrow> same s x y \<Longrightarrow> same s y x"
    and same_trans: "inv s \<Longrightarrow> same s x y \<Longrightarrow> same s y z \<Longrightarrow> same s x z"
    and same_bound: "inv s \<Longrightarrow> same s x y \<Longrightarrow> x < extent s \<and> y < extent s"
begin

definition link :: "(nat \<times> coord) set \<Rightarrow> nat \<Rightarrow> nat \<Rightarrow> bool" where
  "link P x y \<longleftrightarrow> (\<exists>c. (x, c) \<in> P \<and> (y, c) \<in> P)"

text \<open>After the pairs in \<open>P\<close>: the anchors are among them, every pair is welded to its anchor, and
  the classes are the closure of the shared coordinates.\<close>

definition anchored :: "(nat \<times> coord) set \<Rightarrow> (coord \<rightharpoonup> nat) \<Rightarrow> 's \<Rightarrow> bool" where
  "anchored P anchor s \<longleftrightarrow> inv s \<and> (\<forall>i c. (i, c) \<in> P \<longrightarrow> i < extent s) \<and>
     (\<forall>c j. anchor c = Some j \<longrightarrow> (j, c) \<in> P) \<and>
     (\<forall>i c. (i, c) \<in> P \<longrightarrow> (\<exists>j. anchor c = Some j \<and> same s i j)) \<and>
     (\<forall>x y. same s x y \<longleftrightarrow> x < extent s \<and> y < extent s \<and> (link P)\<^sup>*\<^sup>* x y)"

lemma anchored_link: "anchored P anchor s \<Longrightarrow> link P x y \<Longrightarrow> same s x y"
  unfolding anchored_def link_def by (metis option.inject same_sym same_trans)

lemma anchored_new:
  assumes a: "anchored P anchor s" and i: "i < extent s" and none: "anchor c = None"
  shows "anchored (insert (i, c) P) (anchor(c \<mapsto> i)) s"
proof -
  have inv: "inv s" using a by (simp add: anchored_def)
  have fresh: "(j, c) \<notin> P" for j using a none unfolding anchored_def by (metis option.distinct(1))
  have "link (insert (i, c) P) x y \<longleftrightarrow> link P x y \<or> x = i \<and> y = i" for x y
    using fresh by (auto simp: link_def)
  then have "link (insert (i, c) P) = (\<lambda>x y. link P x y \<or> x = i \<and> y = i)" by blast
  moreover have "(\<lambda>x y. link P x y \<or> x = i \<and> y = i)\<^sup>*\<^sup>* = (link P)\<^sup>*\<^sup>*"
    by (rule rtranclp_subset) auto
  ultimately have closure: "(link (insert (i, c) P))\<^sup>*\<^sup>* = (link P)\<^sup>*\<^sup>*" by simp
  have "\<exists>j'. (anchor(c \<mapsto> i)) d = Some j' \<and> same s k j'" if "(k, d) \<in> insert (i, c) P" for k d
    using that a fresh same_refl [OF inv i] by (auto simp: anchored_def)
  moreover have "(j, d) \<in> insert (i, c) P" if "(anchor(c \<mapsto> i)) d = Some j" for d j
    using that a by (auto simp: anchored_def split: if_splits)
  ultimately show ?thesis using a i unfolding anchored_def closure by blast
qed

lemma anchored_weld:
  assumes a: "anchored P anchor s" and i: "i < extent s" and some: "anchor c = Some j"
  shows "\<exists>s'. weld s i j = Some s' \<and> extent s' = extent s \<and> anchored (insert (i, c) P) anchor s'"
proof -
  have inv: "inv s" and jP: "(j, c) \<in> P" using a some by (auto simp: anchored_def)
  have j: "j < extent s" using a jP unfolding anchored_def by blast
  obtain s' where s': "weld s i j = Some s'" "inv s'" "extent s' = extent s"
      "\<And>x y. same s' x y \<longleftrightarrow> same s x y \<or> same s x i \<and> same s j y \<or> same s x j \<and> same s i y"
    using weld_some [OF inv i j] by blast
  have ij: "same s' i j" using s'(4) same_refl [OF inv] i j by blast
  have mono: "same s x y \<Longrightarrow> same s' x y" for x y using s'(4) by blast
  have toj: "same s' k j" if "(k, c) \<in> insert (i, c) P" for k
  proof (cases "k = i")
    case False
    then have "same s k j" using that a some unfolding anchored_def by (metis insertE option.inject prod.inject)
    then show ?thesis by (rule mono)
  qed (use ij in simp)
  have link': "same s' x y" if "link (insert (i, c) P) x y" for x y
  proof -
    obtain d where d: "(x, d) \<in> insert (i, c) P" "(y, d) \<in> insert (i, c) P" using \<open>link _ x y\<close> link_def by auto
    show ?thesis
    proof (cases "d = c")
      case True
      then show ?thesis using toj d same_sym [OF s'(2)] same_trans [OF s'(2)] by blast
    next
      case False
      then have "link P x y" using d by (auto simp: link_def)
      then show ?thesis using anchored_link [OF a] mono by blast
    qed
  qed
  have sub: "(link P)\<^sup>*\<^sup>* x y \<Longrightarrow> (link (insert (i, c) P))\<^sup>*\<^sup>* x y" for x y
    by (rule rtranclp_mono [THEN predicate2D, rotated]) (auto simp: link_def)
  have "(link (insert (i, c) P))\<^sup>*\<^sup>* x y \<Longrightarrow> x < extent s \<Longrightarrow> same s' x y" for x y
    by (induction rule: rtranclp_induct)
      (use same_refl [OF s'(2)] s'(3) same_trans [OF s'(2)] link' in \<open>auto\<close>)
  moreover have "(link (insert (i, c) P))\<^sup>*\<^sup>* x y" if "same s' x y" for x y
  proof -
    have e: "same s u w \<Longrightarrow> (link (insert (i, c) P))\<^sup>*\<^sup>* u w" for u w
      using a sub by (simp add: anchored_def)
    have "link (insert (i, c) P) i j" "link (insert (i, c) P) j i" using jP by (auto simp: link_def)
    then have "(link (insert (i, c) P))\<^sup>*\<^sup>* i j" "(link (insert (i, c) P))\<^sup>*\<^sup>* j i" by auto
    then show ?thesis using s'(4) [of x y] that e by (metis rtranclp_trans)
  qed
  moreover have "x < extent s \<and> y < extent s" if "same s' x y" for x y
    using same_bound [OF s'(2) that] s'(3) by simp
  ultimately have same': "same s' x y \<longleftrightarrow> x < extent s' \<and> y < extent s' \<and> (link (insert (i, c) P))\<^sup>*\<^sup>* x y" for x y
    using s'(3) by auto
  have "\<exists>j'. anchor d = Some j' \<and> same s' k j'" if "(k, d) \<in> insert (i, c) P" for k d
    using that a some ij mono unfolding anchored_def by blast
  then have "anchored (insert (i, c) P) anchor s'"
    using a i s'(2,3) same' unfolding anchored_def by auto
  then show ?thesis using s'(1,3) by blast
qed

lemma anchor_coords_spec:
  "anchored P anchor s \<Longrightarrow> i < extent s \<Longrightarrow>
   \<exists>anchor' s'. anchor_coords weld i cs (anchor, s) = Some (anchor', s') \<and> extent s' = extent s \<and>
     anchored (P \<union> {(i, c) | c. c \<in> set cs \<and> is_identity_grade (c_scheme c)}) anchor' s'"
proof (induction cs arbitrary: P anchor s)
  case (Cons c cs)
  show ?case
  proof (cases "is_identity_grade (c_scheme c)")
    case False
    then have "{(i, d) | d. d \<in> set (c # cs) \<and> is_identity_grade (c_scheme d)}
        = {(i, d) | d. d \<in> set cs \<and> is_identity_grade (c_scheme d)}" by auto
    then show ?thesis using Cons.IH [OF Cons.prems] False by simp
  next
    case True
    then have P: "P \<union> {(i, d) | d. d \<in> set (c # cs) \<and> is_identity_grade (c_scheme d)}
        = insert (i, c) P \<union> {(i, d) | d. d \<in> set cs \<and> is_identity_grade (c_scheme d)}" by auto
    show ?thesis
    proof (cases "anchor c")
      case None
      have step: "anchor_coords weld i (c # cs) (anchor, s) = anchor_coords weld i cs (anchor(c \<mapsto> i), s)"
        using True None by simp
      show ?thesis unfolding P step by (rule Cons.IH [OF anchored_new [OF Cons.prems None] Cons.prems(2)])
    next
      case (Some j)
      obtain s1 where s1: "weld s i j = Some s1" "extent s1 = extent s" "anchored (insert (i, c) P) anchor s1"
        using anchored_weld [OF Cons.prems Some] by blast
      have step: "anchor_coords weld i (c # cs) (anchor, s) = anchor_coords weld i cs (anchor, s1)"
        using True Some s1(1) by simp
      show ?thesis using Cons.IH [OF s1(3)] Cons.prems(2) s1(2) unfolding P step by simp
    qed
  qed
qed simp

lemma anchor_all_spec:
  "anchored P anchor s \<Longrightarrow> i + length css = extent s \<Longrightarrow>
   \<exists>anchor' s'. anchor_all weld i css (anchor, s) = Some (anchor', s') \<and> extent s' = extent s \<and>
     anchored (P \<union> {(i + k, c) | k c. k < length css \<and> c \<in> set (css ! k) \<and> is_identity_grade (c_scheme c)}) anchor' s'"
proof (induction css arbitrary: P anchor s i)
  case (Cons cs css)
  let ?Q = "P \<union> {(i, c) | c. c \<in> set cs \<and> is_identity_grade (c_scheme c)}"
  obtain a1 s1 where 1: "anchor_coords weld i cs (anchor, s) = Some (a1, s1)" "extent s1 = extent s"
      "anchored ?Q a1 s1"
    using anchor_coords_spec [OF Cons.prems(1), of i cs] Cons.prems(2) by auto
  have "?Q \<union> {(Suc i + k, c) | k c. k < length css \<and> c \<in> set (css ! k) \<and> is_identity_grade (c_scheme c)}
      = P \<union> {(i + k, c) | k c. k < length (cs # css) \<and> c \<in> set ((cs # css) ! k) \<and> is_identity_grade (c_scheme c)}"
    by (force simp: nth_Cons' less_Suc_eq_0_disj)
  with Cons.IH [OF 1(3), of "Suc i"] 1(1,2) Cons.prems(2) show ?case by simp
qed simp

lemma anchored_start:
  assumes "inv s" "\<And>x y. same s x y \<longleftrightarrow> x = y \<and> x < extent s"
  shows "anchored {} Map.empty s"
proof -
  have "link {} = (\<lambda>x y. False)" by (simp add: link_def fun_eq_iff)
  moreover have "(\<lambda>x y. False)\<^sup>*\<^sup>* x y \<longleftrightarrow> x = y" for x y :: nat by (auto elim: rtranclp.cases)
  ultimately show ?thesis using assms by (auto simp: anchored_def)
qed

end

lemma uf_total:
  assumes "uf_depth d p" "i < length p"
  shows "\<exists>r. uf_root p i r \<and> r < length p"
  using uf_find_spec [OF assms] uf_root_props assms by blast

lemma uf_same_iff:
  assumes "uf_root p u z" "uf_root p v w" "u < length p" "v < length p"
  shows "uf_same p u v \<longleftrightarrow> z = w"
proof
  assume "uf_same p u v"
  then obtain r where "uf_root p u r" "uf_root p v r" by (auto simp: uf_same_def)
  then show "z = w" using uf_root_unique [OF assms(1)] uf_root_unique [OF assms(2)] by simp
next
  assume "z = w"
  then show "uf_same p u v" using assms unfolding uf_same_def by blast
qed

lemma uf_union_spec:
  assumes "uf_inv p" "a < length p" "b < length p"
  shows "\<exists>p'. uf_union p a b = Some p' \<and> uf_inv p' \<and> length p' = length p \<and>
    (\<forall>x y. uf_same p' x y \<longleftrightarrow> uf_same p x y \<or> uf_same p x a \<and> uf_same p b y \<or> uf_same p x b \<and> uf_same p a y)"
proof -
  obtain d where d: "uf_depth d p" using assms(1) by (auto simp: uf_inv_def)
  obtain p1 ra where 1: "uf_find p a = Some (p1, ra)" "uf_root p a ra" "uf_depth d p1" "length p1 = length p"
      "\<And>j x. j < length p \<Longrightarrow> uf_root p1 j x \<longleftrightarrow> uf_root p j x"
    using uf_find_spec [OF d assms(2)] by blast
  obtain p2 rb where 2: "uf_find p1 b = Some (p2, rb)" "uf_root p1 b rb" "uf_depth d p2" "length p2 = length p"
      "\<And>j x. j < length p \<Longrightarrow> uf_root p2 j x \<longleftrightarrow> uf_root p j x"
    using uf_find_spec [OF 1(3), of b] assms(3) 1(4,5) by auto
  have rb: "uf_root p b rb" using 1(5) 2(2) assms(3) by simp
  have lt: "ra < length p" "rb < length p" using uf_root_props [OF _ d] 1(2) rb assms(2,3) by blast+
  define p' where "p' = (if ra \<noteq> rb then p2[ra := rb] else p2)"
  have root': "uf_root p' j (if x = ra then rb else x)" if "j < length p" "uf_root p j x" for j x
  proof (cases "ra = rb")
    case True
    then show ?thesis using that 2(5) by (simp add: p'_def)
  next
    case False
    have fix2: "p2 ! ra = ra" "p2 ! rb = rb"
      using uf_root_fix 2(5) 1(2) rb assms(2,3) by blast+
    have "uf_root (p2[ra := rb]) j (if x = ra then rb else x)"
      using uf_link [OF 2(3) fix2(1) _ fix2(2) _ False] lt 2(4,5) that by simp
    then show ?thesis using False by (simp add: p'_def)
  qed
  have inv: "uf_inv p'"
  proof (cases "ra = rb")
    case True
    then show ?thesis using 2(3) by (auto simp: p'_def uf_inv_def)
  next
    case False
    have "p2 ! ra = ra" "p2 ! rb = rb" using uf_root_fix 2(5) 1(2) rb assms(2,3) by blast+
    then show ?thesis using uf_link [OF 2(3)] lt 2(4) False by (simp add: p'_def)
  qed
  have len: "length p' = length p" using 2(4) by (simp add: p'_def)
  have same': "uf_same p' x y \<longleftrightarrow> uf_same p x y \<or> uf_same p x a \<and> uf_same p b y \<or> uf_same p x b \<and> uf_same p a y"
    for x y
  proof (cases "x < length p \<and> y < length p")
    case True
    obtain rx ry where r: "uf_root p x rx" "uf_root p y ry" using uf_total [OF d] True by blast
    have u: "uf_root p u z \<Longrightarrow> uf_root p v w \<Longrightarrow> u < length p \<Longrightarrow> v < length p \<Longrightarrow> uf_same p u v \<longleftrightarrow> z = w" for u v z w
      by (rule uf_same_iff)
    have "uf_same p' x y \<longleftrightarrow> (if rx = ra then rb else rx) = (if ry = ra then rb else ry)"
      using uf_same_iff [OF root' [OF _ r(1)] root' [OF _ r(2)]] True len by simp
    then show ?thesis
      using u [OF r] u [OF r(1) 1(2)] u [OF rb r(2)] u [OF r(1) rb] u [OF 1(2) r(2)] True assms(2,3) by auto
  qed (auto simp: uf_same_def len)
  have "uf_union p a b = Some p'" using 1(1) 2(1) by (simp add: uf_union_def p'_def)
  with inv len same' show ?thesis by blast
qed

interpretation uf: weld_store uf_inv uf_union uf_same length
proof unfold_locales
  fix p :: "nat list" and a b x y z
  assume inv: "uf_inv p"
  then obtain d where d: "uf_depth d p" by (auto simp: uf_inv_def)
  show "a < length p \<Longrightarrow> b < length p \<Longrightarrow> \<exists>p'. uf_union p a b = Some p' \<and> uf_inv p' \<and> length p' = length p \<and>
      (\<forall>x y. uf_same p' x y \<longleftrightarrow> uf_same p x y \<or> uf_same p x a \<and> uf_same p b y \<or> uf_same p x b \<and> uf_same p a y)"
    by (rule uf_union_spec [OF inv])
  show "x < length p \<Longrightarrow> uf_same p x x" using uf_total [OF d] by (auto simp: uf_same_def)
  show "uf_same p x y \<Longrightarrow> uf_same p y x" by (auto simp: uf_same_def)
  show "uf_same p x y \<Longrightarrow> uf_same p y z \<Longrightarrow> uf_same p x z"
    unfolding uf_same_def using uf_root_unique by blast
  show "uf_same p x y \<Longrightarrow> x < length p \<and> y < length p" by (simp add: uf_same_def)
qed

subsection \<open>Grouping\<close>

lemma group_push_spec:
  "distinct (map fst g) \<Longrightarrow>
   distinct (map fst (group_push r i g)) \<and>
   map_of (group_push r i g) = (map_of g)(r \<mapsto> (case map_of g r of None \<Rightarrow> [i] | Some ms \<Rightarrow> ms @ [i])) \<and>
   fst ` set (group_push r i g) = insert r (fst ` set g)"
  by (induction r i g rule: group_push.induct) (auto simp: fun_eq_iff split: if_splits)

lemma group_all_spec:
  "uf_depth d p \<Longrightarrow> \<forall>i \<in> set is. i < length p \<Longrightarrow> distinct (map fst g) \<Longrightarrow>
   \<forall>i < length p. uf_root p i (rt i) \<Longrightarrow>
   \<exists>g'. group_all p is g = Some g' \<and> distinct (map fst g') \<and>
     (\<forall>r. map_of g' r = (let new = filter (\<lambda>i. rt i = r) is in
        case map_of g r of None \<Rightarrow> if new = [] then None else Some new | Some ms \<Rightarrow> Some (ms @ new)))"
proof (induction "is" arbitrary: p g)
  case (Cons i "is")
  have i: "i < length p" using Cons.prems(2) by simp
  obtain p' r where f: "uf_find p i = Some (p', r)" "uf_root p i r" "uf_depth d p'" "length p' = length p"
      "\<And>j x. j < length p \<Longrightarrow> uf_root p' j x \<longleftrightarrow> uf_root p j x"
    using uf_find_spec [OF Cons.prems(1) i] by blast
  have r: "r = rt i" using uf_root_unique f(2) Cons.prems(4) i by blast
  note push = group_push_spec [OF Cons.prems(3), of r i]
  obtain g' where g': "group_all p' is (group_push r i g) = Some g'" "distinct (map fst g')"
      "\<And>q. map_of g' q = (let new = filter (\<lambda>i. rt i = q) is in
        case map_of (group_push r i g) q of None \<Rightarrow> if new = [] then None else Some new | Some ms \<Rightarrow> Some (ms @ new))"
    using Cons.IH [OF f(3), of "group_push r i g"] Cons.prems(2,4) f(4,5) push by auto
  have "map_of g' q = (let new = filter (\<lambda>i. rt i = q) (i # is) in
        case map_of g q of None \<Rightarrow> if new = [] then None else Some new | Some ms \<Rightarrow> Some (ms @ new))" for q
    using g'(3) [of q] push r by (auto simp: Let_def split: option.splits)
  with g'(1,2) f(1) show ?case by simp
qed (auto split: option.splits)

subsection \<open>Clusters are the identity classes\<close>

text \<open>Two pieces of evidence are linked when their effective coordinates share one of identity
  grade; \<open>welded\<close> is the closure, over the evidence.\<close>

definition weld_link :: "codecs \<Rightarrow> evidence list \<Rightarrow> nat \<Rightarrow> nat \<Rightarrow> bool" where
  "weld_link cs ev i j \<longleftrightarrow> i < length ev \<and> j < length ev \<and>
     (\<exists>c. is_identity_grade (c_scheme c) \<and> c \<in> set (coords_of cs (ev ! i)) \<and> c \<in> set (coords_of cs (ev ! j)))"

definition welded :: "codecs \<Rightarrow> evidence list \<Rightarrow> nat \<Rightarrow> nat \<Rightarrow> bool" where
  "welded cs ev i j \<longleftrightarrow> i < length ev \<and> j < length ev \<and> (weld_link cs ev)\<^sup>*\<^sup>* i j"

text \<open>The groups partition the indices into the welded classes, each in ascending order.\<close>

definition groups_ok :: "codecs \<Rightarrow> evidence list \<Rightarrow> (nat \<times> nat list) list \<Rightarrow> bool" where
  "groups_ok cs ev g \<longleftrightarrow> distinct (map fst g) \<and>
     (\<forall>(r, ms) \<in> set g. ms \<noteq> [] \<and> sorted ms \<and> distinct ms \<and> (\<forall>i \<in> set ms. set ms = {j. welded cs ev i j})) \<and>
     (\<forall>i < length ev. \<exists>(r, ms) \<in> set g. i \<in> set ms) \<and> distinct (map snd g)"

lemma uf_start: "uf_depth (\<lambda>i. 0) [0..<n]" "uf_same [0..<n] x y \<longleftrightarrow> x = y \<and> x < n"
proof -
  show "uf_depth (\<lambda>i. 0) [0..<n]" by (simp add: uf_depth_def)
  have "uf_root [0..<n] i r \<longleftrightarrow> r = i" if "i < n" for i r by (rule uf_root_self) (simp add: that)
  then show "uf_same [0..<n] x y \<longleftrightarrow> x = y \<and> x < n" by (auto simp: uf_same_def)
qed

lemma cluster_groups_ok: "\<exists>g. cluster_groups cs ev = Some g \<and> groups_ok cs ev g"
proof -
  let ?css = "map (coords_of cs) ev"
  have start: "uf.anchored {} Map.empty [0..<length ev]"
    using uf_start by (intro uf.anchored_start) (auto simp: uf_inv_def)
  define P where "P = {(k, c) | k c. k < length ev \<and> c \<in> set (coords_of cs (ev ! k)) \<and> is_identity_grade (c_scheme c)}"
  obtain anchor p where a: "anchor_all uf_union 0 ?css (Map.empty, [0..<length ev]) = Some (anchor, p)"
      "length p = length ev" "uf.anchored P anchor p"
  proof -
    have "{} \<union> {(0 + k, c) | k c. k < length ?css \<and> c \<in> set (?css ! k) \<and> is_identity_grade (c_scheme c)} = P"
      by (auto simp: P_def)
    then show ?thesis using uf.anchor_all_spec [OF start, of 0 ?css] that by (metis (no_types, lifting) add_0 diff_zero length_map length_upt)
  qed
  have link: "uf.link P = weld_link cs ev"
    by (auto simp: uf.link_def weld_link_def P_def fun_eq_iff)
  have same: "uf_same p x y \<longleftrightarrow> welded cs ev x y" for x y
    using a(2,3) unfolding uf.anchored_def link by (simp add: welded_def)
  obtain d where d: "uf_depth d p" using a(3) by (auto simp: uf.anchored_def uf_inv_def)
  define rt where "rt i = (THE r. uf_root p i r)" for i
  have rt: "uf_root p i (rt i)" if "i < length p" for i
    unfolding rt_def using uf_total [OF d that] uf_root_unique by (metis the_equality)
  obtain g where g: "group_all p [0..<length ev] [] = Some g" "distinct (map fst g)"
      "\<And>r. map_of g r = (let new = filter (\<lambda>i. rt i = r) [0..<length ev] in if new = [] then None else Some new)"
    using group_all_spec [OF d, of "[0..<length ev]" "[]" rt] rt a(2) by auto
  have mem: "(r, ms) \<in> set g \<longleftrightarrow> ms = filter (\<lambda>i. rt i = r) [0..<length ev] \<and> ms \<noteq> []" for r ms
    using g(3) [of r] map_of_eq_Some_iff [OF g(2), of r ms] by (auto simp: Let_def split: if_splits)
  have rteq: "rt i = rt j \<longleftrightarrow> welded cs ev i j" if "i < length ev" "j < length ev" for i j
    unfolding same [symmetric] using uf_same_iff [OF rt rt, of i j] that a(2) by simp
  have "groups_ok cs ev g"
    unfolding groups_ok_def
  proof (intro conjI)
    show "\<forall>i < length ev. \<exists>(r, ms) \<in> set g. i \<in> set ms"
    proof (intro allI impI)
      fix i assume i: "i < length ev"
      define ms where "ms = filter (\<lambda>j. rt j = rt i) [0..<length ev]"
      have im: "i \<in> set ms" using i by (simp add: ms_def)
      then have "ms \<noteq> []" by auto
      then have "(rt i, ms) \<in> set g" by (simp only: mem ms_def simp_thms)
      then show "\<exists>(r, ms) \<in> set g. i \<in> set ms" using im by blast
    qed
    show "\<forall>(r, ms) \<in> set g. ms \<noteq> [] \<and> sorted ms \<and> distinct ms \<and> (\<forall>i \<in> set ms. set ms = {j. welded cs ev i j})"
    proof (clarify, intro conjI ballI)
      fix r ms assume "(r, ms) \<in> set g"
      then have m: "ms = filter (\<lambda>i. rt i = r) [0..<length ev]" "ms \<noteq> []" using mem by blast+
      show "ms \<noteq> []" by (rule m(2))
      show "sorted ms" "distinct ms" unfolding m(1) by (simp_all add: sorted_wrt_filter)
      fix i assume i: "i \<in> set ms"
      have "j \<in> set ms \<longleftrightarrow> welded cs ev i j" for j
        using i rteq [of i j] unfolding m(1) by (cases "j < length ev") (auto simp: welded_def)
      then show "set ms = {j. welded cs ev i j}" by blast
    qed
    show "distinct (map snd g)"
    proof -
      have "inj_on snd (set g)"
      proof (rule inj_onI)
        fix a b assume ab: "a \<in> set g" "b \<in> set g" "snd a = snd b"
        have a: "snd a = filter (\<lambda>i. rt i = fst a) [0..<length ev]" "snd a \<noteq> []"
          using mem [of "fst a" "snd a"] ab(1) by (metis prod.collapse)+
        have b: "snd b = filter (\<lambda>i. rt i = fst b) [0..<length ev]"
          using mem [of "fst b" "snd b"] ab(2) by (metis prod.collapse)
        obtain i where i: "i \<in> set (snd a)" using a(2) by (cases "snd a") auto
        have "i \<in> set (filter (\<lambda>i. rt i = fst a) [0..<length ev])" using i a(1) by metis
        then have "rt i = fst a" by simp
        moreover have "i \<in> set (filter (\<lambda>i. rt i = fst b) [0..<length ev])" using i ab(3) b by metis
        then have "rt i = fst b" by simp
        ultimately show "a = b" using ab(3) by (simp add: prod_eq_iff)
      qed
      moreover have "distinct g" using g(2) by (simp add: distinct_map)
      ultimately show ?thesis by (simp add: distinct_map)
    qed
  qed (rule g(2))
  moreover have "cluster_groups cs ev = Some g" by (simp add: cluster_groups_def a(1) g(1))
  ultimately show ?thesis by blast
qed

text \<open>
  C1. Clustering welds exactly what identity-grade digests tie together. Whatever order the hash map
  of groups iterates in, clustering returns, and its clusters are built one from each class of
  the equivalence that sharing an identity-grade coordinate generates: the index lists are the
  classes (so every piece of evidence is in one cluster and one only, and a weak digest never
  joins two), and each cluster lists its findings in evidence order.
\<close>

theorem cluster_identity:
  assumes "\<And>xs. mset (iter xs) = mset xs"
  shows "\<exists>res classes. cluster_evidence cs iter ev queried = Some res \<and>
     mset (wr_clusters res) = image_mset (build_cluster cs ev queried) (mset classes) \<and>
     distinct classes \<and>
     (\<forall>i < length ev. \<exists>ms \<in> set classes. i \<in> set ms) \<and>
     (\<forall>ms \<in> set classes. ms \<noteq> [] \<and> sorted ms \<and> distinct ms \<and> (\<forall>i \<in> set ms. set ms = {j. welded cs ev i j})) \<and>
     (\<forall>ms \<in> set classes. cr_findings (build_cluster cs ev queried ms) = map (\<lambda>i. ev_finding (ev ! i)) ms)"
proof -
  obtain g where g: "cluster_groups cs ev = Some g" "groups_ok cs ev g" using cluster_groups_ok by blast
  obtain res where res: "cluster_evidence cs iter ev queried = Some res"
      "wr_clusters res = sort_key cluster_key (map (\<lambda>(root, members). build_cluster cs ev queried members) (iter g))"
    by (simp add: cluster_evidence_def g(1) Let_def)
  have "mset (wr_clusters res) = image_mset (\<lambda>(root, members). build_cluster cs ev queried members) (mset (iter g))"
    by (simp add: res(2))
  also have "\<dots> = image_mset (build_cluster cs ev queried) (mset (map snd g))"
    by (simp add: assms case_prod_beta' image_mset.compositionality comp_def)
  finally have m: "mset (wr_clusters res) = image_mset (build_cluster cs ev queried) (mset (map snd g))" .
  have ok: "\<forall>(r, ms) \<in> set g. ms \<noteq> [] \<and> sorted ms \<and> distinct ms \<and> (\<forall>i \<in> set ms. set ms = {j. welded cs ev i j})"
    using g(2) by (simp add: groups_ok_def)
  have cl: "ms \<noteq> [] \<and> sorted ms \<and> distinct ms \<and> (\<forall>i \<in> set ms. set ms = {j. welded cs ev i j})"
    if m: "ms \<in> set (map snd g)" for ms
  proof -
    obtain r where "(r, ms) \<in> set g" using m by auto
    from bspec [OF ok this] show ?thesis unfolding prod.case .
  qed
  have "distinct (map snd g)" using g(2) by (simp add: groups_ok_def)
  moreover have "\<exists>ms \<in> set (map snd g). i \<in> set ms" if i: "i < length ev" for i
  proof -
    have "\<forall>i < length ev. \<exists>(r, ms) \<in> set g. i \<in> set ms" using g(2) by (simp add: groups_ok_def)
    then obtain r ms where "(r, ms) \<in> set g" "i \<in> set ms" using i by blast
    then show ?thesis by (intro bexI [of _ ms]) force+
  qed
  moreover have "\<forall>ms \<in> set (map snd g). cr_findings (build_cluster cs ev queried ms) = map (\<lambda>i. ev_finding (ev ! i)) ms"
    using cl by (simp add: build_cluster_def Let_def sorted_sort_id)
  ultimately show ?thesis using res(1) m cl
    by (intro exI [of _ res] exI [of _ "map snd g"] conjI ballI allI impI) blast+
qed

theorem cluster_identity_witness:
  "\<exists>res classes. cluster_evidence ex_codecs rev
       [\<lparr>ev_found_at = ex_md5, ev_finding = ex_finding ''a'' []\<rparr>] ex_md5 = Some res \<and>
     mset (wr_clusters res) = image_mset (build_cluster ex_codecs
       [\<lparr>ev_found_at = ex_md5, ev_finding = ex_finding ''a'' []\<rparr>] ex_md5) (mset classes)"
  using cluster_identity [of rev ex_codecs "[\<lparr>ev_found_at = ex_md5, ev_finding = ex_finding ''a'' []\<rparr>]" ex_md5]
  by (metis mset_rev)

subsection \<open>The order of clusters\<close>

definition ex_tie :: "evidence list" where
  "ex_tie = [\<lparr>ev_found_at = ex_md5, ev_finding = ex_finding ''a'' [ex_sha 1]\<rparr>,
             \<lparr>ev_found_at = ex_md5, ev_finding = ex_finding ''b'' [ex_sha 2]\<rparr>]"

lemma ex_sha_wf: "coord_wf (ex_sha b)" by (simp add: coord_wf_def ex_sha_def)

lemma ex_sha_inj: "ex_sha 1 \<noteq> ex_sha 2" by (simp add: ex_sha_def)

lemma md5_before_sha256: "coord_key ex_md5 < coord_key (ex_sha b)"
proof -
  have "''md5'' < ''sha256''" by code_simp
  then show ?thesis by (simp add: coord_key_def ex_md5_def ex_sha_def less_prod_def)
qed

lemma sort_dedup_pair: "sort_dedup [ex_sha b, ex_md5] = [ex_md5, ex_sha b]"
  "sort_dedup [ex_md5, ex_sha b] = [ex_md5, ex_sha b]"
proof -
  have "ex_md5 \<noteq> ex_sha b" by (simp add: ex_md5_def ex_sha_def)
  then show "sort_dedup [ex_sha b, ex_md5] = [ex_md5, ex_sha b]"
    "sort_dedup [ex_md5, ex_sha b] = [ex_md5, ex_sha b]"
    using md5_before_sha256 [of b] by (simp_all add: sort_dedup_def)
qed

lemma ex_tie_coords: "map (coords_of cs) ex_tie = [[ex_md5, ex_sha 1], [ex_md5, ex_sha 2]]"
proof -
  have "finding_coords cs (ex_finding n [ex_sha b]) = [ex_sha b]" for n b
    by (simp add: ex_finding_coords ex_sha_wf)
  moreover have "c_scheme (ex_sha b) \<noteq> c_scheme ex_md5" for b by (simp add: ex_sha_def ex_md5_def)
  ultimately show ?thesis by (simp add: ex_tie_def coords_of_def sort_dedup_pair)
qed

lemma ex_tie_groups: "cluster_groups cs ex_tie = Some [(0, [0]), (1, [1])]"
proof -
  have find: "uf_find [0, 1] 0 = Some ([0, 1], 0)" "uf_find [0, 1] 1 = Some ([0, 1], 1)"
    by (subst uf_find.simps, simp)+
  have grade: "is_identity_grade (c_scheme (ex_sha b))" "\<not> is_identity_grade (c_scheme ex_md5)" for b
    by (simp_all add: is_identity_grade_def ex_sha_def ex_md5_def)
  have "ex_sha 2 \<noteq> ex_sha 1" by (simp add: ex_sha_def)
  then have "anchor_all uf_union 0 (map (coords_of cs) ex_tie) (Map.empty, [0, 1])
      = Some ([ex_sha 1 \<mapsto> 0, ex_sha 2 \<mapsto> 1], [0, 1])"
    by (simp add: ex_tie_coords grade)
  moreover have "[0..<length ex_tie] = [0, 1]" by (simp add: ex_tie_def upt_rec)
  ultimately show ?thesis using find by (simp add: cluster_groups_def)
qed

text \<open>
  The result order is not determined by the evidence: when two clusters tie on every key the sort
  uses (as two anchored clusters do that share the queried weak digest, the collision case), the
  hash map's iteration order decides which comes first.
\<close>

theorem cluster_order_depends_on_map:
  "map_option wr_clusters (cluster_evidence cs (\<lambda>g. g) ex_tie ex_md5)
     \<noteq> map_option wr_clusters (cluster_evidence cs rev ex_tie ex_md5)"
proof -
  define c where "c i = build_cluster cs ex_tie ex_md5 [i]" for i
  have co: "coords_of cs (ex_tie ! 0) = [ex_md5, ex_sha 1]" "coords_of cs (ex_tie ! 1) = [ex_md5, ex_sha 2]"
    using ex_tie_coords by (simp_all add: ex_tie_def)
  have coords: "cr_coords (c 0) = [ex_md5, ex_sha 1]" "cr_coords (c 1) = [ex_md5, ex_sha 2]"
    using co by (simp_all add: c_def build_cluster_def Let_def sort_dedup_pair)
  have "cr_anchored (c i) \<and> cr_primary (c i) \<and> length (cr_findings (c i)) = 1" if "i = 0 \<or> i = 1" for i
  proof -
    have "is_identity_grade (c_scheme (ex_sha b))" for b by (simp add: is_identity_grade_def ex_sha_def)
    then show ?thesis using that co by (auto simp: c_def build_cluster_def Let_def sort_dedup_pair)
  qed
  then have key: "cluster_key (c 1) = cluster_key (c 0)" using coords by (simp add: cluster_key_def)
  have "cluster_evidence cs (\<lambda>g. g) ex_tie ex_md5 \<noteq> None" by (simp add: cluster_evidence_def ex_tie_groups)
  have "map_option wr_clusters (cluster_evidence cs (\<lambda>g. g) ex_tie ex_md5) = Some [c 0, c 1]"
    "map_option wr_clusters (cluster_evidence cs rev ex_tie ex_md5) = Some [c 1, c 0]"
    using key by (simp_all add: cluster_evidence_def ex_tie_groups Let_def c_def)
  moreover have "c 0 \<noteq> c 1" using coords by (metis ex_sha_inj list.inject)
  ultimately show ?thesis by (metis list.inject option.inject)
qed

end
