(* ===== verification/Hdx_Cache.thy ===== *)
theory Hdx_Cache
  imports Hdx_Walk
begin

text \<open>
  \<open>src/src/cache.rs\<close>: the observation store, two SQL tables. \<open>observations\<close> is keyed by backend and
  queried coordinate, \<open>observation_coords\<close> is a set of index rows (a list without repetition; SQL
  leaves the order of rows open, and nothing below depends on it). Writing and reading JSON is the
  parameter \<open>json\<close>, the clock an argument.
\<close>

definition MISS_TTL_SECS :: nat where "MISS_TTL_SECS = 3 * 24 * 3600"

record 'j json_codec =
  js_write :: "finding list \<Rightarrow> 'j option"
  js_read_list :: "'j \<Rightarrow> finding list option"
  js_read_one :: "'j \<Rightarrow> finding option"

record 'j obs_row =
  or_hit :: bool
  or_finding :: "'j option"
  or_fetched_at :: nat

type_synonym index_row = "string \<times> byte list \<times> string \<times> string"

record 'j cache =
  cc_observations :: "((string \<times> string) \<times> 'j obs_row) list"
  cc_coords :: "index_row list"

datatype cached = Hit | Miss | Absent

text \<open>Stored answers are arrays; older rows hold a single object.\<close>

definition parse_findings :: "'j json_codec \<Rightarrow> 'j \<Rightarrow> finding list" where
  "parse_findings json j =
     (case js_read_list json j of
        Some fs \<Rightarrow> fs
      | None \<Rightarrow> (case js_read_one json j of Some f \<Rightarrow> [f] | None \<Rightarrow> []))"

text \<open>\<open>INSERT OR IGNORE\<close>.\<close>

definition insert_ignore :: "'a \<Rightarrow> 'a list \<Rightarrow> 'a list" where
  "insert_ignore r rows = (if r \<in> set rows then rows else rows @ [r])"

definition index_row_of :: "string \<Rightarrow> string \<Rightarrow> coord \<Rightarrow> index_row" where
  "index_row_of backend coordinate c = (as_str (c_scheme c), c_digest c, backend, coordinate)"

definition index_coords ::
  "codecs \<Rightarrow> string \<Rightarrow> string \<Rightarrow> finding \<Rightarrow> 'j cache \<Rightarrow> 'j cache" where
  "index_coords cs backend coordinate f cache =
     (let coords = finding_coords cs f @ (case coord_parse cs coordinate of Inr c \<Rightarrow> [c] | Inl _ \<Rightarrow> []) in
      cache\<lparr>cc_coords := foldl (\<lambda>rows c. insert_ignore (index_row_of backend coordinate c) rows)
              (cc_coords cache) coords\<rparr>)"

definition backfill_coords :: "codecs \<Rightarrow> 'j json_codec \<Rightarrow> 'j cache \<Rightarrow> 'j cache" where
  "backfill_coords cs json cache =
     (if \<not> (cc_coords cache = [] \<and> list_ex (\<lambda>(k, row). or_hit row) (cc_observations cache)) then cache
      else foldl (\<lambda>cache ((backend, coordinate), row).
             case or_finding row of
               Some j \<Rightarrow> if or_hit row
                 then foldl (\<lambda>cache f. index_coords cs backend coordinate f cache) cache (parse_findings json j)
                 else cache
             | None \<Rightarrow> cache)
           cache (cc_observations cache))"

definition cache_get :: "nat \<Rightarrow> 'j cache \<Rightarrow> string \<Rightarrow> coord \<Rightarrow> cached" where
  "cache_get now cache backend c =
     (case map_of (cc_observations cache) (backend, coord_display c) of
        None \<Rightarrow> Absent
      | Some row \<Rightarrow>
          if or_hit row then (if or_finding row \<noteq> None then Hit else Absent)
          else if MISS_TTL_SECS < now - or_fetched_at row then Absent else Miss)"

definition cache_put ::
  "codecs \<Rightarrow> 'j json_codec \<Rightarrow> nat \<Rightarrow> string \<Rightarrow> coord \<Rightarrow> finding list \<Rightarrow> 'j cache \<Rightarrow> 'j cache" where
  "cache_put cs json now backend c fs cache =
     (let j = (if fs \<noteq> [] then js_write json fs else None);
          row = \<lparr>or_hit = (fs \<noteq> []), or_finding = j, or_fetched_at = now\<rparr>;
          cache' = cache\<lparr>cc_observations := hm_insert (backend, coord_display c) row (cc_observations cache)\<rparr>
      in foldl (\<lambda>cache f. index_coords cs backend (coord_display c) f cache) cache' fs)"

definition findings_for :: "'j json_codec \<Rightarrow> 'j cache \<Rightarrow> coord \<Rightarrow> finding list" where
  "findings_for json cache c =
     (let hits = concat (map (\<lambda>(s, d, backend, coordinate).
            if s = as_str (c_scheme c) \<and> d = c_digest c then
              case map_of (cc_observations cache) (backend, coordinate) of
                Some row \<Rightarrow> (if or_hit row then case or_finding row of Some j \<Rightarrow> [j] | None \<Rightarrow> [] else [])
              | None \<Rightarrow> []
            else []) (cc_coords cache))
      in concat (map (parse_findings json) (remdups hits)))"

subsection \<open>The tables after each operation\<close>

lemma set_insert_ignore [simp]: "set (insert_ignore r rows) = insert r (set rows)"
  by (auto simp: insert_ignore_def)

lemma set_index_fold:
  "set (foldl (\<lambda>rows c. insert_ignore (g c) rows) rows cs) = set rows \<union> g ` set cs"
  by (induction cs arbitrary: rows) auto

lemma index_coords_simps [simp]:
  "cc_observations (index_coords cs b q f cache) = cc_observations cache"
  "set (cc_coords (index_coords cs b q f cache)) = set (cc_coords cache) \<union>
     index_row_of b q ` (set (finding_coords cs f) \<union> {c. coord_parse cs q = Inr c})"
  by (auto simp: index_coords_def set_index_fold split: sum.splits)

lemma index_all:
  "cc_observations (foldl (\<lambda>cache f. index_coords cs b q f cache) cache fs) = cc_observations cache"
  "set (cc_coords (foldl (\<lambda>cache f. index_coords cs b q f cache) cache fs)) = set (cc_coords cache) \<union>
     (\<Union>f \<in> set fs. index_row_of b q ` (set (finding_coords cs f) \<union> {c. coord_parse cs q = Inr c}))"
  by (induction fs arbitrary: cache) auto

lemma cache_put_observations:
  "map_of (cc_observations (cache_put cs json now b c fs cache)) =
   (map_of (cc_observations cache))((b, coord_display c) \<mapsto>
     \<lparr>or_hit = (fs \<noteq> []), or_finding = (if fs \<noteq> [] then js_write json fs else None), or_fetched_at = now\<rparr>)"
  by (simp add: cache_put_def Let_def index_all)

lemma cache_put_coords:
  "set (cc_coords (cache_put cs json now b c fs cache)) = set (cc_coords cache) \<union>
     (\<Union>f \<in> set fs. index_row_of b (coord_display c) `
        (set (finding_coords cs f) \<union> {d. coord_parse cs (coord_display c) = Inr d}))"
  by (simp add: cache_put_def Let_def index_all)

text \<open>The stored answers one index row leads to, when it is one of the wanted digest.\<close>

definition row_answers :: "'j cache \<Rightarrow> coord \<Rightarrow> index_row \<Rightarrow> 'j list" where
  "row_answers cache c = (\<lambda>(s, d, backend, coordinate).
     if s = as_str (c_scheme c) \<and> d = c_digest c then
       case map_of (cc_observations cache) (backend, coordinate) of
         Some row \<Rightarrow> (if or_hit row then case or_finding row of Some j \<Rightarrow> [j] | None \<Rightarrow> [] else [])
       | None \<Rightarrow> []
     else [])"

lemma mem_answer:
  "j \<in> set (case m of Some row \<Rightarrow> (if h row then case g row of Some j \<Rightarrow> [j] | None \<Rightarrow> [] else [])
                 | None \<Rightarrow> []) \<longleftrightarrow> (\<exists>row. m = Some row \<and> h row \<and> g row = Some j)"
proof (cases m)
  case (Some row)
  then show ?thesis by (cases "g row"; cases "h row"; simp add: eq_commute)
qed simp

lemma row_answers_iff:
  "j \<in> set (row_answers cache c r) \<longleftrightarrow> (\<exists>b q row. r = index_row_of b q c \<and>
     map_of (cc_observations cache) (b, q) = Some row \<and> or_hit row \<and> or_finding row = Some j)"
proof -
  obtain s d b q where r: "r = (s, d, b, q)" by (cases r) blast
  show ?thesis
  proof (cases "s = as_str (c_scheme c) \<and> d = c_digest c")
    case True
    then have "row_answers cache c r = (case map_of (cc_observations cache) (b, q) of
        Some row \<Rightarrow> (if or_hit row then case or_finding row of Some j \<Rightarrow> [j] | None \<Rightarrow> [] else [])
      | None \<Rightarrow> [])"
      by (simp add: r row_answers_def)
    then have "j \<in> set (row_answers cache c r) \<longleftrightarrow>
        (\<exists>row. map_of (cc_observations cache) (b, q) = Some row \<and> or_hit row \<and> or_finding row = Some j)"
      by (simp only: mem_answer)
    moreover have "(\<exists>b' q'. r = index_row_of b' q' c \<and> P b' q') \<longleftrightarrow> P b q" for P
      using True by (simp add: r index_row_of_def)
    ultimately show ?thesis by simp
  next
    case False
    then have "row_answers cache c r = []" by (simp only: r row_answers_def prod.case if_False)
    moreover have "r \<noteq> index_row_of b' q' c" for b' q' using False by (auto simp: r index_row_of_def)
    ultimately show ?thesis by simp
  qed
qed

lemma findings_for_iff:
  "f \<in> set (findings_for json cache c) \<longleftrightarrow>
   (\<exists>b q row j. index_row_of b q c \<in> set (cc_coords cache) \<and>
      map_of (cc_observations cache) (b, q) = Some row \<and> or_hit row \<and> or_finding row = Some j \<and>
      f \<in> set (parse_findings json j))"
proof -
  have "findings_for json cache c
      = concat (map (parse_findings json) (remdups (concat (map (row_answers cache c) (cc_coords cache)))))"
    by (simp add: findings_for_def row_answers_def)
  then have "f \<in> set (findings_for json cache c) \<longleftrightarrow>
      (\<exists>r j. r \<in> set (cc_coords cache) \<and> j \<in> set (row_answers cache c r) \<and> f \<in> set (parse_findings json j))"
    by (simp del: split_paired_Ex add: Bex_def)
  also have "\<dots> \<longleftrightarrow> (\<exists>b q row j. index_row_of b q c \<in> set (cc_coords cache) \<and>
      map_of (cc_observations cache) (b, q) = Some row \<and> or_hit row \<and> or_finding row = Some j \<and>
      f \<in> set (parse_findings json j))"
    unfolding row_answers_iff by blast
  finally show ?thesis .
qed

lemma findings_forI:
  "index_row_of b q c \<in> set (cc_coords cache) \<Longrightarrow> map_of (cc_observations cache) (b, q) = Some row \<Longrightarrow>
   or_hit row \<Longrightarrow> or_finding row = Some j \<Longrightarrow> f \<in> set (parse_findings json j) \<Longrightarrow>
   f \<in> set (findings_for json cache c)"
  unfolding findings_for_iff by blast

text \<open>The store after answers were recorded one after the other, from an empty store.\<close>

type_synonym recording = "string \<times> coord \<times> finding list \<times> nat"

definition recorded :: "codecs \<Rightarrow> 'j json_codec \<Rightarrow> recording list \<Rightarrow> 'j cache" where
  "recorded cs json puts =
     foldl (\<lambda>cache (b, q, fs, t). cache_put cs json t b q fs cache) \<lparr>cc_observations = [], cc_coords = []\<rparr> puts"

text \<open>The last answer recorded for a backend and a coordinate, with its time.\<close>

definition last_answer :: "recording list \<Rightarrow> string \<times> string \<Rightarrow> (finding list \<times> nat) option" where
  "last_answer puts = map_of (rev (map (\<lambda>(b, q, fs, t). ((b, coord_display q), (fs, t))) puts))"

text \<open>Some answer recorded for them was not empty and mentions the digest, or the digest is the one asked for.\<close>

definition mentioned :: "codecs \<Rightarrow> recording list \<Rightarrow> string \<times> string \<Rightarrow> coord \<Rightarrow> bool" where
  "mentioned cs puts k c \<longleftrightarrow>
     (\<exists>(b, q, fs, t) \<in> set puts. (b, coord_display q) = k \<and> fs \<noteq> [] \<and> (c = q \<or> (\<exists>g \<in> set fs. c \<in> set (finding_coords cs g))))"

lemma as_str_inj: "as_str s = as_str s' \<longleftrightarrow> s = s'"
  using from_prefix_as_str option.inject by metis

lemma recorded_observations:
  "map_of (cc_observations (recorded cs json puts)) k =
     map_option (\<lambda>(fs, t). \<lparr>or_hit = (fs \<noteq> []), or_finding = (if fs \<noteq> [] then js_write json fs else None), or_fetched_at = t\<rparr>)
       (last_answer puts k)"
proof (induction puts rule: rev_induct)
  case (snoc p puts)
  obtain b q fs t where "p = (b, q, fs, t)" by (cases p)
  then show ?case using snoc by (simp add: recorded_def last_answer_def cache_put_observations)
qed (simp add: recorded_def last_answer_def)

lemma recorded_coords:
  assumes "\<forall>(b, q, fs, t) \<in> set puts. coord_wf q"
  shows "index_row_of b q c \<in> set (cc_coords (recorded cs json puts)) \<longleftrightarrow> mentioned cs puts (b, q) c"
  using assms
proof (induction puts rule: rev_induct)
  case (snoc p puts)
  obtain b' q' fs t where p: "p = (b', q', fs, t)" by (cases p)
  then have parse: "coord_parse cs (coord_display q') = Inr q'" using snoc.prems coord_parse_display by simp
  have row: "index_row_of b q c = index_row_of b' (coord_display q') d \<longleftrightarrow> b = b' \<and> q = coord_display q' \<and> c = d" for d
    by (auto simp: index_row_of_def as_str_inj intro!: coord.equality)
  have "index_row_of b q c \<in> set (cc_coords (recorded cs json (puts @ [p]))) \<longleftrightarrow>
      index_row_of b q c \<in> set (cc_coords (recorded cs json puts)) \<or>
      (\<exists>f \<in> set fs. b = b' \<and> q = coord_display q' \<and> (c = q' \<or> c \<in> set (finding_coords cs f)))"
    unfolding recorded_def p by (cases fs) (auto simp: cache_put_coords parse row)
  moreover have "mentioned cs (puts @ [p]) (b, q) c \<longleftrightarrow> mentioned cs puts (b, q) c \<or>
      (\<exists>f \<in> set fs. b = b' \<and> q = coord_display q' \<and> (c = q' \<or> c \<in> set (finding_coords cs f)))"
    by (cases fs) (auto simp: mentioned_def p)
  ultimately show ?case using snoc by simp
qed (simp add: recorded_def mentioned_def)

text \<open>
  C19. What the store gives for a digest, exactly. After any sequence of answers, the findings found under a
  digest are those of the latest answers of the backends and coordinates one of whose answers, this one or an
  earlier one, mentions the digest or was asked for it: nothing of a latest answer is lost from any digest
  it mentions, an answer that was replaced is gone (with an empty one nothing is left of a hit), and its
  digests then lead to the answer that replaced it. The store answers that it has a hit exactly when the
  latest answer is not empty.
\<close>

theorem cache_reachable:
  assumes "\<forall>(b, q, fs, t) \<in> set puts. coord_wf q \<and> (\<exists>j. js_write json fs = Some j \<and> js_read_list json j = Some fs)"
  shows "(f \<in> set (findings_for json (recorded cs json puts) c) \<longleftrightarrow>
            (\<exists>k fs t. last_answer puts k = Some (fs, t) \<and> f \<in> set fs \<and> mentioned cs puts k c)) \<and>
         (cache_get now (recorded cs json puts) b q = Hit \<longleftrightarrow>
            (\<exists>fs t. last_answer puts (b, coord_display q) = Some (fs, t) \<and> fs \<noteq> []))"
proof
  have wf: "\<forall>(b, q, fs, t) \<in> set puts. coord_wf q" using assms by fastforce
  have codec: "\<exists>j. js_write json fs = Some j \<and> js_read_list json j = Some fs" if "last_answer puts k = Some (fs, t)" for k fs t
  proof -
    have "(k, fs, t) \<in> set (map (\<lambda>(b, q, fs, t). ((b, coord_display q), (fs, t))) puts)"
      using map_of_SomeD [OF that [unfolded last_answer_def]] by simp
    then show ?thesis using assms by fastforce
  qed
  show "f \<in> set (findings_for json (recorded cs json puts) c) \<longleftrightarrow>
      (\<exists>k fs t. last_answer puts k = Some (fs, t) \<and> f \<in> set fs \<and> mentioned cs puts k c)"
  proof
    assume "f \<in> set (findings_for json (recorded cs json puts) c)"
    then obtain b q row j where r: "index_row_of b q c \<in> set (cc_coords (recorded cs json puts))"
      "map_of (cc_observations (recorded cs json puts)) (b, q) = Some row" "or_hit row" "or_finding row = Some j"
      "f \<in> set (parse_findings json j)"
      unfolding findings_for_iff by blast
    obtain fs t where l: "last_answer puts (b, q) = Some (fs, t)" "fs \<noteq> []" "js_write json fs = Some j"
      using r(2-4) by (auto simp: recorded_observations split: if_splits)
    then have "f \<in> set fs" using r(5) codec [OF l(1)] by (auto simp: parse_findings_def)
    then show "\<exists>k fs t. last_answer puts k = Some (fs, t) \<and> f \<in> set fs \<and> mentioned cs puts k c"
      using l(1) r(1) recorded_coords [OF wf] by blast
  next
    assume "\<exists>k fs t. last_answer puts k = Some (fs, t) \<and> f \<in> set fs \<and> mentioned cs puts k c"
    then obtain b q fs t where k: "last_answer puts (b, q) = Some (fs, t)" "f \<in> set fs" "mentioned cs puts (b, q) c" by auto
    obtain j where j: "js_write json fs = Some j" "js_read_list json j = Some fs" using codec [OF k(1)] by blast
    have "fs \<noteq> []" using k(2) by auto
    then have "map_of (cc_observations (recorded cs json puts)) (b, q) =
        Some \<lparr>or_hit = True, or_finding = Some j, or_fetched_at = t\<rparr>"
      by (simp add: recorded_observations k(1) j(1))
    moreover have "index_row_of b q c \<in> set (cc_coords (recorded cs json puts))" using k(3) recorded_coords [OF wf] by blast
    moreover have "f \<in> set (parse_findings json j)" using j(2) k(2) by (simp add: parse_findings_def)
    ultimately show "f \<in> set (findings_for json (recorded cs json puts) c)" by (intro findings_forI) auto
  qed
  show "cache_get now (recorded cs json puts) b q = Hit \<longleftrightarrow>
      (\<exists>fs t. last_answer puts (b, coord_display q) = Some (fs, t) \<and> fs \<noteq> [])"
  proof (cases "last_answer puts (b, coord_display q)")
    case (Some a)
    obtain fs t where "a = (fs, t)" by (cases a)
    then show ?thesis using Some codec [of "(b, coord_display q)" fs t]
      by (auto simp: cache_get_def recorded_observations)
  qed (simp add: cache_get_def recorded_observations)
qed

text \<open>A codec that stores the list itself, for the examples.\<close>

definition ex_json :: "finding list json_codec" where
  "ex_json = \<lparr>js_write = Some, js_read_list = Some, js_read_one = (\<lambda>_. None)\<rparr>"

definition ex_empty :: "finding list cache" where
  "ex_empty = \<lparr>cc_observations = [], cc_coords = []\<rparr>"

text \<open>A finding recorded for an MD5 is found by the SHA-256 it mentions, until the MD5 is refreshed with nothing.\<close>

theorem cache_reachable_witness:
  "ex_finding ''a'' [ex_sha 1] \<in> set (findings_for ex_json
     (recorded ex_codecs ex_json [(''b'', ex_md5, [ex_finding ''a'' [ex_sha 1]], 7), (''c'', ex_md5, [], 9)]) (ex_sha 1)) \<and>
   ex_finding ''a'' [ex_sha 1] \<notin> set (findings_for ex_json
     (recorded ex_codecs ex_json [(''b'', ex_md5, [ex_finding ''a'' [ex_sha 1]], 7), (''b'', ex_md5, [], 9)]) (ex_sha 1))"
proof -
  let ?p = "[(''b'', ex_md5, [ex_finding ''a'' [ex_sha 1]], 7), (''c'', ex_md5, [], 9)] :: recording list"
  let ?r = "[(''b'', ex_md5, [ex_finding ''a'' [ex_sha 1]], 7), (''b'', ex_md5, [], 9)] :: recording list"
  have wf: "coord_wf ex_md5" by (simp add: coord_wf_def ex_md5_def)
  have c: "ex_sha 1 \<in> set (finding_coords ex_codecs (ex_finding ''a'' [ex_sha 1]))"
    by (simp add: ex_finding_coords ex_sha_wf)
  have p: "\<forall>(b, q, fs, t) \<in> set ?p. coord_wf q \<and> (\<exists>j. js_write ex_json fs = Some j \<and> js_read_list ex_json j = Some fs)"
    and r: "\<forall>(b, q, fs, t) \<in> set ?r. coord_wf q \<and> (\<exists>j. js_write ex_json fs = Some j \<and> js_read_list ex_json j = Some fs)"
    by (simp_all add: ex_json_def wf)
  have "last_answer ?p (''b'', coord_display ex_md5) = Some ([ex_finding ''a'' [ex_sha 1]], 7)"
    by (simp add: last_answer_def)
  moreover have "mentioned ex_codecs ?p (''b'', coord_display ex_md5) (ex_sha 1)" using c by (simp add: mentioned_def)
  ultimately have found: "ex_finding ''a'' [ex_sha 1] \<in> set (findings_for ex_json (recorded ex_codecs ex_json ?p) (ex_sha 1))"
    using cache_reachable [OF p] by fastforce
  have "fs = []" if "last_answer ?r k = Some (fs, t)" for k fs t using that by (auto simp: last_answer_def split: if_splits)
  then show ?thesis using found cache_reachable [OF r] by fastforce
qed

text \<open>
  The freshness verdict after an answer is recorded: a hit stays a hit, however old and whatever
  the clock reads; an empty answer counts as a miss for exactly three days and is forgotten after
  that; and recording leaves every other backend's or coordinate's verdict as it was.
\<close>

theorem cache_get_spec:
  assumes "fs \<noteq> [] \<longrightarrow> js_write json fs \<noteq> None"
  shows "cache_get now (cache_put cs json t b q fs cache) b q =
           (if fs \<noteq> [] then Hit else if t + 259200 < now then Absent else Miss) \<and>
         ((b', coord_display q') \<noteq> (b, coord_display q) \<longrightarrow>
           cache_get now (cache_put cs json t b q fs cache) b' q' = cache_get now cache b' q')"
  using assms by (auto simp: cache_get_def cache_put_observations MISS_TTL_SECS_def)

theorem cache_get_spec_witness:
  "cache_get 259201 (cache_put ex_codecs ex_json 0 ''b'' ex_md5 [] ex_empty) ''b'' ex_md5 = Absent \<and>
   cache_get 259200 (cache_put ex_codecs ex_json 0 ''b'' ex_md5 [] ex_empty) ''b'' ex_md5 = Miss"
  using cache_get_spec [of "[]" ex_json 259201 ex_codecs 0 "''b''" ex_md5 ex_empty]
    cache_get_spec [of "[]" ex_json 259200 ex_codecs 0 "''b''" ex_md5 ex_empty] by simp

subsection \<open>The walk over the store\<close>










end
