(* ===== verification/Hdx_Erofs.thy ===== *)
theory Hdx_Erofs
  imports Hdx_View Hdx_Text
begin

text \<open>
  \<open>src/src/erofs.rs\<close>, the metadata half: superblock, inodes, lcluster indexes and the extent maps
  built from them. Fields are naturals. The one sum formed from an unchecked 64-bit field, an
  inode's position, is reduced modulo \<open>2 ^ 64\<close> as the release build does; every later position is
  derived from an inode that was read, so it lies below the image's length and does not wrap.
  The walker's view of the image is the type \<open>view\<close> of \<open>Hdx_View\<close>.
\<close>

definition EROFS_SUPER_OFFSET :: nat where "EROFS_SUPER_OFFSET = 1024"
definition EROFS_MAGIC :: nat where "EROFS_MAGIC = 0xE0F5E1E2"
definition FEAT_48BIT :: nat where "FEAT_48BIT = 0x80"
definition FEAT_METABOX :: nat where "FEAT_METABOX = 0x100"
definition FEAT_KNOWN :: nat where "FEAT_KNOWN = 0x1FF"
definition FEAT_COMPR_CFGS :: nat where "FEAT_COMPR_CFGS = 0x2"
definition LCL_PLAIN :: nat where "LCL_PLAIN = 0"
definition LCL_HEAD1 :: nat where "LCL_HEAD1 = 1"
definition LCL_NONHEAD :: nat where "LCL_NONHEAD = 2"
definition LCL_HEAD2 :: nat where "LCL_HEAD2 = 3"
definition CBLKCNT :: nat where "CBLKCNT = 2 ^ 11"
definition PCLUSTER_MAX_SIZE :: nat where "PCLUSTER_MAX_SIZE = 2 ^ 20"
definition PCLUSTER_MAX_DSIZE :: nat where "PCLUSTER_MAX_DSIZE = 12 * 2 ^ 20"
definition NULL_ADDR :: nat where "NULL_ADDR = 0xFFFFFFFF"
definition ALG_LZMA :: nat where "ALG_LZMA = 1"
definition SUPER_SIZE :: nat where "SUPER_SIZE = 128"

lemmas lcl_defs = LCL_PLAIN_def LCL_HEAD1_def LCL_NONHEAD_def LCL_HEAD2_def

text \<open>The advise bits of a compression map header, by position.\<close>

abbreviation adv_compacted_2b :: "nat \<Rightarrow> bool" where "adv_compacted_2b a \<equiv> bit a 0"
abbreviation adv_extents :: "nat \<Rightarrow> bool" where "adv_extents a \<equiv> bit a 0"
abbreviation adv_big_pcluster_1 :: "nat \<Rightarrow> bool" where "adv_big_pcluster_1 a \<equiv> bit a 1"
abbreviation adv_big_pcluster_2 :: "nat \<Rightarrow> bool" where "adv_big_pcluster_2 a \<equiv> bit a 2"
abbreviation adv_inline_pcluster :: "nat \<Rightarrow> bool" where "adv_inline_pcluster a \<equiv> bit a 3"
abbreviation adv_interlaced :: "nat \<Rightarrow> bool" where "adv_interlaced a \<equiv> bit a 4"
abbreviation adv_fragment :: "nat \<Rightarrow> bool" where "adv_fragment a \<equiv> bit a 5"

text \<open>\<open>EPanic\<close> marks an index out of range or an \<open>unreachable!\<close>: the program does not return.\<close>

datatype erofs_error =
    EPanic
  | TruncatedRead nat nat | NotErofs | ImplausibleBlockSize | UnknownFeatures nat | UnsupportedFeature
  | MultiDevice | UnsupportedDirBlockSize | TruncatedInode nat | ReservedLayout nat nat
  | RootNotDirectory | NotRegular nat | Chunk48Bit | MultiDeviceChunk
  | ImplausiblyLarge nat | MalformedDirTail | MalformedDirBlock | MalformedDirentName | EmptyDirentName
  | OversizedLclusters | ExtentMetadata | CompactLargeLclusters | CorruptClusterofs nat | NoHeadLcluster
  | UnsupportedAlgorithm nat | EmptyPcluster nat | OversizedSpan | NoCblkcnt nat | OversizedPcluster
  | PlainTooShort | NoPackedInode | PackedRecursion | FragmentBeyond
  | LcnOutOfRange | CorruptCompact | BlkaddrOverflow
  | ImplausiblePcluster | InterlacedTooLarge | Lz4Short nat nat | Lz4Failed | EmptyLzma | LzmaInit
  | LzmaFailed | DeflateFailed | DeflateShort | ZstdFailed | MapEndsEarly | MapHasGap | TruncatedLzmaCfg nat

record erofs =
  er_view :: view
  er_blkszbits :: nat
  er_meta_base :: nat
  er_root_nid :: nat
  er_packed_nid :: nat
  er_compr_algs :: nat
  er_compr_cfgs :: bool

record inode =
  in_base :: nat
  in_isize :: nat
  in_xattr :: nat
  in_mode :: nat
  in_size :: nat
  in_layout :: nat
  in_u :: nat

datatype alg = Shifted | Interlaced nat | Lz4 | Lzma | Deflate | Zstd

datatype zsrc =
    ZRaw (zr_pa: nat) (zr_plen: nat) (zr_alg: alg) (zr_partial: bool)
  | ZPacked nat
  | ZZero

record zext =
  ze_la :: nat
  ze_llen :: nat
  ze_src :: zsrc

record zplan =
  zp_size :: nat
  zp_exts :: "zext list"

datatype plan = Ranged "(nat \<times> nat) list" | Streamed zplan

definition align8 :: "nat \<Rightarrow> nat" where
  "align8 n = div_ceil n 8 * 8"

definition read_exact_at :: "view \<Rightarrow> nat \<Rightarrow> nat \<Rightarrow> erofs_error + byte list" where
  "read_exact_at v want off =
     (let b = read_full_at v want off in ensureR (length b = want) (TruncatedRead want off) (Inr b))"

definition inode_end :: "inode \<Rightarrow> nat" where
  "inode_end i = in_base i + in_isize i + in_xattr i"

definition erofs_open :: "view \<Rightarrow> erofs_error + erofs" where
  "erofs_open v =
     bindR (read_exact_at v 128 EROFS_SUPER_OFFSET) (\<lambda>sb.
     ensureR (le32 sb 0 = EROFS_MAGIC) NotErofs
     (let blkszbits = unat (sb ! 12) in
      ensureR (9 \<le> blkszbits \<and> blkszbits \<le> 16) ImplausibleBlockSize
     (let incompat = le32 sb 80 in
      ensureR (incompat div (FEAT_KNOWN + 1) = 0) (UnknownFeatures (incompat - incompat mod (FEAT_KNOWN + 1)))
     (ensureR (incompat AND (FEAT_48BIT OR FEAT_METABOX) = 0) UnsupportedFeature
     (ensureR (le16 sb 86 = 0) MultiDevice
     (let dirblkbits = unat (sb ! 90) in
      ensureR (dirblkbits = 0 \<or> dirblkbits = blkszbits) UnsupportedDirBlockSize
     (Inr \<lparr>er_view = v, er_blkszbits = blkszbits,
           er_meta_base = le32 sb 40 * 2 ^ blkszbits,
           er_root_nid = le16 sb 14,
           er_packed_nid = le64 sb 96,
           er_compr_algs = le16 sb 84,
           er_compr_cfgs = (incompat AND FEAT_COMPR_CFGS \<noteq> 0)\<rparr>)))))))"

definition blksz :: "erofs \<Rightarrow> nat" where
  "blksz er = 2 ^ er_blkszbits er"

definition read_inode :: "erofs \<Rightarrow> nat \<Rightarrow> erofs_error + inode" where
  "read_inode er nid =
     (let base = (er_meta_base er + nid * 32) mod 2 ^ 64;
          got = read_full_at (er_view er) 64 base;
          buf = got @ replicate (64 - length got) 0 in
      ensureR (32 \<le> length got) (TruncatedInode nid)
     (let fmt = le16 buf 0;
          layout = fmt div 2 mod 8 in
      ensureR (layout \<le> 4) (ReservedLayout layout nid)
     (let extended = odd fmt;
          icount = le16 buf 2 in
      Inr \<lparr>in_base = base,
           in_isize = (if extended then 64 else 32),
           in_xattr = (if icount = 0 then 0 else 12 + (icount - 1) * 4),
           in_mode = le16 buf 4,
           in_size = (if extended then le64 buf 8 else le32 buf 8),
           in_layout = layout,
           in_u = le32 buf 16\<rparr>)))"

subsection \<open>Lcluster indexes\<close>

datatype index_kind =
    IxFull
  | IxCompact (ixc_ebase: nat) (ixc_lclusterbits: nat) (ixc_totalidx: nat) (ixc_c4init: nat)
      (ixc_c2b: nat) (ixc_big: bool)

record indexes =
  ix_buf :: "byte list"
  ix_end :: nat
  ix_kind :: index_kind

record lcl =
  lc_ty :: nat
  lc_clusterofs :: nat
  lc_blkaddr :: nat
  lc_cblkcnt :: "nat option"
  lc_partial :: bool
  lc_hole :: bool

definition nonhead :: "nat \<Rightarrow> lcl" where
  "nonhead delta0 = \<lparr>lc_ty = LCL_NONHEAD, lc_clusterofs = 0, lc_blkaddr = 0,
     lc_cblkcnt = (if bit delta0 11 then Some (delta0 - CBLKCNT) else None),
     lc_partial = False, lc_hole = False\<rparr>"

text \<open>A slice of the buffer: out of range is a panic.\<close>

definition slice :: "byte list \<Rightarrow> nat \<Rightarrow> nat \<Rightarrow> erofs_error + byte list" where
  "slice b from len = ensureR (from + len \<le> length b) EPanic (Inr (window b from len))"

definition get_full :: "byte list \<Rightarrow> nat \<Rightarrow> erofs_error + lcl" where
  "get_full buf lcn =
     bindR (slice buf (lcn * 8) 8) (\<lambda>d.
       let advise = le16 d 0; ty = advise mod 4 in
       Inr (if ty = LCL_NONHEAD then nonhead (le16 d 4)
            else let hole = bit advise 14 in
              \<lparr>lc_ty = ty, lc_clusterofs = le16 d 2, lc_blkaddr = (if hole then 0 else le32 d 4),
               lc_cblkcnt = None, lc_partial = bit advise 15, lc_hole = hole\<rparr>))"

text \<open>The position of a compact record and the shift of its pack: packs of two 4-byte records up to
  the first 32-byte boundary, then packs of sixteen 2-byte records, then 4-byte records again.\<close>

definition pos_of :: "nat \<Rightarrow> nat \<Rightarrow> nat \<Rightarrow> nat \<Rightarrow> nat \<times> nat" where
  "pos_of ebase c4init c2b lcn =
     (if lcn < c4init then (ebase + lcn * 4, 2)
      else let l = lcn - c4init; p = ebase + c4init * 4 in
        if l < c2b then (p + l * 2, 1)
        else (p + c2b * 2 + (l - c2b) * 4, 2))"

definition vcnt :: "nat \<Rightarrow> nat" where
  "vcnt shift = (if shift = 2 then 2 else 16)"

definition packsz :: "nat \<Rightarrow> nat" where
  "packsz shift = vcnt shift * 2 ^ shift"

definition align_down :: "nat \<Rightarrow> nat \<Rightarrow> nat" where
  "align_down a n = n div a * a"

definition compact_entry :: "byte list \<Rightarrow> nat \<Rightarrow> nat \<Rightarrow> nat \<Rightarrow> nat \<times> nat" where
  "compact_entry pack encodebits lobits i =
     (let bitpos = encodebits * i;
          v = le32 pack (bitpos div 8) div 2 ^ (bitpos mod 8)
      in (v mod 2 ^ lobits, v div 2 ^ lobits mod 4))"

text \<open>The two walks back through a pack that count the blocks used before a head.\<close>

function nblk_small :: "(nat \<Rightarrow> nat \<times> nat) \<Rightarrow> int \<Rightarrow> nat \<Rightarrow> nat" where
  "nblk_small entry j nblk =
     (if 0 < j then
        let j' = j - 1; (lo, ty) = entry (nat j');
            j'' = (if ty = LCL_NONHEAD then j' - int lo else j')
        in nblk_small entry j'' (if 0 \<le> j'' then Suc nblk else nblk)
      else nblk)"
  by pat_completeness auto
termination by (relation "measure (\<lambda>(entry, j, nblk). nat j)") (auto split: if_splits)

function nblk_big :: "(nat \<Rightarrow> nat \<times> nat) \<Rightarrow> int \<Rightarrow> nat \<Rightarrow> erofs_error + nat" where
  "nblk_big entry j nblk =
     (if 0 < j then
        let j' = j - 1; (lo, ty) = entry (nat j') in
        if ty = LCL_NONHEAD then
          if bit lo 11 then nblk_big entry (j' - 1) (nblk + (lo - CBLKCNT))
          else if 1 < lo then nblk_big entry (j' - (int lo - 2)) nblk
          else Inl CorruptCompact
        else nblk_big entry j' (Suc nblk)
      else Inr nblk)"
  by pat_completeness auto
termination by (relation "measure (\<lambda>(entry, j, nblk). nat j)") auto

declare nblk_small.simps [simp del] nblk_big.simps [simp del]

definition get_compact ::
  "byte list \<Rightarrow> nat \<Rightarrow> nat \<Rightarrow> nat \<Rightarrow> nat \<Rightarrow> nat \<Rightarrow> bool \<Rightarrow> nat \<Rightarrow> erofs_error + lcl" where
  "get_compact buf ebase lclusterbits totalidx c4init c2b big lcn =
     ensureR (lcn < totalidx \<and> lclusterbits \<le> 14) LcnOutOfRange
     (let (pos, shift) = pos_of ebase c4init c2b lcn;
          base = align_down (packsz shift) pos in
      ensureR (ebase \<le> base) EPanic
     (bindR (slice buf (base - ebase) (packsz shift)) (\<lambda>pack.
      let lobits = max lclusterbits 12;
          encodebits = (packsz shift - 4) * 8 div vcnt shift;
          i = (pos - base) div 2 ^ shift;
          (lo, ty) = compact_entry pack encodebits lobits i in
      if ty = LCL_NONHEAD then Inr (nonhead lo)
      else bindR (if big then nblk_big (compact_entry pack encodebits lobits) (int i) 0
                  else Inr (nblk_small (compact_entry pack encodebits lobits) (int i) 1)) (\<lambda>nblk.
        let blkaddr = le32 pack (length pack - 4) + nblk in
        ensureR (blkaddr < 2 ^ 32) BlkaddrOverflow
          (Inr \<lparr>lc_ty = ty, lc_clusterofs = lo, lc_blkaddr = blkaddr, lc_cblkcnt = None,
                lc_partial = False, lc_hole = False\<rparr>)))))"

definition get_lcl :: "indexes \<Rightarrow> nat \<Rightarrow> erofs_error + lcl" where
  "get_lcl ix lcn =
     (case ix_kind ix of
        IxFull \<Rightarrow> get_full (ix_buf ix) lcn
      | IxCompact ebase lcb totalidx c4init c2b big \<Rightarrow>
          get_compact (ix_buf ix) ebase lcb totalidx c4init c2b big lcn)"

definition load_indexes ::
  "erofs \<Rightarrow> inode \<Rightarrow> nat \<Rightarrow> nat \<Rightarrow> nat \<Rightarrow> nat \<Rightarrow> erofs_error + indexes" where
  "load_indexes er ino hpos advise nlcl lcb =
     (if in_layout ino = 1 then
        let start = hpos + 8 + 8 in
        bindR (read_exact_at (er_view er) (nlcl * 8) start) (\<lambda>buf.
          Inr \<lparr>ix_buf = buf, ix_end = start + nlcl * 8, ix_kind = IxFull\<rparr>)
      else
        let ebase = hpos + 8;
            totalidx = div_ceil (in_size ino) (blksz er);
            c4init = (32 - ebase mod 32) div 4 mod 8;
            c2b = (if adv_compacted_2b advise \<and> c4init < totalidx
                   then align_down 16 (totalidx - c4init) else 0);
            (last_pos, last_shift) = pos_of ebase c4init c2b (nlcl - 1);
            fin = align_down (packsz last_shift) last_pos + packsz last_shift in
        bindR (read_exact_at (er_view er) (fin - ebase) ebase) (\<lambda>buf.
          Inr \<lparr>ix_buf = buf, ix_end = fin,
               ix_kind = IxCompact ebase lcb totalidx c4init c2b (adv_big_pcluster_1 advise)\<rparr>))"

subsection \<open>Extent maps\<close>

record z_head =
  zh_lcn :: nat
  zh_la :: nat
  zh_ty :: nat
  zh_pblk :: nat
  zh_cblks :: "nat option"
  zh_next_nonhead :: bool
  zh_partial :: bool
  zh_hole :: bool

text \<open>\<open>heads.last_mut()\<close> on a first non-head lcluster.\<close>

definition mark_nonhead :: "nat \<Rightarrow> lcl \<Rightarrow> z_head list \<Rightarrow> z_head list" where
  "mark_nonhead lcn l heads =
     (if heads \<noteq> [] \<and> lcn = zh_lcn (last heads) + 1
      then butlast heads @ [(last heads)\<lparr>zh_next_nonhead := True, zh_cblks := lc_cblkcnt l\<rparr>]
      else heads)"

text \<open>The scan of the indexes. In \<open>(lcn << lcb) | clusterofs\<close> the offset is below \<open>1 << lcb\<close>, so the
  disjunction is the sum.\<close>

fun scan_heads ::
  "(nat \<Rightarrow> erofs_error + lcl) \<Rightarrow> nat \<Rightarrow> nat \<Rightarrow> nat list \<Rightarrow> z_head list \<Rightarrow> erofs_error + z_head list" where
  "scan_heads get lcb fsize [] heads = Inr heads"
| "scan_heads get lcb fsize (lcn # lcns) heads =
     bindR (get lcn) (\<lambda>l.
       if lc_ty l = LCL_NONHEAD then scan_heads get lcb fsize lcns (mark_nonhead lcn l heads)
       else ensureR (lc_clusterofs l < 2 ^ lcb) (CorruptClusterofs lcn)
         (let la = lcn * 2 ^ lcb + lc_clusterofs l in
          if fsize \<le> la then Inr heads
          else scan_heads get lcb fsize lcns
            (heads @ [\<lparr>zh_lcn = lcn, zh_la = la, zh_ty = lc_ty l, zh_pblk = lc_blkaddr l,
                       zh_cblks = None, zh_next_nonhead = False, zh_partial = lc_partial l,
                       zh_hole = lc_hole l\<rparr>])))"

definition alg_of :: "nat \<Rightarrow> erofs_error + alg" where
  "alg_of code = (if code = 0 then Inr Lz4 else if code = 1 then Inr Lzma
     else if code = 2 then Inr Deflate else if code = 3 then Inr Zstd else Inl (UnsupportedAlgorithm code))"

text \<open>What \<open>build_zplan\<close> keeps in scope while it turns heads into extents.\<close>

record zmap =
  zm_blkszbits :: nat
  zm_layout :: nat
  zm_size :: nat
  zm_lcb :: nat
  zm_advise :: nat
  zm_algtype :: nat
  zm_fragoff :: nat
  zm_idata_size :: nat
  zm_idx_end :: nat

definition head_alg :: "zmap \<Rightarrow> z_head \<Rightarrow> erofs_error + alg" where
  "head_alg m h =
     (if zh_ty h = LCL_PLAIN \<and> adv_interlaced (zm_advise m)
        then Inr (Interlaced (zh_la h mod 2 ^ zm_blkszbits m))
      else if zh_ty h = LCL_PLAIN then Inr Shifted
      else if zh_ty h = LCL_HEAD2 then alg_of (zm_algtype m div 16)
      else alg_of (zm_algtype m mod 16))"

definition head_blocks :: "zmap \<Rightarrow> z_head \<Rightarrow> erofs_error + nat" where
  "head_blocks m h =
     (if (zh_ty h = LCL_HEAD1 \<and> \<not> adv_big_pcluster_1 (zm_advise m)) \<or>
         ((zh_ty h = LCL_PLAIN \<or> zh_ty h = LCL_HEAD2) \<and> \<not> adv_big_pcluster_2 (zm_advise m)) \<or>
         zm_size m \<le> (zh_lcn h + 1) * 2 ^ zm_lcb m
      then Inr 1
      else case zh_cblks h of
        Some n \<Rightarrow> Inr n
      | None \<Rightarrow> if zh_next_nonhead h then Inl (NoCblkcnt (zh_lcn h)) else Inr 1)"

definition head_src :: "zmap \<Rightarrow> z_head \<Rightarrow> nat \<Rightarrow> bool \<Rightarrow> erofs_error + zsrc" where
  "head_src m h llen is_last =
     bindR (head_alg m h) (\<lambda>a.
       if is_last \<and> adv_fragment (zm_advise m) then
         Inr (ZPacked (if zm_layout m = 1 then zm_fragoff m OR (zh_pblk h * 2 ^ 32) else zm_fragoff m))
       else if is_last \<and> adv_inline_pcluster (zm_advise m) then
         Inr (ZRaw (zm_idx_end m) (zm_idata_size m) a (zh_partial h))
       else if zh_hole h then Inr ZZero
       else bindR (head_blocks m h) (\<lambda>blocks.
         if blocks = 0 then Inr ZZero
         else let plen = blocks * 2 ^ zm_blkszbits m in
           ensureR (plen \<le> PCLUSTER_MAX_SIZE) OversizedPcluster
          (ensureR ((case a of Shifted \<Rightarrow> True | Interlaced _ \<Rightarrow> True | _ \<Rightarrow> False) \<longrightarrow> llen \<le> plen) PlainTooShort
             (Inr (ZRaw (zh_pblk h * 2 ^ zm_blkszbits m) plen a (zh_partial h))))))"

fun build_exts :: "zmap \<Rightarrow> z_head list \<Rightarrow> zext list \<Rightarrow> erofs_error + zext list" where
  "build_exts m [] exts = Inr exts"
| "build_exts m (h # hs) exts =
     (let end_la = (case hs of n # _ \<Rightarrow> zh_la n | [] \<Rightarrow> zm_size m);
          llen = end_la - zh_la h in
      ensureR (zh_la h < end_la) (EmptyPcluster (zh_lcn h))
     (ensureR (llen \<le> PCLUSTER_MAX_DSIZE) OversizedSpan
     (bindR (head_src m h llen (hs = [])) (\<lambda>src.
        build_exts m hs (exts @ [\<lparr>ze_la = zh_la h, ze_llen = llen, ze_src = src\<rparr>])))))"

definition build_zplan :: "erofs \<Rightarrow> inode \<Rightarrow> erofs_error + zplan" where
  "build_zplan er ino =
     (let hpos = align8 (inode_end ino) in
      bindR (read_exact_at (er_view er) 8 hpos) (\<lambda>h.
      let raw = le64 h 0 in
      if raw div 2 ^ 63 = 1 then
        Inr \<lparr>zp_size = in_size ino,
             zp_exts = [\<lparr>ze_la = 0, ze_llen = in_size ino, ze_src = ZPacked (raw - 2 ^ 63)\<rparr>]\<rparr>
      else
        let advise = le16 h 4;
            algtype = unat (h ! 6);
            clusterbits = unat (h ! 7);
            lcb = er_blkszbits er + clusterbits mod 16 in
        ensureR (lcb \<le> 14 \<or> in_layout ino = 1) OversizedLclusters
       (ensureR (\<not> (in_layout ino = 1 \<and> adv_extents advise)) ExtentMetadata
       (ensureR (in_layout ino = 3 \<longrightarrow> clusterbits mod 16 = 0) CompactLargeLclusters
       (if in_size ino = 0 then Inr \<lparr>zp_size = 0, zp_exts = []\<rparr>
        else
          let nlcl = div_ceil (in_size ino) (2 ^ lcb) in
          bindR (load_indexes er ino hpos advise nlcl lcb) (\<lambda>ix.
          bindR (scan_heads (get_lcl ix) lcb (in_size ino) [0..<nlcl] []) (\<lambda>heads.
          ensureR (heads \<noteq> [] \<and> zh_la (hd heads) = 0) NoHeadLcluster
         (let m = \<lparr>zm_blkszbits = er_blkszbits er, zm_layout = in_layout ino, zm_size = in_size ino,
                   zm_lcb = lcb, zm_advise = advise, zm_algtype = algtype,
                   zm_fragoff = le32 h 0, zm_idata_size = le16 h 2, zm_idx_end = ix_end ix\<rparr> in
          bindR (build_exts m heads []) (\<lambda>exts.
            Inr \<lparr>zp_size = in_size ino, zp_exts = exts\<rparr>)))))))))"

text \<open>Chunk-based inodes: one start block per chunk, a null one is a hole. Holes make the file a stream.\<close>

fun chunk_exts ::
  "nat \<Rightarrow> bool \<Rightarrow> nat \<Rightarrow> nat \<Rightarrow> byte list \<Rightarrow> nat list \<Rightarrow> (nat \<times> nat \<times> bool) list \<Rightarrow>
   erofs_error + (nat \<times> nat \<times> bool) list" where
  "chunk_exts blkszbits ixs chunksz fsize table [] exts = Inr exts"
| "chunk_exts blkszbits ixs chunksz fsize table (c # cs) exts =
     (let la = c * chunksz;
          llen = min chunksz (fsize - la);
          e = c * (if ixs then 8 else 4);
          startblk = (if ixs then le32 table (e + 4) else le32 table e) in
      ensureR (ixs \<longrightarrow> le16 table (e + 2) = 0) MultiDeviceChunk
        (chunk_exts blkszbits ixs chunksz fsize table cs
          (exts @ [(startblk * 2 ^ blkszbits, llen, startblk = NULL_ADDR)])))"

fun chunk_zexts :: "nat \<Rightarrow> (nat \<times> nat \<times> bool) list \<Rightarrow> zext list" where
  "chunk_zexts la [] = []"
| "chunk_zexts la ((pa, llen, hole) # exts) =
     \<lparr>ze_la = la, ze_llen = llen, ze_src = (if hole then ZZero else ZRaw pa llen Shifted False)\<rparr>
     # chunk_zexts (la + llen) exts"

definition plan_chunked :: "erofs \<Rightarrow> inode \<Rightarrow> erofs_error + plan" where
  "plan_chunked er ino =
     (let format = in_u ino mod 2 ^ 16 in
      ensureR (\<not> bit format 6) Chunk48Bit
     (let chunksz = 2 ^ (er_blkszbits er + format mod 32);
          ixs = bit format 5;
          width = (if ixs then 8 else 4);
          nchunks = div_ceil (in_size ino) chunksz in
      bindR (read_exact_at (er_view er) (width * nchunks) (div_ceil (inode_end ino) width * width)) (\<lambda>table.
      bindR (chunk_exts (er_blkszbits er) ixs chunksz (in_size ino) table [0..<nchunks] []) (\<lambda>exts.
      Inr (if list_ex (\<lambda>(_, _, hole). hole) exts
           then Streamed \<lparr>zp_size = in_size ino, zp_exts = chunk_zexts 0 exts\<rparr>
           else Ranged (map (\<lambda>(pa, llen, _). (pa, llen)) exts))))))"

definition erofs_plan :: "erofs \<Rightarrow> inode \<Rightarrow> erofs_error + plan" where
  "erofs_plan er ino =
     (if in_layout ino = 0 \<or> in_layout ino = 2 then
        (if in_size ino = 0 then Inr (Ranged [])
         else let inline = (in_layout ino = 2) in
           if \<not> inline \<and> in_u ino = NULL_ADDR then
             Inr (Streamed \<lparr>zp_size = in_size ino,
                            zp_exts = [\<lparr>ze_la = 0, ze_llen = in_size ino, ze_src = ZZero\<rparr>]\<rparr>)
           else
             let nblocks = div_ceil (in_size ino) (blksz er);
                 head = (if inline then (nblocks - 1) * blksz er else in_size ino) in
             Inr (Ranged ((if 0 < head then [(in_u ino * 2 ^ er_blkszbits er, head)] else []) @
                          (if inline then [(inode_end ino, in_size ino - head)] else []))))
      else if in_layout ino = 4 then plan_chunked er ino
      else if in_layout ino = 1 \<or> in_layout ino = 3 then bindR (build_zplan er ino) (\<lambda>zp. Inr (Streamed zp))
      else Inl EPanic)"

end
