(* ===== verification/Hdx_Erofs_Map.thy ===== *)
theory Hdx_Erofs_Map
  imports Hdx_Erofs
begin

text \<open>
  What the extent maps of \<open>Hdx_Erofs\<close> satisfy: they tile the file, their stored pieces respect the
  format's bounds, and every index record the scan asks for lies inside the buffer read for it.
\<close>

subsection \<open>Tiling\<close>

text \<open>Consecutive extents from one offset to another.\<close>

fun ext_tiles :: "nat \<Rightarrow> zext list \<Rightarrow> nat \<Rightarrow> bool" where
  "ext_tiles a [] b \<longleftrightarrow> a = b"
| "ext_tiles a (e # es) b \<longleftrightarrow> ze_la e = a \<and> ext_tiles (a + ze_llen e) es b"

definition ext_ok :: "zext \<Rightarrow> bool" where
  "ext_ok e \<longleftrightarrow> 0 < ze_llen e \<and>
     (case ze_src e of
        ZRaw pa plen a part \<Rightarrow> ze_llen e \<le> PCLUSTER_MAX_DSIZE \<and> plen \<le> PCLUSTER_MAX_SIZE
      | ZPacked off \<Rightarrow> off < 2 ^ 64
      | ZZero \<Rightarrow> True)"

lemma le16_mod_bound: "le16 b i \<le> PCLUSTER_MAX_SIZE"
  using le16_bound [of b i] by (simp add: PCLUSTER_MAX_SIZE_def)

lemma le64_bound: "le64 b i < 2 ^ 64"
  using le_nat_window_bound [of b i 8] by (simp add: le64_def)

definition map_ok :: "zmap \<Rightarrow> bool" where
  "map_ok m \<longleftrightarrow> zm_idata_size m \<le> PCLUSTER_MAX_SIZE \<and> zm_fragoff m < 2 ^ 32"

lemma or_shift_bound: "a < 2 ^ 32 \<Longrightarrow> p < 2 ^ 32 \<Longrightarrow> (a OR (p * 2 ^ 32)) < (2 ^ 64 :: nat)"
proof -
  assume a: "a < 2 ^ 32" and p: "p < 2 ^ 32"
  have "p * 2 ^ 32 < 2 ^ 32 * 2 ^ 32" using p by (intro mult_strict_right_mono) auto
  then have "take_bit 64 (p * 2 ^ 32) = p * 2 ^ 32" by (simp add: take_bit_nat_eq_self)
  moreover have "take_bit 64 a = a" using a by (simp add: take_bit_nat_eq_self)
  ultimately have "take_bit 64 (a OR (p * 2 ^ 32)) = a OR (p * 2 ^ 32)" by simp
  then show ?thesis by (simp only: take_bit_nat_eq_self_iff)
qed

lemma head_src_ok:
  assumes "head_src m h llen is_last = Inr s" "map_ok m" "zh_pblk h < 2 ^ 32"
  shows "case s of ZRaw pa plen a part \<Rightarrow> plen \<le> PCLUSTER_MAX_SIZE | ZPacked off \<Rightarrow> off < 2 ^ 64 | ZZero \<Rightarrow> True"
  using assms or_shift_bound [of "zm_fragoff m" "zh_pblk h"]
  by (auto simp: head_src_def map_ok_def result_simps Let_def split: if_splits)

lemma build_exts_tiles:
  assumes "build_exts m hs acc = Inr r" "map_ok m" "\<forall>h \<in> set hs. zh_pblk h < 2 ^ 32"
  shows "\<exists>es. r = acc @ es \<and> (\<forall>e \<in> set es. ext_ok e) \<and>
           (hs \<noteq> [] \<longrightarrow> ext_tiles (zh_la (hd hs)) es (zm_size m)) \<and> length es = length hs"
  using assms
proof (induction m hs acc rule: build_exts.induct)
  case (2 m h hs exts)
  let ?fin = "case hs of n # _ \<Rightarrow> zh_la n | [] \<Rightarrow> zm_size m"
  let ?llen = "?fin - zh_la h"
  obtain src where c: "zh_la h < ?fin" "?llen \<le> PCLUSTER_MAX_DSIZE" "head_src m h ?llen (hs = []) = Inr src"
    and rec: "build_exts m hs (exts @ [\<lparr>ze_la = zh_la h, ze_llen = ?llen, ze_src = src\<rparr>]) = Inr r"
    using "2.prems"(1) by (auto simp: Let_def result_simps)
  let ?e = "\<lparr>ze_la = zh_la h, ze_llen = ?llen, ze_src = src\<rparr>"
  have pb: "\<forall>h \<in> set hs. zh_pblk h < 2 ^ 32" "zh_pblk h < 2 ^ 32" using "2.prems"(3) by simp_all
  obtain es where es: "r = (exts @ [?e]) @ es" "\<forall>e \<in> set es. ext_ok e"
      "hs \<noteq> [] \<longrightarrow> ext_tiles (zh_la (hd hs)) es (zm_size m)" "length es = length hs"
    using "2.IH" [OF refl refl c(1,2,3) rec "2.prems"(2) pb(1)] by blast
  have "ext_ok ?e" using c(1,2) head_src_ok [OF c(3) "2.prems"(2) pb(2)]
    by (auto simp: ext_ok_def split: zsrc.splits)
  moreover have "ext_tiles (zh_la h) (?e # es) (zm_size m)"
    using es(3,4) c(1) by (cases hs) auto
  ultimately have "r = exts @ (?e # es) \<and> (\<forall>e \<in> set (?e # es). ext_ok e) \<and>
      ext_tiles (zh_la h) (?e # es) (zm_size m) \<and> length (?e # es) = length (h # hs)"
    using es(1,2,4) by simp
  then show ?case by (metis list.sel(1))
qed simp

text \<open>The heads found by the scan are in order and start inside the file.\<close>

lemma mark_nonhead_simps [simp]:
  "map zh_la (mark_nonhead lcn l hs) = map zh_la hs"
  "map zh_pblk (mark_nonhead lcn l hs) = map zh_pblk hs"
proof -
  have "hs \<noteq> [] \<Longrightarrow> map f (butlast hs) @ [f (last hs)] = map f hs" for f :: "z_head \<Rightarrow> nat"
    by (metis append_butlast_last_id list.simps(8,9) map_append)
  then show "map zh_la (mark_nonhead lcn l hs) = map zh_la hs"
    and "map zh_pblk (mark_nonhead lcn l hs) = map zh_pblk hs"
    by (auto simp: mark_nonhead_def)
qed

lemma scan_heads_sorted:
  assumes "scan_heads get lcb fsize lcns hs = Inr r" "sorted_wrt (<) lcns" "sorted_wrt (<) (map zh_la hs)"
    and "\<forall>a \<in> set (map zh_la hs). a < fsize \<and> (\<forall>l \<in> set lcns. a < l * 2 ^ lcb)"
  shows "sorted_wrt (<) (map zh_la r) \<and> (\<forall>a \<in> set (map zh_la r). a < fsize)"
  using assms
proof (induction get lcb fsize lcns hs rule: scan_heads.induct)
  case (2 get lcb fsize lcn lcns hs)
  obtain l where l: "get lcn = Inr l" using "2.prems"(1) by (auto simp: result_simps)
  show ?case
  proof (cases "lc_ty l = LCL_NONHEAD")
    case True
    show ?thesis
    proof (rule "2.IH"(1) [OF l True])
      show "scan_heads get lcb fsize lcns (mark_nonhead lcn l hs) = Inr r"
        using "2.prems"(1) l True by simp
    qed (use "2.prems"(2-4) in \<open>simp_all del: set_map\<close>)
  next
    case False
    let ?la = "lcn * 2 ^ lcb + lc_clusterofs l"
    have c: "lc_clusterofs l < 2 ^ lcb" using "2.prems"(1) l False by (auto simp: result_simps)
    show ?thesis
    proof (cases "fsize \<le> ?la")
      case True
      then show ?thesis using "2.prems" l False c by (simp add: ensureR_def)
    next
      case in_file: False
      have lt: "?la < k * 2 ^ lcb" if "k \<in> set lcns" for k
      proof -
        have "Suc lcn * 2 ^ lcb \<le> k * 2 ^ lcb" using that "2.prems"(2) by (intro mult_le_mono1) (simp add: Suc_leI)
        then show ?thesis using c by simp
      qed
      show ?thesis
      proof (rule "2.IH"(2) [OF l False c refl in_file])
        show "scan_heads get lcb fsize lcns (hs @ [\<lparr>zh_lcn = lcn, zh_la = ?la, zh_ty = lc_ty l, zh_pblk = lc_blkaddr l,
            zh_cblks = None, zh_next_nonhead = False, zh_partial = lc_partial l, zh_hole = lc_hole l\<rparr>]) = Inr r"
          using "2.prems"(1) l False c in_file by (simp add: Let_def)
        show "sorted_wrt (<) lcns" using "2.prems"(2) by simp
        have "a < ?la" if "a \<in> set (map zh_la hs)" for a using "2.prems"(4) that by force
        then show "sorted_wrt (<) (map zh_la (hs @ [\<lparr>zh_lcn = lcn, zh_la = ?la, zh_ty = lc_ty l, zh_pblk = lc_blkaddr l,
            zh_cblks = None, zh_next_nonhead = False, zh_partial = lc_partial l, zh_hole = lc_hole l\<rparr>]))"
          using "2.prems"(3) by (simp add: sorted_wrt_append)
      qed (use "2.prems"(4) lt in_file in auto)
    qed
  qed
qed simp

lemma scan_heads_pblk:
  assumes "scan_heads get lcb fsize lcns hs = Inr r" "\<And>i l. get i = Inr l \<Longrightarrow> lc_blkaddr l < 2 ^ 32"
    and "\<forall>a \<in> set (map zh_pblk hs). a < 2 ^ 32"
  shows "\<forall>a \<in> set (map zh_pblk r). a < 2 ^ 32"
  using assms
proof (induction get lcb fsize lcns hs rule: scan_heads.induct)
  case (2 get lcb fsize lcn lcns hs)
  obtain l where l: "get lcn = Inr l" using "2.prems"(1) by (auto simp: result_simps)
  show ?case
  proof (cases "lc_ty l = LCL_NONHEAD")
    case True
    show ?thesis
    proof (rule "2.IH"(1) [OF l True])
      show "scan_heads get lcb fsize lcns (mark_nonhead lcn l hs) = Inr r"
        using "2.prems"(1) l True by simp
    qed (use "2.prems"(2-3) in \<open>simp_all del: set_map\<close>)
  next
    case False
    have c: "lc_clusterofs l < 2 ^ lcb" using "2.prems"(1) l False by (auto simp: result_simps)
    show ?thesis
    proof (cases "fsize \<le> lcn * 2 ^ lcb + lc_clusterofs l")
      case True
      then show ?thesis using "2.prems" l False c by (simp add: ensureR_def)
    next
      case in_file: False
      show ?thesis
      proof (rule "2.IH"(2) [OF l False c refl in_file])
        show "scan_heads get lcb fsize lcns (hs @ [\<lparr>zh_lcn = lcn, zh_la = lcn * 2 ^ lcb + lc_clusterofs l,
            zh_ty = lc_ty l, zh_pblk = lc_blkaddr l, zh_cblks = None, zh_next_nonhead = False,
            zh_partial = lc_partial l, zh_hole = lc_hole l\<rparr>]) = Inr r"
          using "2.prems"(1) l False c in_file by (simp add: Let_def)
      qed (use "2.prems"(2,3) l in auto)
    qed
  qed
qed simp

lemma get_lcl_blkaddr: "get_lcl ix lcn = Inr l \<Longrightarrow> lc_blkaddr l < 2 ^ 32"
proof (cases "ix_kind ix")
  case IxFull
  assume "get_lcl ix lcn = Inr l"
  then show ?thesis using IxFull le32_bound
    by (auto simp: get_lcl_def get_full_def result_simps Let_def nonhead_def split: if_splits)
next
  case (IxCompact ebase lcb totalidx c4init c2b big)
  assume "get_lcl ix lcn = Inr l"
  then show ?thesis using IxCompact
    by (auto simp: get_lcl_def get_compact_def result_simps Let_def nonhead_def split: if_splits prod.splits)
qed

lemma raw_top_bit: "n < 2 ^ 64 \<Longrightarrow> n - 2 ^ 63 < (2 ^ 64 :: nat)"
  by simp

lemma build_zplan_tiles:
  assumes "build_zplan er ino = Inr zp"
  shows "zp_size zp = in_size ino \<and> ext_tiles 0 (zp_exts zp) (in_size ino) \<and>
         (0 < in_size ino \<longrightarrow> (\<forall>e \<in> set (zp_exts zp). ext_ok e))"
proof -
  obtain h where h: "read_exact_at (er_view er) 8 (align8 (inode_end ino)) = Inr h"
    using assms by (auto simp: build_zplan_def Let_def result_simps)
  show ?thesis
  proof (cases "le64 h 0 div 2 ^ 63 = 1")
    case True
    then have "zp = \<lparr>zp_size = in_size ino,
        zp_exts = [\<lparr>ze_la = 0, ze_llen = in_size ino, ze_src = ZPacked (le64 h 0 - 2 ^ 63)\<rparr>]\<rparr>"
      using assms h unfolding build_zplan_def Let_def by simp
    then show ?thesis using raw_top_bit [OF le64_bound [of h 0]] by (simp add: ext_ok_def)
  next
    case False
    define lcb where "lcb = er_blkszbits er + unat (h ! 7) mod 16"
    define nlcl where "nlcl = div_ceil (in_size ino) (2 ^ lcb)"
    show ?thesis
    proof (cases "in_size ino = 0")
      case True
      then have "zp = \<lparr>zp_size = 0, zp_exts = []\<rparr>"
        using assms h False unfolding build_zplan_def Let_def by (simp add: result_simps)
      then show ?thesis using True by simp
    next
      case nz: False
      obtain ix heads exts where
        ix: "load_indexes er ino (align8 (inode_end ino)) (le16 h 4) nlcl lcb = Inr ix" and
        heads: "scan_heads (get_lcl ix) lcb (in_size ino) [0..<nlcl] [] = Inr heads"
          "heads \<noteq> []" "zh_la (hd heads) = 0" and
        exts: "build_exts \<lparr>zm_blkszbits = er_blkszbits er, zm_layout = in_layout ino, zm_size = in_size ino,
            zm_lcb = lcb, zm_advise = le16 h 4, zm_algtype = unat (h ! 6), zm_fragoff = le32 h 0,
            zm_idata_size = le16 h 2, zm_idx_end = ix_end ix\<rparr> heads [] = Inr exts" and
        zp: "zp = \<lparr>zp_size = in_size ino, zp_exts = exts\<rparr>"
        using assms h False nz unfolding build_zplan_def Let_def
        by (auto simp: result_simps simp flip: lcb_def nlcl_def)
      have "\<forall>a \<in> set (map zh_pblk heads). a < 2 ^ 32"
        by (rule scan_heads_pblk [OF heads(1) get_lcl_blkaddr]) simp_all
      then have "\<forall>x \<in> set heads. zh_pblk x < 2 ^ 32" by simp
      from build_exts_tiles [OF exts _ this] show ?thesis
        using heads(2,3) zp le16_mod_bound le32_bound by (auto simp: map_ok_def)
    qed
  qed
qed

text \<open>No extent is ever refused as empty: the scan leaves the heads in order.\<close>

lemma head_src_not_empty: "head_src m h llen is_last \<noteq> Inl (EmptyPcluster n)"
proof -
  have "head_alg m h \<noteq> Inl (EmptyPcluster n)" by (simp add: head_alg_def alg_of_def)
  moreover have "head_blocks m h \<noteq> Inl (EmptyPcluster n)" by (simp add: head_blocks_def split: option.split)
  ultimately show ?thesis
    unfolding head_src_def by (cases "head_alg m h"; cases "head_blocks m h") (simp_all add: Let_def ensureR_def)
qed

lemma build_exts_not_empty:
  "sorted_wrt (<) (map zh_la hs) \<Longrightarrow> \<forall>a \<in> set (map zh_la hs). a < zm_size m \<Longrightarrow>
   build_exts m hs acc \<noteq> Inl (EmptyPcluster n)"
proof (induction m hs acc rule: build_exts.induct)
  case (2 m h hs exts)
  have "zh_la h < (case hs of n # _ \<Rightarrow> zh_la n | [] \<Rightarrow> zm_size m)"
    using "2.prems" by (cases hs) simp_all
  moreover have "build_exts m hs (exts @ [e]) \<noteq> Inl (EmptyPcluster n)"
    if "head_src m h l b = Inr s" "e = \<lparr>ze_la = zh_la h, ze_llen = l, ze_src = s\<rparr>" "l \<le> PCLUSTER_MAX_DSIZE"
      "l = (case hs of n # _ \<Rightarrow> zh_la n | [] \<Rightarrow> zm_size m) - zh_la h" "b = (hs = [])" for l b s e
    using "2.IH" [OF refl refl calculation] that "2.prems" by simp
  ultimately show ?case using head_src_not_empty by (simp add: Let_def bindR_eq_Inl ensureR_def)
qed simp

subsection \<open>Chunk-based inodes\<close>

lemma chunk_exts_lens:
  assumes "chunk_exts bits ixs chunksz fsize table cs acc = Inr r"
  shows "\<exists>es. r = acc @ es \<and> map (\<lambda>(pa, llen, hole). llen) es = map (\<lambda>c. min chunksz (fsize - c * chunksz)) cs"
  using assms
proof (induction bits ixs chunksz fsize table cs acc rule: chunk_exts.induct)
  case (2 bits ixs chunksz fsize table c cs exts)
  let ?start = "if ixs then le32 table (c * (if ixs then 8 else 4) + 4) else le32 table (c * (if ixs then 8 else 4))"
  let ?e = "(?start * 2 ^ bits, min chunksz (fsize - c * chunksz), ?start = NULL_ADDR)"
  have ok: "ixs \<longrightarrow> le16 table (c * (if ixs then 8 else 4) + 2) = 0"
    and rec: "chunk_exts bits ixs chunksz fsize table cs (exts @ [?e]) = Inr r"
    using "2.prems" unfolding chunk_exts.simps Let_def ensureR_eq_Inr by (rule conjunct1, rule conjunct2)
  then obtain es where es: "r = (exts @ [?e]) @ es"
      "map (\<lambda>(pa, llen, hole). llen) es = map (\<lambda>c. min chunksz (fsize - c * chunksz)) cs"
    using "2.IH" [OF refl refl refl refl ok rec] by blast
  then have "r = exts @ (?e # es)"
      "map (\<lambda>(pa, llen, hole). llen) (?e # es) = map (\<lambda>c. min chunksz (fsize - c * chunksz)) (c # cs)"
    by simp_all
  then show ?case by blast
qed simp

lemma chunk_exts_aligned:
  "chunk_exts bits ixs chunksz fsize table cs acc = Inr r \<Longrightarrow> \<forall>(pa, llen, hole) \<in> set acc. 2 ^ bits dvd pa \<and> llen \<le> chunksz \<Longrightarrow>
     \<forall>(pa, llen, hole) \<in> set r. 2 ^ bits dvd pa \<and> llen \<le> chunksz"
proof (induction bits ixs chunksz fsize table cs acc rule: chunk_exts.induct)
  case (2 bits ixs chunksz fsize table c cs exts)
  let ?start = "if ixs then le32 table (c * (if ixs then 8 else 4) + 4) else le32 table (c * (if ixs then 8 else 4))"
  let ?e = "(?start * 2 ^ bits, min chunksz (fsize - c * chunksz), ?start = NULL_ADDR)"
  have ok: "ixs \<longrightarrow> le16 table (c * (if ixs then 8 else 4) + 2) = 0"
    and rec: "chunk_exts bits ixs chunksz fsize table cs (exts @ [?e]) = Inr r"
    using "2.prems"(1) unfolding chunk_exts.simps Let_def ensureR_eq_Inr by (rule conjunct1, rule conjunct2)
  show ?case by (rule "2.IH" [OF refl refl refl refl ok rec]) (use "2.prems"(2) in auto)
qed simp

lemma chunk_lens_sum: "sum_list (map (\<lambda>c. min sz (n - c * sz)) [0..<k]) = min (k * sz) (n :: nat)"
  by (induction k) (auto simp: min_def)

lemma chunk_zexts_tiles:
  "ext_tiles a (chunk_zexts a es) (a + sum_list (map (\<lambda>(pa, llen, hole). llen) es))"
  by (induction a es rule: chunk_zexts.induct) (simp_all add: add.assoc)

lemma chunk_zexts_llens: "map ze_llen (chunk_zexts a es) = map (\<lambda>(pa, llen, hole). llen) es"
  by (induction a es rule: chunk_zexts.induct) simp_all

lemma plan_chunked_lens:
  assumes "plan_chunked er ino = Inr p"
  obtains es where "sum_list (map (\<lambda>(pa, llen, hole). llen) es) = in_size ino"
    "\<forall>l \<in> set (map (\<lambda>(pa, llen, hole). llen) es). 0 < l"
    "p = Streamed \<lparr>zp_size = in_size ino, zp_exts = chunk_zexts 0 es\<rparr> \<or>
     p = Ranged (map (\<lambda>(pa, llen, hole). (pa, llen)) es)"
    "\<forall>(pa, llen, hole) \<in> set es. 2 ^ er_blkszbits er dvd pa \<and> llen \<le> 2 ^ (er_blkszbits er + in_u ino mod 2 ^ 16 mod 32)"
proof -
  define sz :: nat where "sz = 2 ^ (er_blkszbits er + in_u ino mod 2 ^ 16 mod 32)"
  define n where "n = div_ceil (in_size ino) sz"
  have pos: "0 < sz" by (simp add: sz_def)
  obtain ixs table es where
    e: "chunk_exts (er_blkszbits er) ixs sz (in_size ino) table [0..<n] [] = Inr es" and
    p: "p = (if list_ex (\<lambda>(_, _, hole). hole) es
             then Streamed \<lparr>zp_size = in_size ino, zp_exts = chunk_zexts 0 es\<rparr>
             else Ranged (map (\<lambda>(pa, llen, _). (pa, llen)) es))"
    using assms unfolding plan_chunked_def Let_def n_def sz_def by (auto simp: result_simps)
  have lens: "map (\<lambda>(pa, llen, hole). llen) es = map (\<lambda>c. min sz (in_size ino - c * sz)) [0..<n]"
    using chunk_exts_lens [OF e] by auto
  show thesis
  proof (rule that)
    show "sum_list (map (\<lambda>(pa, llen, hole). llen) es) = in_size ino"
      unfolding lens chunk_lens_sum using div_ceil_ge [OF pos, of "in_size ino"] by (simp add: n_def)
    have "0 < min sz (in_size ino - c * sz)" if "c < n" for c
    proof -
      have "0 < in_size ino" using that pos by (cases "in_size ino") (simp_all add: n_def)
      then have "(n - 1) * sz < in_size ino" using div_ceil_lt [OF pos] by (simp add: n_def)
      moreover have "c * sz \<le> (n - 1) * sz" using that by (intro mult_le_mono1) simp
      ultimately have "c * sz < in_size ino" by (rule le_less_trans [rotated])
      then show ?thesis using pos by simp
    qed
    then show "\<forall>l \<in> set (map (\<lambda>(pa, llen, hole). llen) es). 0 < l" unfolding lens by simp
    show "p = Streamed \<lparr>zp_size = in_size ino, zp_exts = chunk_zexts 0 es\<rparr> \<or>
        p = Ranged (map (\<lambda>(pa, llen, hole). (pa, llen)) es)"
      using p by (simp split: if_splits)
    show "\<forall>(pa, llen, hole) \<in> set es. 2 ^ er_blkszbits er dvd pa \<and> llen \<le> 2 ^ (er_blkszbits er + in_u ino mod 2 ^ 16 mod 32)"
      using chunk_exts_aligned [OF e] by (simp add: sz_def)
  qed
qed

text \<open>
  The bounds of an extent: those of the format for a compressed inode; an extent of a chunk table is a
  hole, or raw, block-aligned and no longer than a chunk, which may be longer than a pcluster.
\<close>

definition ext_fits :: "erofs \<Rightarrow> inode \<Rightarrow> zext \<Rightarrow> bool" where
  "ext_fits er ino e \<longleftrightarrow> 0 < ze_llen e \<and>
     (if in_layout ino = 4
      then ze_src e = ZZero \<or>
        (\<exists>pa. ze_src e = ZRaw pa (ze_llen e) Shifted False \<and> blksz er dvd pa \<and>
           ze_llen e \<le> 2 ^ (er_blkszbits er + in_u ino mod 2 ^ 16 mod 32))
      else ext_ok e)"

lemma chunk_zexts_fit:
  "\<forall>(pa, llen, hole) \<in> set es. 2 ^ er_blkszbits er dvd pa \<and> llen \<le> 2 ^ (er_blkszbits er + in_u ino mod 2 ^ 16 mod 32) \<Longrightarrow>
     \<forall>(pa, llen, hole) \<in> set es. 0 < llen \<Longrightarrow> in_layout ino = 4 \<Longrightarrow> \<forall>e \<in> set (chunk_zexts a es). ext_fits er ino e"
  by (induction a es rule: chunk_zexts.induct) (auto simp: ext_fits_def blksz_def)

lemma plan_accounts:
  assumes "erofs_plan er ino = Inr p"
  shows "case p of
           Ranged rs \<Rightarrow> sum_list (map snd rs) = in_size ino \<and> (\<forall>(pa, len) \<in> set rs. 0 < len)
         | Streamed zp \<Rightarrow> zp_size zp = in_size ino \<and> ext_tiles 0 (zp_exts zp) (in_size ino) \<and>
             (0 < in_size ino \<longrightarrow> (\<forall>e \<in> set (zp_exts zp). ext_fits er ino e))"
proof (cases "in_layout ino = 0 \<or> in_layout ino = 2")
  case True
  have pos: "0 < blksz er" by (simp add: blksz_def)
  show ?thesis
  proof (cases "in_size ino = 0 \<or> in_layout ino = 0 \<and> in_u ino = NULL_ADDR")
    case True
    then have "p = Ranged [] \<and> in_size ino = 0 \<or> p = Streamed \<lparr>zp_size = in_size ino,
        zp_exts = [\<lparr>ze_la = 0, ze_llen = in_size ino, ze_src = ZZero\<rparr>]\<rparr>"
      using assms \<open>in_layout ino = 0 \<or> in_layout ino = 2\<close>
      by (cases "in_size ino = 0") (auto simp: erofs_plan_def Let_def)
    then show ?thesis by (auto simp: ext_fits_def ext_ok_def)
  next
    case False
    let ?head = "if in_layout ino = 2 then (div_ceil (in_size ino) (blksz er) - 1) * blksz er else in_size ino"
    have "?head < in_size ino" if "in_layout ino = 2"
      using that div_ceil_lt [OF pos] False by simp
    moreover have "p = Ranged ((if 0 < ?head then [(in_u ino * 2 ^ er_blkszbits er, ?head)] else []) @
        (if in_layout ino = 2 then [(inode_end ino, in_size ino - ?head)] else []))"
      using assms True False by (auto simp: erofs_plan_def Let_def)
    ultimately show ?thesis using False True by (auto split: if_splits)
  qed
next
  case False
  show ?thesis
  proof (cases "in_layout ino = 4")
    case True
    then have "plan_chunked er ino = Inr p" using assms(1) by (simp add: erofs_plan_def)
    then obtain es where es: "sum_list (map (\<lambda>(pa, llen, hole). llen) es) = in_size ino"
      "\<forall>l \<in> set (map (\<lambda>(pa, llen, hole). llen) es). 0 < l"
      "p = Streamed \<lparr>zp_size = in_size ino, zp_exts = chunk_zexts 0 es\<rparr> \<or>
       p = Ranged (map (\<lambda>(pa, llen, hole). (pa, llen)) es)"
      "\<forall>(pa, llen, hole) \<in> set es. 2 ^ er_blkszbits er dvd pa \<and> llen \<le> 2 ^ (er_blkszbits er + in_u ino mod 2 ^ 16 mod 32)"
      by (rule plan_chunked_lens)
    have pos: "\<forall>(pa, llen, hole) \<in> set es. 0 < llen" using es(2) by auto
    have "ext_tiles 0 (chunk_zexts 0 es) (in_size ino)" using chunk_zexts_tiles [of 0 es] es(1) by simp
    moreover have "map snd (map (\<lambda>(pa, llen, hole). (pa, llen)) es) = map (\<lambda>(pa, llen, hole). llen) es"
      by (induction es) auto
    then have "sum_list (map snd (map (\<lambda>(pa, llen, hole). (pa, llen)) es)) = in_size ino"
      using es(1) by (simp del: map_map)
    ultimately show ?thesis using es(3) chunk_zexts_fit [OF es(4) pos True, of 0] pos by (auto simp del: map_map)
  next
    case False
    with \<open>\<not> (in_layout ino = 0 \<or> in_layout ino = 2)\<close> assms(1)
    obtain zp where "p = Streamed zp" "build_zplan er ino = Inr zp"
      by (auto simp: erofs_plan_def result_simps split: if_splits)
    then show ?thesis using build_zplan_tiles False by (auto simp: ext_fits_def ext_ok_def)
  qed
qed

text \<open>
  C12. Every inode's layout accounts for the whole file. When \<open>plan\<close> succeeds, a ranged plan's pieces
  are non-empty and add up to the file's size; a streamed plan's extents tile the file from its
  first to its last byte without gap or overlap. In a non-empty file no extent is empty; those of a
  flat or compressed inode respect the bounds on stored and decoded lengths that the decoder enforces,
  those of a chunk-based one are holes or block-aligned pieces of at most one chunk.
\<close>

theorem erofs_plan_tiles:
  assumes "erofs_plan er ino = Inr p"
  shows "case p of
           Ranged rs \<Rightarrow> sum_list (map snd rs) = in_size ino \<and> (\<forall>(pa, len) \<in> set rs. 0 < len)
         | Streamed zp \<Rightarrow> zp_size zp = in_size ino \<and> ext_tiles 0 (zp_exts zp) (in_size ino) \<and>
             (0 < in_size ino \<longrightarrow> (\<forall>e \<in> set (zp_exts zp). ext_fits er ino e))"
  by (rule plan_accounts [OF assms])

definition mem_erofs :: "nat \<Rightarrow> byte list \<Rightarrow> erofs" where
  "mem_erofs bits bs = \<lparr>er_view = view_new (PMem bs) [(0, length bs)], er_blkszbits = bits, er_meta_base = 0,
     er_root_nid = 0, er_packed_nid = 0, er_compr_algs = 0, er_compr_cfgs = False\<rparr>"

lemma mem_erofs_simps [simp]:
  "er_blkszbits (mem_erofs bits bs) = bits" "er_meta_base (mem_erofs bits bs) = 0" "blksz (mem_erofs bits bs) = 2 ^ bits"
  "read_full_at (er_view (mem_erofs bits bs)) want off = window bs off want"
proof -
  have "view_wf (view_new (PMem bs) [(0, length bs)])" by (rule view_new_wf) auto
  then show "read_full_at (er_view (mem_erofs bits bs)) want off = window bs off want"
    by (simp add: mem_erofs_def read_full_at_window view_new_bytes window_whole)
qed (simp_all add: mem_erofs_def blksz_def)

lemma le_fields: "le16 b i = le_nat (window b i 2)" "le32 b i = le_nat (window b i 4)" "le64 b i = le_nat (window b i 8)"
  by (simp_all add: le16_def le32_def le64_def)

text \<open>A chunk-based file of two chunks of 8 KiB, the first a hole.\<close>

definition ex_chunked :: erofs where
  "ex_chunked = mem_erofs 12 (replicate 32 0 @ [0xFF, 0xFF, 0xFF, 0xFF, 5, 0, 0, 0])"

definition ex_chunked_ino :: inode where
  "ex_chunked_ino = \<lparr>in_base = 0, in_isize = 32, in_xattr = 0, in_mode = 0x81A4, in_size = 9000, in_layout = 4, in_u = 1\<rparr>"

theorem erofs_plan_tiles_witness:
  "\<exists>zp. erofs_plan ex_chunked ex_chunked_ino = Inr (Streamed zp) \<and> length (zp_exts zp) = 2 \<and>
     ext_tiles 0 (zp_exts zp) 9000 \<and> (\<forall>e \<in> set (zp_exts zp). ext_fits ex_chunked ex_chunked_ino e)"
proof -
  let ?zp = "\<lparr>zp_size = 9000, zp_exts = [\<lparr>ze_la = 0, ze_llen = 8192, ze_src = ZZero\<rparr>,
     \<lparr>ze_la = 8192, ze_llen = 808, ze_src = ZRaw 20480 808 Shifted False\<rparr>]\<rparr>"
  have t: "read_exact_at (er_view ex_chunked) 8 32 = Inr [0xFF, 0xFF, 0xFF, 0xFF, 5, 0, 0, 0]"
    by (simp add: ex_chunked_def read_exact_at_def Let_def window_def)
  have b: "er_blkszbits ex_chunked = 12" "in_size ex_chunked_ino = 9000" "in_u ex_chunked_ino = 1" "inode_end ex_chunked_ino = 32"
    by (simp_all add: ex_chunked_def ex_chunked_ino_def inode_end_def)
  have "plan_chunked ex_chunked ex_chunked_ino = Inr (Streamed ?zp)"
    by (simp add: plan_chunked_def b t div_ceil_def upt_rec window_def le_fields NULL_ADDR_def bit_iff_odd)
  then have p: "erofs_plan ex_chunked ex_chunked_ino = Inr (Streamed ?zp)"
    by (simp add: erofs_plan_def ex_chunked_ino_def)
  show ?thesis using erofs_plan_tiles [OF p] p by (auto simp: ex_chunked_ino_def)
qed

subsection \<open>Index records in bounds\<close>

lemma align_down_le: "align_down a n \<le> n"
  by (simp add: align_down_def)

lemma align_down_ge: "0 < a \<Longrightarrow> a dvd x \<Longrightarrow> x \<le> n \<Longrightarrow> x \<le> align_down a n"
  unfolding align_down_def by (metis div_le_mono dvd_div_mult_self mult_le_mono1)

lemma align_down_next: "0 < a \<Longrightarrow> a dvd x \<Longrightarrow> n < x \<Longrightarrow> align_down a n + a \<le> x"
proof -
  assume a: "0 < a" "a dvd x" "n < x"
  obtain k where k: "x = a * k" using a(2) by (rule dvdE)
  have "n div a < k" using a(1,3) unfolding k by (simp add: div_less_iff_less_mult mult.commute)
  then have "(n div a + 1) * a \<le> k * a" by (intro mult_le_mono1) simp
  then show ?thesis by (simp add: align_down_def k mult.commute)
qed

lemma align_down_mono: "m \<le> n \<Longrightarrow> align_down a m \<le> align_down a n"
  unfolding align_down_def by (simp add: div_le_mono)

lemma packsz_simps:
  "packsz 2 = 8" "packsz 1 = 32" "packsz (Suc 0) = 32" "vcnt 2 = 2" "vcnt 1 = 16" "vcnt (Suc 0) = 16"
  by (simp_all add: packsz_def vcnt_def)

text \<open>The end of the pack a record lies in.\<close>

definition pack_end :: "nat \<times> nat \<Rightarrow> nat" where
  "pack_end ps = align_down (packsz (snd ps)) (fst ps) + packsz (snd ps)"

lemma initial_packs:
  assumes "8 dvd (e :: nat)"
  shows "32 dvd (e + 4 * ((32 - e mod 32) div 4 mod 8))" "even ((32 - e mod 32) div 4 mod 8)"
proof -
  obtain k where k: "e = 8 * k" using assms by (rule dvdE)
  have "e = 32 * (k div 4) + 8 * (k mod 4)"
    unfolding k using div_mult_mod_eq [of k 4] by linarith
  then obtain q r where e: "e = 32 * q + 8 * r" "r < 4" by (metis mod_less_divisor zero_less_numeral)
  have "r = 0 \<or> r = 1 \<or> r = 2 \<or> r = 3" using e(2) by linarith
  then show "32 dvd (e + 4 * ((32 - e mod 32) div 4 mod 8))" "even ((32 - e mod 32) div 4 mod 8)"
    by (auto simp: e(1))
qed

lemma compact_layout:
  assumes e: "8 dvd e" and p: "32 dvd (e + 4 * c4)" "even c4" and b: "16 dvd c2b"
  shows "e \<le> align_down (packsz (snd (pos_of e c4 c2b i))) (fst (pos_of e c4 c2b i))"
    and "i \<le> k \<Longrightarrow> pack_end (pos_of e c4 c2b i) \<le> pack_end (pos_of e c4 c2b k)"
    and "snd (pos_of e c4 c2b i) \<in> {1, 2}"
proof -
  obtain n where "c2b = 16 * n" using b by (rule dvdE)
  then have d2: "32 dvd (e + 4 * c4 + 2 * c2b)" using p by simp
  have "8 dvd (32 :: nat)" by simp
  then have d3: "8 dvd (e + 4 * c4 + 2 * c2b)" "8 dvd (e + 4 * c4)" using d2 p(1) dvd_trans by blast+
  show "e \<le> align_down (packsz (snd (pos_of e c4 c2b i))) (fst (pos_of e c4 c2b i))"
  proof (cases "i < c4")
    case True
    then show ?thesis using align_down_ge [OF _ e] by (simp add: pos_of_def packsz_simps)
  next
    case False
    have "e + 4 * c4 \<le> align_down 32 (e + c4 * 4 + (i - c4) * 2)" by (rule align_down_ge) (use p in auto)
    moreover have "e + 4 * c4 + 2 * c2b \<le> align_down 8 (e + c4 * 4 + c2b * 2 + (i - c4 - c2b) * 4)"
      by (rule align_down_ge) (use d3 in auto)
    ultimately show ?thesis using False by (simp add: pos_of_def Let_def packsz_simps)
  qed
  show "snd (pos_of e c4 c2b i) \<in> {1, 2}" by (simp add: pos_of_def Let_def)
  have A: "pack_end (pos_of e c4 c2b i) \<le> e + 4 * c4" if "i < c4" for i
    using that align_down_next [OF _ d3(2), of "e + i * 4"] by (simp add: pos_of_def pack_end_def packsz_simps)
  have B: "pack_end (pos_of e c4 c2b i) \<le> e + 4 * c4 + 2 * c2b" if "i < c4 + c2b" "\<not> i < c4" for i
  proof -
    have "i - c4 < c2b" using that by linarith
    then show ?thesis using that align_down_next [OF _ d2, of "e + c4 * 4 + (i - c4) * 2"]
      by (simp add: pos_of_def pack_end_def packsz_simps Let_def)
  qed
  have C: "e + 4 * c4 \<le> pack_end (pos_of e c4 c2b k)" if "\<not> k < c4" for k
    using that align_down_ge [OF _ p(1), of "e + c4 * 4 + (k - c4) * 2"] align_down_ge [OF _ d3(2), of "e + c4 * 4 + c2b * 2 + (k - c4 - c2b) * 4"]
    by (simp add: pos_of_def pack_end_def packsz_simps Let_def)
  have D: "e + 4 * c4 + 2 * c2b \<le> pack_end (pos_of e c4 c2b k)" if "\<not> k < c4 + c2b" for k
  proof -
    have "\<not> k < c4" "\<not> k - c4 < c2b" using that by linarith+
    then show ?thesis using align_down_ge [OF _ d3(1), of "e + c4 * 4 + c2b * 2 + (k - c4 - c2b) * 4"]
      by (simp add: pos_of_def pack_end_def packsz_simps Let_def)
  qed
  show "pack_end (pos_of e c4 c2b i) \<le> pack_end (pos_of e c4 c2b k)" if ik: "i \<le> k"
  proof -
    consider "k < c4" | "i < c4" "\<not> k < c4" | "\<not> i < c4" "k < c4 + c2b" | "\<not> i < c4" "i < c4 + c2b" "\<not> k < c4 + c2b"
      | "\<not> i < c4 + c2b" by linarith
    then show ?thesis
    proof cases
      case 1
      then show ?thesis using ik align_down_mono [of "e + i * 4" "e + k * 4" 8]
        by (simp add: pos_of_def pack_end_def packsz_simps)
    next
      case 2
      then show ?thesis using A C by (meson le_trans)
    next
      case 3
      then have "i - c4 < c2b" "k - c4 < c2b" "\<not> k < c4" using ik by linarith+
      then show ?thesis using 3 ik align_down_mono [of "e + c4 * 4 + (i - c4) * 2" "e + c4 * 4 + (k - c4) * 2" 32]
        by (simp add: pos_of_def pack_end_def packsz_simps Let_def)
    next
      case 4
      then show ?thesis using B D by (meson le_trans)
    next
      case 5
      then have "\<not> i - c4 < c2b" "\<not> k - c4 < c2b" "\<not> i < c4" "\<not> k < c4" using ik by linarith+
      then show ?thesis using ik align_down_mono [of "e + c4 * 4 + c2b * 2 + (i - c4 - c2b) * 4" "e + c4 * 4 + c2b * 2 + (k - c4 - c2b) * 4" 8]
        by (simp add: pos_of_def pack_end_def packsz_simps Let_def)
    qed
  qed
qed

text \<open>A record's entry number, and the bytes its field is read from, lie inside its pack.\<close>

lemma compact_entry_in_pack:
  assumes "shift \<in> {1, 2}"
  shows "i < vcnt shift \<Longrightarrow> (packsz shift - 4) * 8 div vcnt shift * i div 8 + 4 \<le> packsz shift"
    and "(pos - align_down (packsz shift) pos) div 2 ^ shift < vcnt shift"
proof -
  have *: "pos - align_down a pos < a" if "0 < a" for a
  proof -
    have "pos < a + pos div a * a" using that by (rule dividend_less_div_times)
    then show ?thesis using that unfolding align_down_def by linarith
  qed
  from * [of "packsz shift"] show "(pos - align_down (packsz shift) pos) div 2 ^ shift < vcnt shift"
    using assms by (auto simp: packsz_def vcnt_def less_mult_imp_div_less)
  show "i < vcnt shift \<Longrightarrow> (packsz shift - 4) * 8 div vcnt shift * i div 8 + 4 \<le> packsz shift"
    using assms by (auto simp: packsz_simps)
qed

lemma nblk_big_errors: "nblk_big entry j n = Inl e \<Longrightarrow> e = CorruptCompact"
proof (induction entry j n rule: nblk_big.induct)
  case (1 entry j n)
  obtain lo ty where en: "entry (nat (j - 1)) = (lo, ty)" by (cases "entry (nat (j - 1))")
  have "nblk_big entry j n = (if 0 < j then
      if ty = LCL_NONHEAD then
        if bit lo 11 then nblk_big entry (j - 1 - 1) (n + (lo - CBLKCNT))
        else if 1 < lo then nblk_big entry (j - 1 - (int lo - 2)) n else Inl CorruptCompact
      else nblk_big entry (j - 1) (Suc n)
    else Inr n)"
    by (subst nblk_big.simps) (simp only: Let_def en prod.case)
  then show ?case using 1 en by (simp split: if_splits)
qed

lemma nblk_big_no_panic: "nblk_big entry j n \<noteq> Inl EPanic"
  using nblk_big_errors by fastforce

lemma read_exact_at_length: "read_exact_at v want off = Inr b \<Longrightarrow> length b = want"
  by (auto simp: read_exact_at_def Let_def result_simps)

lemma div_ceil_mono: "0 < a \<Longrightarrow> a \<le> b \<Longrightarrow> div_ceil n b \<le> div_ceil n a"
proof (cases "n = 0")
  case False
  assume "0 < a" "a \<le> b"
  then show ?thesis using False div_le_mono2 [of a b "n - 1"] by (simp add: div_ceil_pos_eq)
qed simp

text \<open>Every record the scan asks for is found, whatever the image holds.\<close>

lemma get_lcl_no_panic:
  assumes ld: "load_indexes er ino (align8 n) advise nlcl lcb = Inr ix" and i: "i < nlcl"
    and lcb: "nlcl = div_ceil (in_size ino) (2 ^ lcb)" "er_blkszbits er \<le> lcb"
  shows "get_lcl ix i \<noteq> Inl EPanic"
proof (cases "in_layout ino = 1")
  case True
  then have "length (ix_buf ix) = nlcl * 8" "ix_kind ix = IxFull"
    using ld read_exact_at_length by (auto simp: load_indexes_def Let_def result_simps)
  then show ?thesis using i by (simp add: get_lcl_def get_full_def slice_def Let_def bindR_eq_Inl ensureR_def)
next
  case False
  define e where "e = align8 n + 8"
  define t where "t = div_ceil (in_size ino) (blksz er)"
  define c4 where "c4 = (32 - e mod 32) div 4 mod 8"
  define c2b where "c2b = (if adv_compacted_2b advise \<and> c4 < t then align_down 16 (t - c4) else 0)"
  define fin where "fin = pack_end (pos_of e c4 c2b (nlcl - 1))"
  have eq: "load_indexes er ino (align8 n) advise nlcl lcb =
      bindR (read_exact_at (er_view er) (fin - e) e) (\<lambda>buf.
        Inr \<lparr>ix_buf = buf, ix_end = fin, ix_kind = IxCompact e lcb t c4 c2b (adv_big_pcluster_1 advise)\<rparr>)"
    using False
    by (simp add: load_indexes_def Let_def pack_end_def case_prod_unfold fin_def e_def t_def c4_def c2b_def)
  have ix: "length (ix_buf ix) = fin - e" "ix_kind ix = IxCompact e lcb t c4 c2b (adv_big_pcluster_1 advise)"
    using ld [unfolded eq] read_exact_at_length
    unfolding bindR_eq_Inr by auto
  have e8: "8 dvd e" unfolding e_def align8_def by simp
  have b: "16 dvd c2b" by (simp add: c2b_def align_down_def)
  note lay = compact_layout [OF e8 initial_packs [OF e8, folded c4_def] b]
  obtain pos shift where ps: "pos_of e c4 c2b i = (pos, shift)" by (cases "pos_of e c4 c2b i")
  have "e \<le> align_down (packsz shift) pos" using lay(1) [of i] ps by simp
  moreover have "align_down (packsz shift) pos + packsz shift \<le> fin"
    using lay(2) [of i "nlcl - 1"] i ps by (simp add: fin_def pack_end_def)
  ultimately show ?thesis using ix ps
    by (auto simp: get_lcl_def get_compact_def slice_def Let_def bindR_eq_Inl ensureR_def nblk_big_no_panic
        split: if_splits prod.splits)
qed

lemma scan_heads_errors:
  "scan_heads get lcb fsize lcns hs = Inl e \<Longrightarrow>
   (\<exists>i \<in> set lcns. get i = Inl e) \<or> (\<exists>i. e = CorruptClusterofs i)"
proof (induction get lcb fsize lcns hs rule: scan_heads.induct)
  case (2 get lcb fsize lcn lcns hs)
  show ?case
  proof (cases "get lcn")
    case (Inr l)
    then show ?thesis using 2 by (auto simp: Let_def ensureR_def split: if_splits)
  qed (use 2 in auto)
qed simp

lemma head_src_no_panic: "head_src m h llen is_last \<noteq> Inl EPanic"
proof -
  have "head_alg m h \<noteq> Inl EPanic" by (simp add: head_alg_def alg_of_def)
  moreover have "head_blocks m h \<noteq> Inl EPanic" by (simp add: head_blocks_def split: option.split)
  ultimately show ?thesis
    unfolding head_src_def by (cases "head_alg m h"; cases "head_blocks m h") (simp_all add: Let_def ensureR_def)
qed

lemma build_exts_no_panic: "build_exts m hs acc \<noteq> Inl EPanic"
proof (induction m hs acc rule: build_exts.induct)
  case (2 m h hs exts)
  then show ?case using head_src_no_panic by (simp add: Let_def bindR_eq_Inl ensureR_def)
qed simp

lemma read_exact_at_errors: "read_exact_at v want off = Inl e \<Longrightarrow> e = TruncatedRead want off"
  by (simp add: read_exact_at_def Let_def ensureR_def split: if_splits)

lemma load_indexes_errors: "load_indexes er ino hpos advise nlcl lcb = Inl e \<Longrightarrow> \<exists>n a. e = TruncatedRead n a"
  using read_exact_at_errors
  by (auto simp: load_indexes_def Let_def bindR_eq_Inl case_prod_unfold split: if_splits) blast+

text \<open>
  C13. Building an extent map never panics, whatever bytes the image holds: every index record the
  scan asks for, in the full layout and in the three regions of the compact one, lies inside the
  buffer that was read for the index area. Nor does it ever report an empty pcluster: the heads it
  collects are strictly ordered.
\<close>

theorem build_zplan_no_panic:
  "build_zplan er ino \<noteq> Inl EPanic \<and> build_zplan er ino \<noteq> Inl (EmptyPcluster n)"
proof -
  define bad where "bad e \<longleftrightarrow> e = EPanic \<or> e = EmptyPcluster n" for e
  have False if e: "build_zplan er ino = Inl e" "bad e" for e
  proof -
    have rd: "read_exact_at v w off \<noteq> Inl e" for v w off
      using e(2) read_exact_at_errors by (fastforce simp: bad_def)
    obtain h where h: "read_exact_at (er_view er) 8 (align8 (inode_end ino)) = Inr h"
      using e(1) rd by (auto simp: build_zplan_def Let_def bindR_eq_Inl)
    define lcb where "lcb = er_blkszbits er + unat (h ! 7) mod 16"
    define nlcl where "nlcl = div_ceil (in_size ino) (2 ^ lcb)"
    define m where "m ix = \<lparr>zm_blkszbits = er_blkszbits er, zm_layout = in_layout ino, zm_size = in_size ino,
        zm_lcb = lcb, zm_advise = le16 h 4, zm_algtype = unat (h ! 6), zm_fragoff = le32 h 0,
        zm_idata_size = le16 h 2, zm_idx_end = ix_end ix\<rparr>" for ix :: indexes
    have ld: "load_indexes er ino (align8 (inode_end ino)) (le16 h 4) nlcl lcb \<noteq> Inl e"
      using e(2) load_indexes_errors by (fastforce simp: bad_def)
    obtain ix where ix: "load_indexes er ino (align8 (inode_end ino)) (le16 h 4) nlcl lcb = Inr ix"
      and sc: "scan_heads (get_lcl ix) lcb (in_size ino) [0..<nlcl] [] = Inl e \<or>
        (\<exists>hs. scan_heads (get_lcl ix) lcb (in_size ino) [0..<nlcl] [] = Inr hs \<and> build_exts (m ix) hs [] = Inl e)"
      using e ld h unfolding build_zplan_def Let_def bad_def m_def nlcl_def lcb_def
      by (auto simp: bindR_eq_Inl ensureR_def split: if_splits)
    have "get_lcl ix i \<noteq> Inl EPanic" if "i < nlcl" for i
      by (rule get_lcl_no_panic [OF ix that]) (simp_all add: nlcl_def lcb_def)
    moreover have "get_lcl ix i \<noteq> Inl (EmptyPcluster n)" for i
      by (cases "ix_kind ix") (auto simp: get_lcl_def get_full_def get_compact_def slice_def Let_def bindR_eq_Inl
          ensureR_def dest!: nblk_big_errors split: if_splits prod.splits)
    ultimately have "scan_heads (get_lcl ix) lcb (in_size ino) [0..<nlcl] [] \<noteq> Inl e"
      using e(2) scan_heads_errors [of "get_lcl ix" lcb "in_size ino" "[0..<nlcl]" "[]" e] by (auto simp: bad_def)
    then obtain hs where hs: "scan_heads (get_lcl ix) lcb (in_size ino) [0..<nlcl] [] = Inr hs"
        "build_exts (m ix) hs [] = Inl e" using sc by blast
    have "sorted_wrt (<) (map zh_la hs) \<and> (\<forall>a \<in> set (map zh_la hs). a < in_size ino)"
      by (rule scan_heads_sorted [OF hs(1)]) simp_all
    then show False
      using hs(2) e(2) build_exts_no_panic build_exts_not_empty [of hs "m ix" "[]" n] by (auto simp: bad_def m_def)
  qed
  then show ?thesis unfolding bad_def by blast
qed

end
