(* ===== verification/Hdx_Reader.thy ===== *)
theory Hdx_Reader
  imports Hdx_View
begin

text \<open>
  The contract of \<open>std::io::Read\<close> that the program's own readers keep, as the locale
  \<open>byte_reader\<close>: a read returns the bytes at the reader's position, advances by as many, and
  returns none only at the end. \<open>read_to_end\<close> is the standard library's loop; the client's
  theorem, that it collects everything from the position on, is proved once here and used for the
  view (\<open>src/src/peek_source.rs\<close>) and for the EROFS stream reader.
\<close>

text \<open>The library picks the buffer of each read (\<open>bufs\<close>); \<open>None\<close> is running out of fuel.\<close>

fun read_to_end :: "(nat \<Rightarrow> 's \<Rightarrow> ('e + byte list) \<times> 's) \<Rightarrow> (nat \<Rightarrow> nat) \<Rightarrow> nat \<Rightarrow> 's \<Rightarrow>
    ('e + byte list) option \<times> 's" where
  "read_to_end rd bufs 0 s = (None, s)"
| "read_to_end rd bufs (Suc fuel) s =
     (case rd (bufs fuel) s of
        (Inl e, s) \<Rightarrow> (Some (Inl e), s)
      | (Inr [], s) \<Rightarrow> (Some (Inr []), s)
      | (Inr (b # bs), s) \<Rightarrow>
          (case read_to_end rd bufs fuel s of
             (Some (Inr rest), s) \<Rightarrow> (Some (Inr ((b # bs) @ rest)), s)
           | r \<Rightarrow> r))"

locale byte_reader =
  fixes rd :: "nat \<Rightarrow> 's \<Rightarrow> ('e + byte list) \<times> 's"
    and pos_of_reader :: "'s \<Rightarrow> nat"
    and stream :: "byte list"
    and inv :: "'s \<Rightarrow> bool"
  assumes reads: "inv s \<Longrightarrow> \<exists>bs s'. rd want s = (Inr bs, s') \<and> inv s' \<and> length bs \<le> want \<and>
      bs = window stream (pos_of_reader s) (length bs) \<and> pos_of_reader s' = pos_of_reader s + length bs"
    and progress: "inv s \<Longrightarrow> 0 < want \<Longrightarrow> pos_of_reader s < length stream \<Longrightarrow> rd want s = (Inr bs, s') \<Longrightarrow> bs \<noteq> []"
begin

lemma read_step:
  assumes "inv s" "0 < want"
  obtains (fin) s' where "rd want s = (Inr [], s')" "inv s'" "pos_of_reader s' = pos_of_reader s"
      "length stream \<le> pos_of_reader s"
  | (more) b bs s' where "rd want s = (Inr (b # bs), s')" "inv s'"
      "pos_of_reader s' = pos_of_reader s + length (b # bs)"
      "drop (pos_of_reader s) stream = (b # bs) @ drop (pos_of_reader s') stream"
      "pos_of_reader s' \<le> length stream"
proof -
  obtain bs s' where r: "rd want s = (Inr bs, s')" "inv s'" "length bs \<le> want"
      "bs = window stream (pos_of_reader s) (length bs)" "pos_of_reader s' = pos_of_reader s + length bs"
    using reads [OF assms(1)] by blast
  show thesis
  proof (cases bs)
    case Nil
    then show thesis using fin r progress [OF assms] by force
  next
    case (Cons b bs')
    have len: "length bs = min (length bs) (length stream - pos_of_reader s)"
      using r(4) by (metis length_window)
    then have "pos_of_reader s' \<le> length stream" using r(5) Cons by auto
    moreover have "drop (pos_of_reader s) stream = bs @ drop (pos_of_reader s') stream"
      using r(4,5) unfolding window_def by (metis append_take_drop_id drop_drop add.commute)
    ultimately show thesis using more r Cons by force
  qed
qed

lemma read_to_end_all:
  assumes "inv s" "\<And>k. 0 < bufs k" "length stream - pos_of_reader s < fuel"
  shows "\<exists>s'. read_to_end rd bufs fuel s = (Some (Inr (drop (pos_of_reader s) stream)), s') \<and> inv s'"
  using assms(1,3)
proof (induction fuel arbitrary: s)
  case (Suc fuel)
  show ?case
    using Suc.prems(1) assms(2) [of fuel]
  proof (cases rule: read_step)
    case (fin s')
    then show ?thesis by simp
  next
    case (more b bs s')
    then have "length stream - pos_of_reader s' < fuel" using Suc.prems(2) by auto
    then obtain s'' where "read_to_end rd bufs fuel s' = (Some (Inr (drop (pos_of_reader s') stream)), s'')" "inv s''"
      using Suc.IH more(2) by blast
    then show ?thesis using more(1,4) by simp
  qed
qed simp

end

text \<open>A cursor over a view is such a reader.\<close>

definition view_reader :: "nat \<Rightarrow> view \<Rightarrow> (unit + byte list) \<times> view" where
  "view_reader want v = (case view_read v want of (v', got) \<Rightarrow> (Inr got, v'))"

lemma view_bytes_pos [simp]: "view_bytes (v\<lparr>v_pos := p\<rparr>) = view_bytes v" "view_wf (v\<lparr>v_pos := p\<rparr>) = view_wf v"
  by (simp_all add: view_bytes_def view_wf_def)

interpretation vr: byte_reader view_reader v_pos "view_bytes v0" "\<lambda>v. view_wf v \<and> view_bytes v = view_bytes v0" for v0
proof unfold_locales
  fix s want
  assume s: "view_wf s \<and> view_bytes s = view_bytes v0"
  let ?got = "read_at_logical s want (v_pos s)"
  have r: "view_reader want s = (Inr ?got, s\<lparr>v_pos := v_pos s + length ?got\<rparr>)"
    by (simp add: view_reader_def view_read_def Let_def)
  have w: "?got = window (view_bytes v0) (v_pos s) (length ?got)"
    using read_at_logical_window(1) [of s want "v_pos s"] s by simp
  show "\<exists>bs s'. view_reader want s = (Inr bs, s') \<and> (view_wf s' \<and> view_bytes s' = view_bytes v0) \<and>
      length bs \<le> want \<and> bs = window (view_bytes v0) (v_pos s) (length bs) \<and> v_pos s' = v_pos s + length bs"
    unfolding r using s w length_read_at_logical by (intro exI conjI) (rule refl, simp_all)
  show "bs \<noteq> []" if "0 < want" "v_pos s < length (view_bytes v0)" "view_reader want s = (Inr bs, s')" for bs s'
    using read_at_logical_window(2) [of s want "v_pos s"] s that length_view_bytes [of s] r by simp
qed

lemma view_rewound_reads_all:
  assumes "view_wf v" "\<And>k. 0 < bufs k" "v_len v < fuel"
  shows "fst (read_to_end view_reader bufs fuel (view_rewound v)) = Some (Inr (view_bytes v))"
proof -
  have w: "view_wf (view_rewound v) \<and> view_bytes (view_rewound v) = view_bytes v" "v_pos (view_rewound v) = 0"
    using assms(1) by (simp_all add: view_rewound_def view_bytes_def view_wf_def)
  then show ?thesis
    using vr.read_to_end_all [of "view_rewound v" v bufs fuel] assms length_view_bytes [OF assms(1)] by auto
qed

end
