(* ===== verification/Hdx_Erofs_Read.thy ===== *)
theory Hdx_Erofs_Read
  imports Hdx_Erofs_Map Hdx_Reader
begin

text \<open>
  \<open>src/src/erofs.rs\<close>, the reading half: decoding a stored pcluster, the cache of decoded packed
  pclusters, and the streaming reader. The decompressors are parameters (\<open>z_codecs\<close>): each
  says what the library call leaves in an output buffer of the given size. The mutexes are
  modelled by the sequence in which their holders run.
\<close>

definition PACKED_CACHE_BYTES :: nat where "PACKED_CACHE_BYTES = 64 * 2 ^ 20"
definition LZMA_MAX_DICT :: nat where "LZMA_MAX_DICT = 8 * 2 ^ 20"

text \<open>
  \<open>zc_lz4 src cap\<close> is the block decoded into \<open>cap\<close> bytes, if it decodes; \<open>zc_lzma src len exact dict\<close>
  is \<open>None\<close> when the decoder is refused, else whether the stream ended and what was produced;
  \<open>zc_inflate src len\<close> and \<open>zc_zstd src len\<close> produce at most \<open>len\<close> bytes.
\<close>

record z_codecs =
  zc_lz4 :: "byte list \<Rightarrow> nat \<Rightarrow> byte list option"
  zc_lzma :: "byte list \<Rightarrow> nat \<Rightarrow> bool \<Rightarrow> nat \<Rightarrow> (bool \<times> byte list) option"
  zc_inflate :: "byte list \<Rightarrow> nat \<Rightarrow> byte list option"
  zc_zstd :: "byte list \<Rightarrow> nat \<Rightarrow> byte list option"

definition margin :: "byte list \<Rightarrow> nat" where
  "margin input = length (takeWhile (\<lambda>b. b = 0) input)"

definition pcluster_padding :: "byte list \<Rightarrow> nat" where
  "pcluster_padding stored = margin stored"

text \<open>A partial pcluster is retried with a doubled buffer. \<open>cap\<close> starts positive and only grows.\<close>

function lz4_decode :: "z_codecs \<Rightarrow> byte list \<Rightarrow> nat \<Rightarrow> bool \<Rightarrow> nat \<Rightarrow> erofs_error + byte list" where
  "lz4_decode zc src llen part cap =
     (case zc_lz4 zc src cap of
        Some out \<Rightarrow> if llen \<le> length out then Inr (take llen out) else Inl (Lz4Short (length out) llen)
      | None \<Rightarrow>
          if part \<and> 0 < cap \<and> cap < PCLUSTER_MAX_DSIZE
          then lz4_decode zc src llen part (min (cap * 2) PCLUSTER_MAX_DSIZE)
          else Inl Lz4Failed)"
  by pat_completeness auto
termination by (relation "measure (\<lambda>(zc, src, llen, part, cap). PCLUSTER_MAX_DSIZE - cap)") auto

declare lz4_decode.simps [simp del]

definition microlzma_decode :: "z_codecs \<Rightarrow> byte list \<Rightarrow> nat \<Rightarrow> bool \<Rightarrow> erofs_error + byte list" where
  "microlzma_decode zc input out_len exact =
     ensureR (input \<noteq> []) EmptyLzma
     (case zc_lzma zc input out_len exact LZMA_MAX_DICT of
        None \<Rightarrow> Inl LzmaInit
      | Some (stream_end, out) \<Rightarrow> ensureR (stream_end \<and> length out = out_len) LzmaFailed (Inr out))"

definition decode_raw ::
  "z_codecs \<Rightarrow> erofs \<Rightarrow> nat \<Rightarrow> nat \<Rightarrow> nat \<Rightarrow> alg \<Rightarrow> bool \<Rightarrow> erofs_error + byte list" where
  "decode_raw zc er pa plen llen a part =
     ensureR (plen \<le> PCLUSTER_MAX_SIZE \<and> llen \<le> PCLUSTER_MAX_DSIZE) ImplausiblePcluster
     (bindR (read_exact_at (er_view er) plen pa) (\<lambda>input.
      case a of
        Shifted \<Rightarrow> Inr (take llen input)
      | Interlaced skip \<Rightarrow>
          ensureR (length input \<le> blksz er) InterlacedTooLarge
          (let skip' = skip mod max (length input) 1;
               right = min (length input - skip') llen in
           bindR (slice input skip' right) (\<lambda>a. bindR (slice input 0 (llen - right)) (\<lambda>b. Inr (a @ b))))
      | Lz4 \<Rightarrow> lz4_decode zc (drop (margin input) input) llen part (max llen 1)
      | Lzma \<Rightarrow> microlzma_decode zc (drop (margin input) input) llen (\<not> part)
      | Deflate \<Rightarrow>
          (case zc_inflate zc (drop (margin input) input) llen of
             None \<Rightarrow> Inl DeflateFailed
           | Some out \<Rightarrow> ensureR (length out = llen) DeflateShort (Inr out))
      | Zstd \<Rightarrow>
          (case zc_zstd zc (drop (margin input) input) llen of
             Some out \<Rightarrow> ensureR (length out = llen) ZstdFailed (Inr out)
           | None \<Rightarrow> Inl ZstdFailed)))"

subsection \<open>The packed inode and its cache\<close>

record packed =
  pk_slot :: "zplan option"
  pk_map :: "(nat \<times> byte list) list"
  pk_order :: "nat list"
  pk_bytes :: nat

definition packed_new :: packed where
  "packed_new = \<lparr>pk_slot = None, pk_map = [], pk_order = [], pk_bytes = 0\<rparr>"

definition is_packed :: "zext \<Rightarrow> bool" where
  "is_packed e = (case ze_src e of ZPacked _ \<Rightarrow> True | _ \<Rightarrow> False)"

definition packed_source :: "erofs \<Rightarrow> erofs_error + zplan" where
  "packed_source er =
     ensureR (er_packed_nid er \<noteq> 0) NoPackedInode
       (bindR (read_inode er (er_packed_nid er)) (\<lambda>ino.
        bindR (build_zplan er ino) (\<lambda>plan.
        ensureR (\<not> list_ex is_packed (zp_exts plan)) PackedRecursion (Inr plan))))"

definition packed_plan :: "erofs \<Rightarrow> packed \<Rightarrow> (erofs_error + zplan) \<times> packed" where
  "packed_plan er pk =
     (case pk_slot pk of
        Some p \<Rightarrow> (Inr p, pk)
      | None \<Rightarrow>
          (case packed_source er of
             Inl e \<Rightarrow> (Inl e, pk)
           | Inr plan \<Rightarrow> (Inr plan, pk\<lparr>pk_slot := Some plan\<rparr>)))"

text \<open>The eviction loop: the oldest entries go until the total fits.\<close>

fun evict :: "nat list \<Rightarrow> (nat \<times> byte list) list \<Rightarrow> nat \<Rightarrow> nat list \<times> (nat \<times> byte list) list \<times> nat" where
  "evict [] m bytes = ([], m, bytes)"
| "evict (old # order) m bytes =
     (if PACKED_CACHE_BYTES < bytes then
        (case map_of m old of
           Some v \<Rightarrow> evict order (hm_remove old m) (bytes - length v)
         | None \<Rightarrow> evict order m bytes)
      else (old # order, m, bytes))"

definition packed_insert :: "nat \<Rightarrow> byte list \<Rightarrow> packed \<Rightarrow> packed" where
  "packed_insert la bytes pk =
     (let m = hm_insert la bytes (pk_map pk) in
      if map_of (pk_map pk) la = None then
        let (order, m', total) = evict (pk_order pk @ [la]) m (pk_bytes pk + length bytes) in
        pk\<lparr>pk_map := m', pk_order := order, pk_bytes := total\<rparr>
      else pk\<lparr>pk_map := m\<rparr>)"

definition packed_chunk ::
  "z_codecs \<Rightarrow> erofs \<Rightarrow> nat \<Rightarrow> nat \<Rightarrow> nat \<Rightarrow> nat \<Rightarrow> alg \<Rightarrow> bool \<Rightarrow> packed \<Rightarrow> (erofs_error + byte list) \<times> packed" where
  "packed_chunk zc er la pa plen llen a part pk =
     (case map_of (pk_map pk) la of
        Some hit \<Rightarrow> (Inr hit, pk)
      | None \<Rightarrow>
          (case decode_raw zc er pa plen llen a part of
             Inl e \<Rightarrow> (Inl e, pk)
           | Inr bytes \<Rightarrow> (Inr bytes, packed_insert la bytes pk)))"

text \<open>\<open>partition_point\<close> on a list whose extents are in order: the number of leading extents that end
  by the offset.\<close>

definition packed_read ::
  "z_codecs \<Rightarrow> erofs \<Rightarrow> nat \<Rightarrow> nat \<Rightarrow> packed \<Rightarrow> (erofs_error + byte list) \<times> packed" where
  "packed_read zc er off want pk =
     (case packed_plan er pk of
        (Inl e, pk) \<Rightarrow> (Inl e, pk)
      | (Inr plan, pk) \<Rightarrow>
          if \<not> off < zp_size plan then (Inl FragmentBeyond, pk)
          else let i = length (takeWhile (\<lambda>e. ze_la e + ze_llen e \<le> off) (zp_exts plan)) in
            if length (zp_exts plan) \<le> i then (Inl EPanic, pk)
            else let e = zp_exts plan ! i; within = off - ze_la e; n = min want (ze_llen e - within) in
              (case ze_src e of
                 ZZero \<Rightarrow> (Inr (replicate n 0), pk)
               | ZRaw pa plen a part \<Rightarrow>
                   (case packed_chunk zc er (ze_la e) pa plen (ze_llen e) a part pk of
                      (Inl err, pk) \<Rightarrow> (Inl err, pk)
                    | (Inr chunk, pk) \<Rightarrow> (slice chunk within n, pk))
               | ZPacked _ \<Rightarrow> (Inl EPanic, pk)))"

subsection \<open>The reader\<close>

record zreader =
  zr_pos :: nat
  zr_idx :: nat
  zr_cur :: "byte list option"

definition zreader_new :: zreader where
  "zreader_new = \<lparr>zr_pos = 0, zr_idx = 0, zr_cur = None\<rparr>"

text \<open>The loop that skips the extents already read.\<close>

function skip_exts :: "zext list \<Rightarrow> zreader \<Rightarrow> zreader" where
  "skip_exts exts r =
     (if zr_idx r < length exts \<and> \<not> zr_pos r < ze_la (exts ! zr_idx r) + ze_llen (exts ! zr_idx r)
      then skip_exts exts (r\<lparr>zr_idx := Suc (zr_idx r), zr_cur := None\<rparr>)
      else r)"
  by pat_completeness auto
termination by (relation "measure (\<lambda>(exts, r). length exts - zr_idx r)") auto

declare skip_exts.simps [simp del]

definition zread ::
  "z_codecs \<Rightarrow> erofs \<Rightarrow> zplan \<Rightarrow> nat \<Rightarrow> zreader \<times> packed \<Rightarrow> (erofs_error + byte list) \<times> zreader \<times> packed" where
  "zread zc er plan want = (\<lambda>(r, pk).
     if zp_size plan \<le> zr_pos r \<or> want = 0 then (Inr [], r, pk)
     else let r = skip_exts (zp_exts plan) r in
       if length (zp_exts plan) \<le> zr_idx r then (Inl MapEndsEarly, r, pk)
       else let e = zp_exts plan ! zr_idx r in
         if zr_pos r < ze_la e then (Inl MapHasGap, r, pk)
         else let within = zr_pos r - ze_la e; n = min want (ze_llen e - within) in
           (case ze_src e of
              ZZero \<Rightarrow> (Inr (replicate n 0), r\<lparr>zr_pos := zr_pos r + n\<rparr>, pk)
            | ZPacked off \<Rightarrow>
                (case packed_read zc er (off + within) n pk of
                   (Inl err, pk) \<Rightarrow> (Inl err, r, pk)
                 | (Inr got, pk) \<Rightarrow> (Inr got, r\<lparr>zr_pos := zr_pos r + length got\<rparr>, pk))
            | ZRaw pa plen a part \<Rightarrow>
                (case (case zr_cur r of
                         Some cur \<Rightarrow> Inr cur
                       | None \<Rightarrow> decode_raw zc er pa plen (ze_llen e) a part) of
                   Inl err \<Rightarrow> (Inl err, r, pk)
                 | Inr cur \<Rightarrow>
                     (case slice cur within n of
                        Inl err \<Rightarrow> (Inl err, r\<lparr>zr_cur := Some cur\<rparr>, pk)
                      | Inr bs \<Rightarrow> (Inr bs, r\<lparr>zr_cur := Some cur, zr_pos := zr_pos r + n\<rparr>, pk)))))"

subsection \<open>The cache stays within its limit\<close>

definition cache_total :: "(nat \<times> byte list) list \<Rightarrow> nat" where
  "cache_total m = sum_list (map (\<lambda>(k, v). length v) m)"

definition pk_inv :: "packed \<Rightarrow> bool" where
  "pk_inv pk \<longleftrightarrow> distinct (map fst (pk_map pk)) \<and> distinct (pk_order pk) \<and>
     set (pk_order pk) = fst ` set (pk_map pk) \<and> pk_bytes pk = cache_total (pk_map pk)"

lemma cache_total_simps [simp]:
  "cache_total [] = 0" "cache_total ((k, v) # m) = length v + cache_total m"
  by (simp_all add: cache_total_def)

lemma cache_total_remove:
  "distinct (map fst m) \<Longrightarrow> map_of m k = Some v \<Longrightarrow> cache_total m = length v + cache_total (hm_remove k m)"
proof (induction m)
  case (Cons e m)
  then show ?case by (cases e) (auto simp: hm_remove_absent)
qed simp

lemma cache_total_insert: "map_of m k = None \<Longrightarrow> cache_total (hm_insert k v m) = cache_total m + length v"
  by (induction m) (auto split: if_splits)

lemma cache_total_replace:
  "map_of m k = Some w \<Longrightarrow> length v = length w \<Longrightarrow> cache_total (hm_insert k v m) = cache_total m"
  by (induction m) (auto split: if_splits)

lemma evict_inv:
  assumes "evict order m b = (order', m', b')" "distinct (map fst m)" "distinct order"
    and "set order = fst ` set m" "b = cache_total m"
  shows "distinct (map fst m') \<and> distinct order' \<and> set order' = fst ` set m' \<and> b' = cache_total m' \<and>
         b' \<le> PACKED_CACHE_BYTES \<and> set m' \<subseteq> set m"
  using assms
proof (induction order m b rule: evict.induct)
  case (2 old order m bytes)
  show ?case
  proof (cases "PACKED_CACHE_BYTES < bytes")
    case True
    have "old \<in> fst ` set m" using "2.prems"(4) by auto
    then obtain v where v: "map_of m old = Some v" using "2.prems"(2) by (metis map_of_eq_None_iff not_None_eq)
    have "fst ` set (hm_remove old m) = set order" using "2.prems"(3,4) by (auto simp: hm_remove_keys)
    moreover have "bytes - length v = cache_total (hm_remove old m)"
      using cache_total_remove [OF "2.prems"(2) v] "2.prems"(5) by simp
    moreover have "set (hm_remove old m) \<subseteq> set m" by (auto simp: hm_remove_def)
    ultimately show ?thesis
      using "2.IH"(2) [OF True v] "2.prems"(1-3) True v hm_remove_distinct [OF "2.prems"(2), of old] by auto
  qed (use "2.prems" in auto)
qed (auto simp: cache_total_def)

lemma packed_insert_inv:
  assumes "pk_inv pk" "\<And>w. map_of (pk_map pk) la = Some w \<Longrightarrow> length bytes = length w"
    and "pk_bytes pk \<le> PACKED_CACHE_BYTES"
  shows "pk_inv (packed_insert la bytes pk) \<and> pk_bytes (packed_insert la bytes pk) \<le> PACKED_CACHE_BYTES \<and>
         set (pk_map (packed_insert la bytes pk)) \<subseteq> insert (la, bytes) (set (pk_map pk)) \<and>
         pk_slot (packed_insert la bytes pk) = pk_slot pk"
proof (cases "map_of (pk_map pk) la")
  case None
  obtain order m b where ev: "evict (pk_order pk @ [la]) (hm_insert la bytes (pk_map pk)) (pk_bytes pk + length bytes) = (order, m, b)"
    by (cases "evict (pk_order pk @ [la]) (hm_insert la bytes (pk_map pk)) (pk_bytes pk + length bytes)")
  have "la \<notin> fst ` set (pk_map pk)" using None by (simp add: map_of_eq_None_iff)
  then have "distinct (map fst m) \<and> distinct order \<and> set order = fst ` set m \<and> b = cache_total m \<and>
      b \<le> PACKED_CACHE_BYTES \<and> set m \<subseteq> set (hm_insert la bytes (pk_map pk))"
    using assms(1) None by (intro evict_inv [OF ev])
      (auto simp: pk_inv_def hm_insert_distinct hm_insert_keys cache_total_insert)
  moreover have "set (hm_insert la bytes (pk_map pk)) \<subseteq> insert (la, bytes) (set (pk_map pk))"
    using hm_insert_mem by fastforce
  ultimately show ?thesis using None ev by (auto simp: packed_insert_def pk_inv_def)
next
  case (Some w)
  have "set (hm_insert la bytes (pk_map pk)) \<subseteq> insert (la, bytes) (set (pk_map pk))"
    using hm_insert_mem by fastforce
  moreover have "la \<in> fst ` set (pk_map pk)" using Some by (force dest: map_of_SomeD)
  ultimately show ?thesis using assms Some
    by (auto simp: packed_insert_def pk_inv_def hm_insert_distinct hm_insert_keys cache_total_replace)
qed

subsection \<open>What a stream holds\<close>

lemma slice_eq: "slice b off n = (if off + n \<le> length b then Inr (window b off n) else Inl EPanic)"
  by (simp add: slice_def ensureR_def)

lemma lz4_decode_length: "lz4_decode zc src llen part cap = Inr b \<Longrightarrow> length b = llen"
proof (induction zc src llen part cap rule: lz4_decode.induct)
  case (1 zc src llen part cap)
  then show ?case by (subst (asm) (2) lz4_decode.simps) (auto split: option.splits if_splits)
qed

text \<open>A decoded pcluster has its logical length, unless it is a plain one stored too short.\<close>

lemma decode_raw_length:
  assumes "decode_raw zc er pa plen llen a part = Inr b" "a = Shifted \<longrightarrow> llen \<le> plen"
  shows "length b = llen"
proof (cases a)
  case (Interlaced skip)
  then show ?thesis using assms
    by (auto simp: decode_raw_def result_simps Let_def slice_eq length_window split: if_splits)
next
  case Lz4
  then show ?thesis using assms lz4_decode_length by (auto simp: decode_raw_def result_simps)
qed (use assms read_exact_at_length in \<open>auto simp: decode_raw_def result_simps microlzma_decode_def split: option.splits\<close>)

lemma decode_raw_bound: "decode_raw zc er pa plen llen a part = Inr b \<Longrightarrow> llen \<le> PCLUSTER_MAX_DSIZE"
  by (simp add: decode_raw_def ensureR_eq_Inr)

text \<open>The bytes an extent stands for, when it can be read.\<close>

definition raw_content :: "z_codecs \<Rightarrow> erofs \<Rightarrow> zext \<Rightarrow> byte list option" where
  "raw_content zc er e =
     (case ze_src e of
        ZZero \<Rightarrow> Some (replicate (ze_llen e) 0)
      | ZRaw pa plen a part \<Rightarrow>
          (case decode_raw zc er pa plen (ze_llen e) a part of
             Inr b \<Rightarrow> if length b = ze_llen e then Some b else None
           | Inl _ \<Rightarrow> None)
      | ZPacked _ \<Rightarrow> None)"

fun contents :: "(zext \<Rightarrow> byte list option) \<Rightarrow> zext list \<Rightarrow> byte list option" where
  "contents f [] = Some []"
| "contents f (e # es) =
     (case (f e, contents f es) of (Some a, Some b) \<Rightarrow> Some (a @ b) | _ \<Rightarrow> None)"

definition packed_content :: "z_codecs \<Rightarrow> erofs \<Rightarrow> byte list" where
  "packed_content zc er =
     (case packed_source er of
        Inr plan \<Rightarrow> (case contents (raw_content zc er) (zp_exts plan) of Some b \<Rightarrow> b | None \<Rightarrow> [])
      | Inl _ \<Rightarrow> [])"

definition ext_content :: "z_codecs \<Rightarrow> erofs \<Rightarrow> zext \<Rightarrow> byte list option" where
  "ext_content zc er e =
     (case ze_src e of
        ZPacked off \<Rightarrow>
          if off + ze_llen e \<le> length (packed_content zc er) then Some (window (packed_content zc er) off (ze_llen e))
          else None
      | _ \<Rightarrow> raw_content zc er e)"

definition file_content :: "z_codecs \<Rightarrow> erofs \<Rightarrow> zplan \<Rightarrow> byte list option" where
  "file_content zc er plan = contents (ext_content zc er) (zp_exts plan)"

lemma raw_content_length: "raw_content zc er e = Some b \<Longrightarrow> length b = ze_llen e"
  by (auto simp: raw_content_def split: zsrc.splits sum.splits if_splits)

lemma ext_content_length: "ext_content zc er e = Some b \<Longrightarrow> length b = ze_llen e"
  using raw_content_length
  by (auto simp: ext_content_def length_window split: zsrc.splits if_splits)

text \<open>An extent found by position, and its share of the contents.\<close>

definition ext_off :: "zext list \<Rightarrow> nat \<Rightarrow> nat" where
  "ext_off es k = sum_list (map ze_llen (take k es))"

lemma tiles_off: "ext_tiles a es b \<Longrightarrow> k < length es \<Longrightarrow> ze_la (es ! k) = a + ext_off es k"
proof (induction es arbitrary: a k)
  case (Cons e es)
  then show ?case by (cases k) (auto simp: ext_off_def)
qed simp

lemma tiles_total: "ext_tiles a es b \<Longrightarrow> b = a + ext_off es (length es)"
proof (induction es arbitrary: a)
  case (Cons e es)
  then have "b = (a + ze_llen e) + ext_off es (length es)" by simp
  then show ?case by (simp add: ext_off_def)
qed (simp add: ext_off_def)

lemma ext_off_Suc: "k < length es \<Longrightarrow> ext_off es (Suc k) = ext_off es k + ze_llen (es ! k)"
  by (simp add: ext_off_def take_Suc_conv_app_nth)

lemma contents_length:
  "contents f es = Some c \<Longrightarrow> (\<And>e x. f e = Some x \<Longrightarrow> length x = ze_llen e) \<Longrightarrow> length c = ext_off es (length es)"
  by (induction es arbitrary: c) (auto simp: ext_off_def split: option.splits)

lemma contents_nth:
  assumes "contents f es = Some c" "\<And>e x. f e = Some x \<Longrightarrow> length x = ze_llen e" "k < length es"
  shows "f (es ! k) = Some (window c (ext_off es k) (ze_llen (es ! k)))"
  using assms(1,3)
proof (induction es arbitrary: c k)
  case (Cons e es)
  obtain x y where xy: "f e = Some x" "contents f es = Some y" "c = x @ y"
    using Cons.prems(1) by (auto split: option.splits)
  show ?case
  proof (cases k)
    case 0
    then show ?thesis using xy assms(2) [OF xy(1)] by (simp add: ext_off_def window_def)
  next
    case (Suc j)
    have "window (x @ y) (ze_llen e + m) n = window y m n" for m n
      using assms(2) [OF xy(1)] by (simp add: window_append_right)
    then show ?thesis using Suc xy Cons by (simp add: ext_off_def)
  qed
qed simp

lemma located:
  assumes "ext_tiles 0 es b" "pos < b" "\<forall>k < i. k < length es \<longrightarrow> ze_la (es ! k) + ze_llen (es ! k) \<le> pos"
    and "i < length es \<longrightarrow> pos < ze_la (es ! i) + ze_llen (es ! i)" "i \<le> length es"
  shows "i < length es" "ze_la (es ! i) \<le> pos" "pos < ze_la (es ! i) + ze_llen (es ! i)"
proof -
  have le: "ext_off es i \<le> pos"
  proof (cases i)
    case (Suc k)
    then have "ze_la (es ! k) + ze_llen (es ! k) \<le> pos" using assms(3,5) by simp
    then show ?thesis using Suc assms(5) tiles_off [OF assms(1), of k] ext_off_Suc [of k es] by simp
  qed (simp add: ext_off_def)
  then show "i < length es" using tiles_total [OF assms(1)] assms(2,5) by (cases "i = length es") auto
  then show "ze_la (es ! i) \<le> pos" "pos < ze_la (es ! i) + ze_llen (es ! i)"
    using le tiles_off [OF assms(1)] assms(4) by simp_all
qed

text \<open>A piece of an extent is a piece of the contents.\<close>

lemma contents_piece:
  assumes "contents f es = Some c" "\<And>e x. f e = Some x \<Longrightarrow> length x = ze_llen e" "ext_tiles 0 es b"
    and "k < length es" "f (es ! k) = Some x" "ze_la (es ! k) \<le> pos" "pos - ze_la (es ! k) + n \<le> ze_llen (es ! k)"
  shows "window x (pos - ze_la (es ! k)) n = window c pos n"
proof -
  have "x = window c (ze_la (es ! k)) (ze_llen (es ! k))"
    using contents_nth [OF assms(1,2,4)] assms(5) tiles_off [OF assms(3,4)] by simp
  then show ?thesis using assms(6,7) by (simp add: window_window min_absorb1)
qed

subsection \<open>Packed reads\<close>

text \<open>The state the readers share: the packed map is the image's, every cached chunk is the decoded
  content of the packed extent at its key, and the account is right.\<close>

definition pk_ok :: "z_codecs \<Rightarrow> erofs \<Rightarrow> packed \<Rightarrow> bool" where
  "pk_ok zc er pk \<longleftrightarrow>
     (\<forall>p. pk_slot pk = Some p \<longrightarrow> packed_source er = Inr p) \<and> pk_inv pk \<and> pk_bytes pk \<le> PACKED_CACHE_BYTES \<and>
     (\<forall>(la, v) \<in> set (pk_map pk). \<exists>plan. packed_source er = Inr plan \<and>
        (\<exists>e \<in> set (zp_exts plan). ze_la e = la \<and> raw_content zc er e = Some v))"

lemma packed_new_ok: "pk_ok zc er packed_new"
  by (simp add: pk_ok_def packed_new_def pk_inv_def)

lemma packed_plan_cases:
  assumes "pk_ok zc er pk"
  shows "\<exists>pk'. packed_plan er pk = (packed_source er, pk') \<and> pk_ok zc er pk'"
proof (cases "pk_slot pk")
  case None
  then show ?thesis using assms
    by (cases "packed_source er") (auto simp: packed_plan_def pk_ok_def pk_inv_def)
next
  case (Some p)
  then show ?thesis using assms by (auto simp: packed_plan_def pk_ok_def)
qed

lemma packed_source_tiles:
  assumes "packed_source er = Inr plan" "0 < zp_size plan"
  shows "ext_tiles 0 (zp_exts plan) (zp_size plan)" "\<forall>e \<in> set (zp_exts plan). 0 < ze_llen e \<and> \<not> is_packed e"
proof -
  obtain ino where i: "build_zplan er ino = Inr plan" "\<not> list_ex is_packed (zp_exts plan)"
    using assms(1) by (auto simp: packed_source_def result_simps)
  show "ext_tiles 0 (zp_exts plan) (zp_size plan)" "\<forall>e \<in> set (zp_exts plan). 0 < ze_llen e \<and> \<not> is_packed e"
    using build_zplan_tiles [OF i(1)] assms(2) i(2) by (auto simp: ext_ok_def list_ex_iff)
qed

text \<open>In a tiling of non-empty extents a start names one extent.\<close>

lemma tiles_inj:
  assumes "ext_tiles a es b" "\<forall>e \<in> set es. 0 < ze_llen e"
  shows "e \<in> set es \<Longrightarrow> e' \<in> set es \<Longrightarrow> ze_la e = ze_la e' \<Longrightarrow> e = e'"
  using assms
proof (induction es arbitrary: a)
  case (Cons x es)
  have ge: "ext_tiles c ys d \<Longrightarrow> y \<in> set ys \<Longrightarrow> c \<le> ze_la y" for c ys d y
    by (induction ys arbitrary: c) fastforce+
  have "ze_la x < ze_la y" if "y \<in> set es" for y
    using ge [of "a + ze_llen x" es b y] Cons.prems(4,5) that by fastforce
  then show ?case using Cons by (metis ext_tiles.simps(2) less_irrefl set_ConsD list.set_intros(2))
qed simp

lemma packed_chunk_ok:
  assumes ok: "pk_ok zc er pk" and src: "packed_source er = Inr plan" "0 < zp_size plan"
    and e: "e \<in> set (zp_exts plan)" "ze_src e = ZRaw pa plen a part" "raw_content zc er e = Some v"
  shows "\<exists>pk'. packed_chunk zc er (ze_la e) pa plen (ze_llen e) a part pk = (Inr v, pk') \<and> pk_ok zc er pk'"
proof (cases "map_of (pk_map pk) (ze_la e)")
  case (Some hit)
  then have "(ze_la e, hit) \<in> set (pk_map pk)" by (rule map_of_SomeD)
  then obtain e' where "e' \<in> set (zp_exts plan)" "ze_la e' = ze_la e" "raw_content zc er e' = Some hit"
    using ok src by (fastforce simp: pk_ok_def)
  then have "hit = v" using tiles_inj packed_source_tiles [OF src] e by (metis option.inject)
  then show ?thesis using Some ok by (simp add: packed_chunk_def)
next
  case None
  have "decode_raw zc er pa plen (ze_llen e) a part = Inr v"
    using e(2,3) by (simp add: raw_content_def split: sum.splits if_splits)
  moreover have "pk_ok zc er (packed_insert (ze_la e) v pk)"
  proof -
    have i: "pk_inv (packed_insert (ze_la e) v pk) \<and> pk_bytes (packed_insert (ze_la e) v pk) \<le> PACKED_CACHE_BYTES \<and>
         set (pk_map (packed_insert (ze_la e) v pk)) \<subseteq> insert (ze_la e, v) (set (pk_map pk)) \<and>
         pk_slot (packed_insert (ze_la e) v pk) = pk_slot pk"
      by (rule packed_insert_inv) (use ok None in \<open>auto simp: pk_ok_def\<close>)
    have "\<exists>plan. packed_source er = Inr plan \<and> (\<exists>e \<in> set (zp_exts plan). ze_la e = la \<and> raw_content zc er e = Some w)"
      if "(la, w) \<in> set (pk_map (packed_insert (ze_la e) v pk))" for la w
    proof (cases "(la, w) = (ze_la e, v)")
      case True
      then show ?thesis using src e by blast
    next
      case False
      then have "(la, w) \<in> set (pk_map pk)" using that i by blast
      then show ?thesis using ok by (auto simp: pk_ok_def)
    qed
    then show ?thesis using i ok by (auto simp: pk_ok_def)
  qed
  ultimately show ?thesis using None by (simp add: packed_chunk_def)
qed

text \<open>A read of the packed stream: the bytes at the offset, some unless none are wanted.\<close>

lemma packed_read_ok:
  assumes ok: "pk_ok zc er pk" and off: "off < length (packed_content zc er)"
  shows "\<exists>bs pk'. packed_read zc er off want pk = (Inr bs, pk') \<and> pk_ok zc er pk' \<and> length bs \<le> want \<and>
      bs = window (packed_content zc er) off (length bs) \<and> (0 < want \<longrightarrow> bs \<noteq> [])"
proof -
  obtain plan c where src: "packed_source er = Inr plan" "contents (raw_content zc er) (zp_exts plan) = Some c"
      "packed_content zc er = c"
    using off by (auto simp: packed_content_def split: sum.splits option.splits)
  have "0 < ext_off (zp_exts plan) (length (zp_exts plan))"
    using off contents_length [OF src(2) raw_content_length] src(3) by simp
  moreover obtain ino where bz: "build_zplan er ino = Inr plan"
    using src(1) by (auto simp: packed_source_def result_simps)
  ultimately have size: "0 < zp_size plan" using build_zplan_tiles [OF bz] tiles_total by fastforce
  note t = packed_source_tiles [OF src(1) size]
  have clen: "length c = zp_size plan"
    using contents_length [OF src(2) raw_content_length] tiles_total [OF t(1)] by simp
  define i where "i = length (takeWhile (\<lambda>e. ze_la e + ze_llen e \<le> off) (zp_exts plan))"
  have "\<forall>k < i. k < length (zp_exts plan) \<longrightarrow> ze_la (zp_exts plan ! k) + ze_llen (zp_exts plan ! k) \<le> off"
    unfolding i_def by (metis nth_mem set_takeWhileD takeWhile_nth)
  moreover have "i < length (zp_exts plan) \<longrightarrow> off < ze_la (zp_exts plan ! i) + ze_llen (zp_exts plan ! i)"
    unfolding i_def using nth_length_takeWhile [of "\<lambda>e. ze_la e + ze_llen e \<le> off" "zp_exts plan"] by linarith
  moreover have "i \<le> length (zp_exts plan)" unfolding i_def by (rule length_takeWhile_le)
  ultimately have loc: "i < length (zp_exts plan)" "ze_la (zp_exts plan ! i) \<le> off"
      "off < ze_la (zp_exts plan ! i) + ze_llen (zp_exts plan ! i)"
    using located [OF t(1), of off i] off src(3) clen by simp_all
  define e where "e = zp_exts plan ! i"
  define n where "n = min want (ze_llen e - (off - ze_la e))"
  have e: "e \<in> set (zp_exts plan)" using loc(1) by (simp add: e_def)
  obtain x where x: "raw_content zc er e = Some x"
    using contents_nth [OF src(2) raw_content_length loc(1)] by (auto simp: e_def)
  have xl: "length x = ze_llen e" using raw_content_length [OF x] .
  have n: "n \<le> want" "0 < want \<Longrightarrow> 0 < n" "off - ze_la e + n \<le> ze_llen e"
    using loc(2,3) by (auto simp: n_def e_def)
  have piece: "window x (off - ze_la e) n = window c off n"
    unfolding e_def
    by (rule contents_piece [OF src(2) raw_content_length t(1) loc(1)])
      (use x loc(2) n(3) in \<open>simp_all add: e_def\<close>)
  have len: "length (window x (off - ze_la e) n) = n" using n(3) xl by (simp add: length_window)
  have goal: ?thesis if "packed_read zc er off want pk = (Inr (window x (off - ze_la e) n), pk')" "pk_ok zc er pk'" for pk'
    using that n(1,2) piece len src(3) by (intro exI [of _ "window x (off - ze_la e) n"] exI [of _ pk']) fastforce
  obtain pk1 where pp: "packed_plan er pk = (Inr plan, pk1)" "pk_ok zc er pk1"
    using packed_plan_cases [OF ok] src(1) by auto
  have step: "packed_read zc er off want pk =
      (case ze_src e of
         ZZero \<Rightarrow> (Inr (replicate n 0), pk1)
       | ZRaw pa plen a part \<Rightarrow>
           (case packed_chunk zc er (ze_la e) pa plen (ze_llen e) a part pk1 of
              (Inl err, pk) \<Rightarrow> (Inl err, pk)
            | (Inr chunk, pk) \<Rightarrow> (slice chunk (off - ze_la e) n, pk))
       | ZPacked _ \<Rightarrow> (Inl EPanic, pk1))"
    using pp(1) off src(3) clen loc(1) unfolding packed_read_def Let_def e_def n_def i_def by simp
  show ?thesis
  proof (cases "ze_src e")
    case (ZRaw pa plen a part)
    obtain pk2 where "packed_chunk zc er (ze_la e) pa plen (ze_llen e) a part pk1 = (Inr x, pk2)" "pk_ok zc er pk2"
      using packed_chunk_ok [OF pp(2) src(1) size e ZRaw x] by blast
    then show ?thesis using step ZRaw n(3) xl by (intro goal) (simp_all add: slice_eq)
  next
    case (ZPacked off')
    then show ?thesis using t(2) e by (auto simp: is_packed_def)
  next
    case ZZero
    then have "x = replicate (ze_llen e) 0" using x by (simp add: raw_content_def)
    then have "window x (off - ze_la e) n = replicate n 0"
      using n(3) by (simp add: window_def min_absorb1)
    then show ?thesis using step ZZero pp(2) by (intro goal) simp_all
  qed
qed

subsection \<open>Reading a file\<close>

lemma skip_exts_spec:
  "\<forall>k < zr_idx r. k < length es \<longrightarrow> ze_la (es ! k) + ze_llen (es ! k) \<le> zr_pos r \<Longrightarrow> zr_idx r \<le> length es \<Longrightarrow>
   zr_pos (skip_exts es r) = zr_pos r \<and> zr_idx (skip_exts es r) \<le> length es \<and>
   (\<forall>k < zr_idx (skip_exts es r). k < length es \<longrightarrow> ze_la (es ! k) + ze_llen (es ! k) \<le> zr_pos r) \<and>
   (zr_idx (skip_exts es r) < length es \<longrightarrow>
      zr_pos r < ze_la (es ! zr_idx (skip_exts es r)) + ze_llen (es ! zr_idx (skip_exts es r))) \<and>
   (zr_cur (skip_exts es r) = None \<or> skip_exts es r = r)"
proof (induction es r rule: skip_exts.induct)
  case (1 es r)
  show ?case
  proof (cases "zr_idx r < length es \<and> \<not> zr_pos r < ze_la (es ! zr_idx r) + ze_llen (es ! zr_idx r)")
    case True
    let ?r = "r\<lparr>zr_idx := Suc (zr_idx r), zr_cur := None\<rparr>"
    have s: "skip_exts es r = skip_exts es ?r" using True by (subst skip_exts.simps) simp
    have "\<forall>k < Suc (zr_idx r). k < length es \<longrightarrow> ze_la (es ! k) + ze_llen (es ! k) \<le> zr_pos r"
      using 1(2) True by (auto simp: less_Suc_eq)
    then show ?thesis using "1.IH" [OF True] True unfolding s by auto
  next
    case False
    then have "skip_exts es r = r" by (subst skip_exts.simps) auto
    then show ?thesis using 1(2,3) False by auto
  qed
qed

text \<open>A reader of a readable file: the file's extents are tiled and readable, everything before the
  current extent has been read, and a buffered pcluster is that extent's content.\<close>

definition readable :: "z_codecs \<Rightarrow> erofs \<Rightarrow> zplan \<Rightarrow> bool" where
  "readable zc er plan \<longleftrightarrow> ext_tiles 0 (zp_exts plan) (zp_size plan) \<and>
     (\<forall>e \<in> set (zp_exts plan). 0 < ze_llen e) \<and> file_content zc er plan \<noteq> None"

definition reader_ok :: "z_codecs \<Rightarrow> erofs \<Rightarrow> zplan \<Rightarrow> zreader \<times> packed \<Rightarrow> bool" where
  "reader_ok zc er plan = (\<lambda>(r, pk). readable zc er plan \<and> pk_ok zc er pk \<and> zr_idx r \<le> length (zp_exts plan) \<and>
     (\<forall>k < zr_idx r. k < length (zp_exts plan) \<longrightarrow>
        ze_la (zp_exts plan ! k) + ze_llen (zp_exts plan ! k) \<le> zr_pos r) \<and>
     (\<forall>c. zr_cur r = Some c \<longrightarrow> zr_idx r < length (zp_exts plan) \<and>
        raw_content zc er (zp_exts plan ! zr_idx r) = Some c))"

definition stream_of :: "z_codecs \<Rightarrow> erofs \<Rightarrow> zplan \<Rightarrow> byte list" where
  "stream_of zc er plan = (case file_content zc er plan of Some b \<Rightarrow> b | None \<Rightarrow> [])"

lemma readable_length: "readable zc er plan \<Longrightarrow> length (stream_of zc er plan) = zp_size plan"
  using contents_length [OF _ ext_content_length] tiles_total
  by (fastforce simp: readable_def stream_of_def file_content_def)

lemma reader_ok_advance:
  assumes "reader_ok zc er plan (r, pk)" "pk_ok zc er pk'" "zr_pos r \<le> p"
    and "cur = None \<or> zr_idx r < length (zp_exts plan) \<and> raw_content zc er (zp_exts plan ! zr_idx r) = cur"
  shows "reader_ok zc er plan (r\<lparr>zr_cur := cur, zr_pos := p\<rparr>, pk')"
  using assms by (auto simp: reader_ok_def intro: order_trans)

lemma zread_ok:
  assumes ok: "reader_ok zc er plan (r, pk)"
  shows "\<exists>bs r' pk'. zread zc er plan want (r, pk) = (Inr bs, r', pk') \<and> reader_ok zc er plan (r', pk') \<and>
      length bs \<le> want \<and> bs = window (stream_of zc er plan) (zr_pos r) (length bs) \<and>
      zr_pos r' = zr_pos r + length bs \<and> (0 < want \<and> zr_pos r < zp_size plan \<longrightarrow> bs \<noteq> [])"
proof (cases "zp_size plan \<le> zr_pos r \<or> want = 0")
  case True
  then have "zread zc er plan want (r, pk) = (Inr [], r, pk)" by (simp add: zread_def)
  then show ?thesis using ok True by (intro exI conjI) (auto simp: window_0_len)
next
  case False
  let ?es = "zp_exts plan"
  obtain c where c: "contents (ext_content zc er) ?es = Some c" "stream_of zc er plan = c"
    and t: "ext_tiles 0 ?es (zp_size plan)" and pk: "pk_ok zc er pk"
    using ok by (auto simp: reader_ok_def readable_def stream_of_def file_content_def)
  define r1 where "r1 = skip_exts ?es r"
  have sk: "zr_pos r1 = zr_pos r" "zr_idx r1 \<le> length ?es"
      "\<forall>k < zr_idx r1. k < length ?es \<longrightarrow> ze_la (?es ! k) + ze_llen (?es ! k) \<le> zr_pos r"
      "zr_idx r1 < length ?es \<longrightarrow> zr_pos r < ze_la (?es ! zr_idx r1) + ze_llen (?es ! zr_idx r1)"
      "zr_cur r1 = None \<or> r1 = r"
    using skip_exts_spec [of r ?es] ok by (auto simp: reader_ok_def r1_def)
  have ok1: "reader_ok zc er plan (r1, pk)" using ok sk by (auto simp: reader_ok_def)
  have loc: "zr_idx r1 < length ?es" "ze_la (?es ! zr_idx r1) \<le> zr_pos r"
      "zr_pos r < ze_la (?es ! zr_idx r1) + ze_llen (?es ! zr_idx r1)"
    using located [OF t _ sk(3,4,2)] False by simp_all
  define e where "e = ?es ! zr_idx r1"
  define within where "within = zr_pos r - ze_la e"
  define n where "n = min want (ze_llen e - within)"
  obtain x where x: "ext_content zc er e = Some x"
    using contents_nth [OF c(1) ext_content_length loc(1)] by (auto simp: e_def)
  have xl: "length x = ze_llen e" using ext_content_length [OF x] .
  have n: "n \<le> want" "0 < n" "within + n \<le> ze_llen e"
    using loc(2,3) False by (auto simp: n_def e_def within_def)
  have piece: "window x within k = window c (zr_pos r) k" if "k \<le> n" for k
    unfolding e_def within_def
    by (rule contents_piece [OF c(1) ext_content_length t loc(1)])
      (use x loc(2) n(3) that in \<open>simp_all add: e_def within_def\<close>)
  have len: "length (window x within n) = n" using n(3) xl by (simp add: length_window)
  have goal: ?thesis
    if "zread zc er plan want (r, pk) = (Inr (window x within k), r1\<lparr>zr_cur := cur, zr_pos := zr_pos r + k\<rparr>, pk')"
      "0 < k" "k \<le> n" "pk_ok zc er pk'" "cur = None \<or> raw_content zc er e = cur" for k pk' cur
  proof -
    have "length (window x within k) = k" using that(3) n(3) xl by (simp add: length_window)
    moreover have "reader_ok zc er plan (r1\<lparr>zr_cur := cur, zr_pos := zr_pos r + k\<rparr>, pk')"
      by (rule reader_ok_advance [OF ok1 that(4)]) (use that(5) sk(1) loc(1) in \<open>auto simp: e_def\<close>)
    ultimately show ?thesis using that(1-3) n(1) piece [OF that(3)] c(2)
      by (intro exI [of _ "window x within k"] exI [of _ "r1\<lparr>zr_cur := cur, zr_pos := zr_pos r + k\<rparr>"] exI [of _ pk'])
        auto
  qed
  have cur_ok: "zr_cur r1 = None \<or> raw_content zc er e = zr_cur r1"
    using ok1 by (cases "zr_cur r1") (simp_all add: reader_ok_def e_def)
  have step: "zread zc er plan want (r, pk) =
      (case ze_src e of
         ZZero \<Rightarrow> (Inr (replicate n 0), r1\<lparr>zr_pos := zr_pos r + n\<rparr>, pk)
       | ZPacked off \<Rightarrow>
           (case packed_read zc er (off + within) n pk of
              (Inl err, pk) \<Rightarrow> (Inl err, r1, pk)
            | (Inr got, pk) \<Rightarrow> (Inr got, r1\<lparr>zr_pos := zr_pos r + length got\<rparr>, pk))
       | ZRaw pa plen a part \<Rightarrow>
           (case (case zr_cur r1 of Some cur \<Rightarrow> Inr cur | None \<Rightarrow> decode_raw zc er pa plen (ze_llen e) a part) of
              Inl err \<Rightarrow> (Inl err, r1, pk)
            | Inr cur \<Rightarrow>
                (case slice cur within n of
                   Inl err \<Rightarrow> (Inl err, r1\<lparr>zr_cur := Some cur\<rparr>, pk)
                 | Inr bs \<Rightarrow> (Inr bs, r1\<lparr>zr_cur := Some cur, zr_pos := zr_pos r + n\<rparr>, pk))))"
    using False loc(1,2)
    unfolding zread_def Let_def prod.case r1_def [symmetric] sk(1) e_def n_def within_def by simp
  show ?thesis
  proof (cases "ze_src e")
    case (ZRaw pa plen a part)
    then have raw: "raw_content zc er e = Some x" using x by (simp add: ext_content_def)
    then have "(case zr_cur r1 of Some cur \<Rightarrow> Inr cur | None \<Rightarrow> decode_raw zc er pa plen (ze_llen e) a part) = Inr x"
      using ok1 ZRaw by (auto simp: reader_ok_def e_def raw_content_def split: option.splits sum.splits if_splits)
    then show ?thesis using step ZRaw n raw xl pk
      by (intro goal [of n "Some x" pk]) (simp_all add: slice_eq)
  next
    case (ZPacked off)
    let ?p = "packed_content zc er"
    have px: "off + ze_llen e \<le> length ?p" "x = window ?p off (ze_llen e)"
      using x ZPacked by (auto simp: ext_content_def split: if_splits)
    then obtain bs pk' where b: "packed_read zc er (off + within) n pk = (Inr bs, pk')" "pk_ok zc er pk'"
        "length bs \<le> n" "bs = window ?p (off + within) (length bs)" "bs \<noteq> []"
      using packed_read_ok [OF pk, of "off + within" n] n(2,3) by auto
    have "window x within (length bs) = bs"
      using px(2) b(3,4) n(3) by (simp add: window_window min_absorb1)
    moreover note cur_ok
    ultimately show ?thesis using step ZPacked b
      by (intro goal [of "length bs" "zr_cur r1" pk']) simp_all
  next
    case ZZero
    then have "x = replicate (ze_llen e) 0" using x by (simp add: ext_content_def raw_content_def)
    then have "window x within n = replicate n 0" using n(3) by (simp add: window_def min_absorb1)
    moreover note cur_ok
    ultimately show ?thesis using step ZZero pk n(2)
      by (intro goal [of n "zr_cur r1" pk]) simp_all
  qed
qed

interpretation zr: byte_reader "zread zc er plan" "\<lambda>(r, pk). zr_pos r" "stream_of zc er plan" "reader_ok zc er plan"
  for zc er plan
proof unfold_locales
  fix s want
  assume s: "reader_ok zc er plan s"
  obtain r pk where rp: "s = (r, pk)" by (cases s)
  have len: "length (stream_of zc er plan) = zp_size plan"
    using s by (auto simp: reader_ok_def rp intro: readable_length)
  obtain bs r' pk' where z: "zread zc er plan want (r, pk) = (Inr bs, r', pk')" "reader_ok zc er plan (r', pk')"
      "length bs \<le> want" "bs = window (stream_of zc er plan) (zr_pos r) (length bs)"
      "zr_pos r' = zr_pos r + length bs" "0 < want \<and> zr_pos r < zp_size plan \<longrightarrow> bs \<noteq> []"
    using zread_ok s rp by blast
  show "\<exists>bs s'. zread zc er plan want s = (Inr bs, s') \<and> reader_ok zc er plan s' \<and> length bs \<le> want \<and>
      bs = window (stream_of zc er plan) (case s of (r, pk) \<Rightarrow> zr_pos r) (length bs) \<and>
      (case s' of (r, pk) \<Rightarrow> zr_pos r) = (case s of (r, pk) \<Rightarrow> zr_pos r) + length bs"
    using z(1-5) unfolding rp by (intro exI [of _ bs] exI [of _ "(r', pk')"]) simp
  show "bs' \<noteq> []" if "0 < want" "(case s of (r, pk) \<Rightarrow> zr_pos r) < length (stream_of zc er plan)"
      "zread zc er plan want s = (Inr bs', s')" for bs' s'
    using that z(1,6) len by (simp add: rp)
qed

definition zread_to_end :: "z_codecs \<Rightarrow> erofs \<Rightarrow> zplan \<Rightarrow> (nat \<Rightarrow> nat) \<Rightarrow> nat \<Rightarrow> packed \<Rightarrow>
    (erofs_error + byte list) option \<times> zreader \<times> packed" where
  "zread_to_end zc er plan bufs fuel pk = read_to_end (zread zc er plan) bufs fuel (zreader_new, pk)"

text \<open>
  C11. Reading a compressed file to its end returns exactly the bytes its extents stand for, size many
  of them, however the reads are sized, whatever the shared cache of packed pclusters holds before
  (other readers' chunks, or none) and whatever it evicts on the way; the cache is left sound.
\<close>

theorem zreader_exact:
  assumes "readable zc er plan" "pk_ok zc er pk" "\<And>k. 0 < bufs k" "zp_size plan < fuel"
  shows "\<exists>content r pk'. file_content zc er plan = Some content \<and> length content = zp_size plan \<and>
           zread_to_end zc er plan bufs fuel pk = (Some (Inr content), r, pk') \<and> pk_ok zc er pk'"
proof -
  have ok: "reader_ok zc er plan (zreader_new, pk)"
    using assms(1,2) by (simp add: reader_ok_def zreader_new_def)
  obtain content where c: "file_content zc er plan = Some content" "stream_of zc er plan = content"
    using assms(1) by (auto simp: readable_def stream_of_def)
  obtain s where "zread_to_end zc er plan bufs fuel pk = (Some (Inr content), s)" "reader_ok zc er plan s"
    using zr.read_to_end_all [OF ok, of bufs fuel] assms(3,4) readable_length [OF assms(1)] c(2)
    by (auto simp: zread_to_end_def zreader_new_def)
  then show ?thesis using c readable_length [OF assms(1)] by (cases s) (auto simp: reader_ok_def)
qed

subsection \<open>Small images\<close>

text \<open>A file of a hole and a stored block, read with buffers of one byte.\<close>

theorem zreader_exact_witness:
  "\<exists>r pk. zread_to_end \<lparr>zc_lz4 = (\<lambda>_ _. None), zc_lzma = (\<lambda>_ _ _ _. None), zc_inflate = (\<lambda>_ _. None), zc_zstd = (\<lambda>_ _. None)\<rparr>
      (mem_erofs 9 [7, 8, 9])
      \<lparr>zp_size = 5, zp_exts = [\<lparr>ze_la = 0, ze_llen = 2, ze_src = ZZero\<rparr>, \<lparr>ze_la = 2, ze_llen = 3, ze_src = ZRaw 0 3 Shifted False\<rparr>]\<rparr>
      (\<lambda>_. 1) 6 packed_new = (Some (Inr [0, 0, 7, 8, 9]), r, pk)"
proof -
  let ?zc = "\<lparr>zc_lz4 = (\<lambda>_ _. None), zc_lzma = (\<lambda>_ _ _ _. None), zc_inflate = (\<lambda>_ _. None), zc_zstd = (\<lambda>_ _. None)\<rparr>"
  let ?er = "mem_erofs 9 [7, 8, 9]"
  let ?p = "\<lparr>zp_size = 5, zp_exts = [\<lparr>ze_la = 0, ze_llen = 2, ze_src = ZZero\<rparr>, \<lparr>ze_la = 2, ze_llen = 3, ze_src = ZRaw 0 3 Shifted False\<rparr>]\<rparr>"
  have "decode_raw ?zc ?er 0 3 3 Shifted False = Inr [7, 8, 9]"
    by (simp add: decode_raw_def read_exact_at_def Let_def window_def PCLUSTER_MAX_SIZE_def PCLUSTER_MAX_DSIZE_def)
  then have c: "file_content ?zc ?er ?p = Some [0, 0, 7, 8, 9]"
    by (simp add: file_content_def ext_content_def raw_content_def numeral_2_eq_2)
  then have "readable ?zc ?er ?p" by (auto simp: readable_def)
  then show ?thesis using zreader_exact [OF _ packed_new_ok, of ?zc ?er ?p "\<lambda>_. 1" 6] c by auto
qed

text \<open>
  The cache of decoded packed pclusters keeps its account, whichever readers insert in whatever
  order: after any sequence of insertions in which a key always comes with the same length (it
  names one pcluster), the recorded total is the sum of the cached lengths and at most 64 MiB,
  the queue names exactly the cached keys, once each, and every cached entry is one of the
  inserted ones.
\<close>

theorem packed_cache_bounded:
  assumes "\<forall>(la, v) \<in> set ops. length v = len la"
  shows "let pk = foldl (\<lambda>pk (la, v). packed_insert la v pk) packed_new ops in
           pk_bytes pk = sum_list (map (length \<circ> snd) (pk_map pk)) \<and> pk_bytes pk \<le> PACKED_CACHE_BYTES \<and>
           distinct (pk_order pk) \<and> set (pk_order pk) = fst ` set (pk_map pk) \<and> distinct (map fst (pk_map pk)) \<and>
           set (pk_map pk) \<subseteq> set ops"
proof -
  have "pk_inv (foldl (\<lambda>pk (la, v). packed_insert la v pk) packed_new ops) \<and>
      pk_bytes (foldl (\<lambda>pk (la, v). packed_insert la v pk) packed_new ops) \<le> PACKED_CACHE_BYTES \<and>
      set (pk_map (foldl (\<lambda>pk (la, v). packed_insert la v pk) packed_new ops)) \<subseteq> set ops"
    using assms
  proof (induction ops rule: rev_induct)
    case (snoc o' ops)
    obtain la v where o: "o' = (la, v)" by (cases o')
    let ?pk = "foldl (\<lambda>pk (la, v). packed_insert la v pk) packed_new ops"
    have IH: "pk_inv ?pk \<and> pk_bytes ?pk \<le> PACKED_CACHE_BYTES \<and> set (pk_map ?pk) \<subseteq> set ops"
      using snoc by simp
    have "length v = length w" if "map_of (pk_map ?pk) la = Some w" for w
    proof -
      have "(la, w) \<in> set ops" using map_of_SomeD [OF that] IH by blast
      then show ?thesis using snoc.prems by (auto simp: o)
    qed
    then show ?case using packed_insert_inv [of ?pk la v] IH by (auto simp: o)
  qed (simp add: packed_new_def pk_inv_def)
  then show ?thesis by (simp add: pk_inv_def Let_def cache_total_def case_prod_unfold comp_def)
qed

theorem packed_cache_bounded_witness:
  "pk_bytes (foldl (\<lambda>pk (la, v). packed_insert la v pk) packed_new [(0, [1, 2]), (5, [3])]) \<le> PACKED_CACHE_BYTES"
  using packed_cache_bounded [of "[(0, [1, 2]), (5, [3])]" "\<lambda>la. if la = 0 then 2 else 1"]
  by (simp add: Let_def)

subsection \<open>Plain pclusters shorter than their span\<close>

lemma build_exts_short:
  assumes "build_exts m hs exts = Inr r"
  shows "\<exists>es. r = exts @ es \<and> length es = length hs \<and>
    (\<forall>j < length es. \<forall>pa plen part. ze_src (es ! j) = ZRaw pa plen Shifted part \<longrightarrow> plen < ze_llen (es ! j) \<longrightarrow>
       Suc j = length es \<and> adv_inline_pcluster (zm_advise m) \<and> plen = zm_idata_size m)"
  using assms
proof (induction m hs exts rule: build_exts.induct)
  case (2 m h hs exts)
  let ?llen = "(case hs of n # _ \<Rightarrow> zh_la n | [] \<Rightarrow> zm_size m) - zh_la h"
  obtain src where c: "zh_la h < (case hs of n # _ \<Rightarrow> zh_la n | [] \<Rightarrow> zm_size m)" "?llen \<le> PCLUSTER_MAX_DSIZE"
    "head_src m h ?llen (hs = []) = Inr src"
    and rec: "build_exts m hs (exts @ [\<lparr>ze_la = zh_la h, ze_llen = ?llen, ze_src = src\<rparr>]) = Inr r"
    using "2.prems"(1) by (auto simp: Let_def result_simps)
  let ?e = "\<lparr>ze_la = zh_la h, ze_llen = ?llen, ze_src = src\<rparr>"
  obtain es where es: "r = (exts @ [?e]) @ es" "length es = length hs"
    "\<forall>j < length es. \<forall>pa plen part. ze_src (es ! j) = ZRaw pa plen Shifted part \<longrightarrow> plen < ze_llen (es ! j) \<longrightarrow>
       Suc j = length es \<and> adv_inline_pcluster (zm_advise m) \<and> plen = zm_idata_size m"
    using "2.IH" [OF refl refl c rec] by blast
  have head: "hs = [] \<and> adv_inline_pcluster (zm_advise m) \<and> plen = zm_idata_size m"
    if "src = ZRaw pa plen Shifted part" "plen < ?llen" for pa plen part
    using c(3) that unfolding head_src_def by (auto simp: result_simps Let_def split: if_splits)
  have "Suc j = length (?e # es) \<and> adv_inline_pcluster (zm_advise m) \<and> plen = zm_idata_size m"
    if "j < length (?e # es)" "ze_src ((?e # es) ! j) = ZRaw pa plen Shifted part" "plen < ze_llen ((?e # es) ! j)"
    for j pa plen part
    using that es(2,3) head by (cases j) auto
  then show ?case using es(1,2) by (intro exI [of _ "?e # es"]) simp
qed simp

text \<open>Of the plain pclusters of a compressed file only the inline tail can be shorter than its span.\<close>

lemma zplan_short:
  assumes "build_zplan er ino = Inr zp" "i < length (zp_exts zp)" "ze_src (zp_exts zp ! i) = ZRaw pa plen Shifted part"
    and "plen < ze_llen (zp_exts zp ! i)"
  shows "Suc i = length (zp_exts zp) \<and>
    (\<exists>h. read_exact_at (er_view er) 8 (align8 (inode_end ino)) = Inr h \<and> adv_inline_pcluster (le16 h 4) \<and> plen = le16 h 2)"
proof -
  obtain h where h: "read_exact_at (er_view er) 8 (align8 (inode_end ino)) = Inr h"
    using assms(1) by (auto simp: build_zplan_def Let_def result_simps)
  have packed: "le64 h 0 div 2 ^ 63 \<noteq> 1"
  proof
    assume "le64 h 0 div 2 ^ 63 = 1"
    then have "zp = \<lparr>zp_size = in_size ino,
        zp_exts = [\<lparr>ze_la = 0, ze_llen = in_size ino, ze_src = ZPacked (le64 h 0 - 2 ^ 63)\<rparr>]\<rparr>"
      using assms(1) h unfolding build_zplan_def Let_def by simp
    then show False using assms(2,3) by simp
  qed
  have size: "in_size ino \<noteq> 0"
  proof
    assume "in_size ino = 0"
    then have "zp = \<lparr>zp_size = 0, zp_exts = []\<rparr>"
      using assms(1) h packed unfolding build_zplan_def Let_def by (simp add: result_simps)
    then show False using assms(2) by simp
  qed
  obtain m heads exts where "build_exts m heads [] = Inr exts" "zp_exts zp = exts" "zm_advise m = le16 h 4"
    "zm_idata_size m = le16 h 2"
    using assms(1) h packed size unfolding build_zplan_def Let_def by (auto simp: result_simps)
  then show ?thesis using build_exts_short [of m heads "[]" exts] assms(2-4) h by auto
qed

lemma ext_tiles_nth: "ext_tiles a es b \<Longrightarrow> i < length es \<Longrightarrow> ze_la (es ! i) + ze_llen (es ! i) \<le> b"
proof (induction es arbitrary: a i)
  case (Cons e es)
  have "c \<le> b" if "ext_tiles c es b" for c using that by (induction es arbitrary: c) force+
  then show ?case using Cons by (cases i) force+
qed simp

text \<open>
  C24. A plain pcluster stored inline is not checked against the span it covers. A read of a plain
  extent whose stored bytes the image holds panics, slicing past them, exactly when it reaches beyond
  the stored bytes; and an extent with fewer stored bytes than its span is the last one, stored inline,
  with the unchecked length the map header states: the bound is enforced for pclusters in blocks only.
\<close>

theorem inline_plain_panics:
  assumes "build_zplan er ino = Inr zp" "i < length (zp_exts zp)" "e = zp_exts zp ! i"
    and "ze_src e = ZRaw pa plen Shifted part" "length (read_full_at (er_view er) plen pa) = plen"
    and "ze_la e \<le> pos" "pos < ze_la e + ze_llen e" "0 < want"
  shows "(fst (zread zc er zp want (\<lparr>zr_pos = pos, zr_idx = i, zr_cur = None\<rparr>, pk)) = Inl EPanic \<longleftrightarrow>
            plen < (pos - ze_la e) + min want (ze_llen e - (pos - ze_la e))) \<and>
         (plen < ze_llen e \<longrightarrow> Suc i = length (zp_exts zp) \<and>
            (\<exists>h. read_exact_at (er_view er) 8 (align8 (inode_end ino)) = Inr h \<and> adv_inline_pcluster (le16 h 4) \<and> plen = le16 h 2))"
proof
  let ?r = "\<lparr>zr_pos = pos, zr_idx = i, zr_cur = None\<rparr>" and ?in = "read_full_at (er_view er) plen pa"
  note tiles = build_zplan_tiles [OF assms(1)]
  have "pos < zp_size zp" using ext_tiles_nth [OF _ assms(2), of 0] tiles assms(3,7) by fastforce
  moreover from this have "ext_ok e" using tiles assms(2,3) by simp
  then have "plen \<le> PCLUSTER_MAX_SIZE" "ze_llen e \<le> PCLUSTER_MAX_DSIZE" using assms(4) by (simp_all add: ext_ok_def)
  then have "decode_raw zc er pa plen (ze_llen e) Shifted part = Inr (take (ze_llen e) ?in)"
    using assms(5) by (simp add: decode_raw_def read_exact_at_def Let_def)
  moreover have "skip_exts (zp_exts zp) ?r = ?r" using assms(2,3,7) by (subst skip_exts.simps) simp
  ultimately show "fst (zread zc er zp want (?r, pk)) = Inl EPanic \<longleftrightarrow>
      plen < (pos - ze_la e) + min want (ze_llen e - (pos - ze_la e))"
    using assms(2-8) by (simp add: zread_def Let_def slice_def ensureR_def) linarith?
  show "plen < ze_llen e \<longrightarrow> Suc i = length (zp_exts zp) \<and>
      (\<exists>h. read_exact_at (er_view er) 8 (align8 (inode_end ino)) = Inr h \<and> adv_inline_pcluster (le16 h 4) \<and> plen = le16 h 2)"
    using zplan_short [OF assms(1,2)] assms(3,4) by blast
qed

text \<open>An image of 1594 bytes: a superblock of 512-byte blocks with the inodes in block 3; there an inode in the full
  layout of size 10, a map header with the inline flag and two inline bytes, one index record of a plain
  head, and the two bytes. It opens, and the first read of the file panics.\<close>

definition ex_inline_image :: "byte list" where
  "ex_inline_image = replicate 1024 0 @
     [0xE2, 0xE1, 0xF5, 0xE0, 0, 0, 0, 0, 0, 0, 0, 0, 9, 0, 0, 0] @ replicate 24 0 @ [3, 0, 0, 0] @ replicate 468 0 @
     [2, 0, 0, 0, 0xA4, 0x81, 0, 0, 10, 0, 0, 0, 0, 0, 0, 0, 0, 0, 0, 0, 0, 0, 0, 0, 0, 0, 0, 0, 0, 0, 0, 0,
      0, 0, 2, 0, 8, 0, 0, 0, 0, 0, 0, 0, 0, 0, 0, 0, 0, 0, 0, 0, 0, 0, 0, 0, 1, 2]"

definition ex_inline :: erofs where
  "ex_inline = (mem_erofs 9 ex_inline_image)\<lparr>er_meta_base := 1536\<rparr>"

definition ex_inline_plan :: zplan where
  "ex_inline_plan = \<lparr>zp_size = 10, zp_exts = [\<lparr>ze_la = 0, ze_llen = 10, ze_src = ZRaw 1592 2 Shifted False\<rparr>]\<rparr>"

definition ex_inline_inode :: inode where
  "ex_inline_inode = \<lparr>in_base = 1536, in_isize = 32, in_xattr = 0, in_mode = 0x81A4, in_size = 10, in_layout = 1, in_u = 0\<rparr>"

lemma ex_inline_reads:
  "read_full_at (er_view ex_inline) want off = window ex_inline_image off want" "er_blkszbits ex_inline = 9"
  "er_meta_base ex_inline = 1536"
proof -
  have "er_view ex_inline = er_view (mem_erofs 9 ex_inline_image)" by (simp add: ex_inline_def)
  then show "read_full_at (er_view ex_inline) want off = window ex_inline_image off want" by (simp only: mem_erofs_simps)
qed (simp_all add: ex_inline_def)

lemma ex_inline_opens: "erofs_open (er_view ex_inline) = Inr ex_inline"
  by (simp add: erofs_open_def read_exact_at_def ex_inline_reads Let_def EROFS_SUPER_OFFSET_def)
    (simp add: ex_inline_image_def window_def le_fields EROFS_MAGIC_def FEAT_KNOWN_def ex_inline_def mem_erofs_def
      FEAT_48BIT_def FEAT_METABOX_def FEAT_COMPR_CFGS_def le_nat_zeros nth_append)

lemma ex_inline_read_inode: "read_inode ex_inline 0 = Inr ex_inline_inode"
  by (simp add: read_inode_def ex_inline_reads Let_def)
    (simp add: ex_inline_image_def ex_inline_inode_def window_def le_fields)

lemma ex_inline_erofs_plan: "build_zplan ex_inline ex_inline_inode = Inr ex_inline_plan"
proof -
  have h: "read_exact_at (er_view ex_inline) 8 1568 = Inr [0, 0, 2, 0, 8, 0, 0, 0]"
    "read_exact_at (er_view ex_inline) 8 1584 = Inr [0, 0, 0, 0, 0, 0, 0, 0]"
    by (simp_all add: ex_inline_reads read_exact_at_def Let_def) (simp_all add: ex_inline_image_def window_def)
  have a: "align8 (inode_end ex_inline_inode) = 1568" "div_ceil 10 512 = 1" "er_blkszbits ex_inline = 9"
    by (simp_all add: align8_def inode_end_def ex_inline_inode_def div_ceil_def ex_inline_reads)
  have i: "in_size ex_inline_inode = 10" "in_layout ex_inline_inode = 1" by (simp_all add: ex_inline_inode_def)
  have ld: "load_indexes ex_inline ex_inline_inode 1568 8 1 9 =
      Inr \<lparr>ix_buf = [0, 0, 0, 0, 0, 0, 0, 0], ix_end = 1592, ix_kind = IxFull\<rparr>"
    by (simp add: load_indexes_def Let_def i h)
  show ?thesis
    unfolding build_zplan_def Let_def a i
    by (simp add: h a ld [unfolded One_nat_def] le_fields window_def bit_iff_odd lcl_defs slice_def get_lcl_def get_full_def
        ex_inline_plan_def head_src_def head_alg_def PCLUSTER_MAX_DSIZE_def)
qed

theorem inline_plain_panics_witness:
  "erofs_open (er_view ex_inline) = Inr ex_inline \<and> read_inode ex_inline 0 = Inr ex_inline_inode \<and>
   erofs_plan ex_inline ex_inline_inode = Inr (Streamed ex_inline_plan) \<and>
   (\<forall>zc pk. fst (zread zc ex_inline ex_inline_plan 4096 (zreader_new, pk)) = Inl EPanic)"
proof -
  let ?e = "\<lparr>ze_la = 0, ze_llen = 10, ze_src = ZRaw 1592 2 Shifted False\<rparr>"
  have e: "0 < length (zp_exts ex_inline_plan)" "?e = zp_exts ex_inline_plan ! 0" by (simp_all add: ex_inline_plan_def)
  have stored: "length (read_full_at (er_view ex_inline) 2 1592) = 2"
    by (simp add: ex_inline_reads) (simp add: ex_inline_image_def window_def)
  have "fst (zread zc ex_inline ex_inline_plan 4096 (\<lparr>zr_pos = 0, zr_idx = 0, zr_cur = None\<rparr>, pk)) = Inl EPanic \<longleftrightarrow>
      2 < (0 - ze_la ?e) + min 4096 (ze_llen ?e - (0 - ze_la ?e))" for zc pk
    by (rule conjunct1 [OF inline_plain_panics [OF ex_inline_erofs_plan e _ stored, where part = False]]) simp_all
  then have "fst (zread zc ex_inline ex_inline_plan 4096 (\<lparr>zr_pos = 0, zr_idx = 0, zr_cur = None\<rparr>, pk)) = Inl EPanic" for zc pk
    by simp
  moreover have "erofs_plan ex_inline ex_inline_inode = Inr (Streamed ex_inline_plan)"
    by (simp add: erofs_plan_def ex_inline_erofs_plan) (simp add: ex_inline_inode_def)
  ultimately show ?thesis using ex_inline_opens ex_inline_read_inode by (simp add: zreader_new_def)
qed

text \<open>A sparse chunk-based file of 4 MiB in two chunks of 2 MiB, the first a hole.\<close>

definition ex_sparse :: erofs where
  "ex_sparse = mem_erofs 12
     [8, 0, 0, 0, 0xA4, 0x81, 0, 0, 0, 0, 64, 0, 0, 0, 0, 0, 9, 0, 0, 0, 0, 0, 0, 0, 0, 0, 0, 0, 0, 0, 0, 0,
      0xFF, 0xFF, 0xFF, 0xFF, 1, 0, 0, 0]"

definition ex_sparse_plan :: zplan where
  "ex_sparse_plan = \<lparr>zp_size = 4194304, zp_exts =
     [\<lparr>ze_la = 0, ze_llen = 2097152, ze_src = ZZero\<rparr>,
      \<lparr>ze_la = 2097152, ze_llen = 2097152, ze_src = ZRaw 4096 2097152 Shifted False\<rparr>]\<rparr>"

text \<open>
  A sparse chunk-based file whose chunks exceed 1 MiB cannot be read: with a hole the chunks become
  raw extents of the stream, and decoding one applies the bound on compressed pclusters. The plan
  of this two-chunk file is accepted, the hole reads, and the first byte of the data chunk is an
  error, whatever the image holds there.
\<close>

theorem sparse_chunks_unreadable:
  "\<exists>ino. read_inode ex_sparse 0 = Inr ino \<and> erofs_plan ex_sparse ino = Inr (Streamed ex_sparse_plan) \<and>
     fst (zread zc ex_sparse ex_sparse_plan 4096 (\<lparr>zr_pos = 2097152, zr_idx = 0, zr_cur = None\<rparr>, packed_new))
       = Inl ImplausiblePcluster"
proof -
  let ?ino = "\<lparr>in_base = 0, in_isize = 32, in_xattr = 0, in_mode = 0x81A4, in_size = 4194304,
      in_layout = 4, in_u = 9\<rparr>"
  have ino: "read_inode ex_sparse 0 = Inr ?ino"
    by (simp add: read_inode_def ex_sparse_def Let_def window_def le_fields)
  have d: "div_ceil 4194304 2097152 = 2" by (simp add: div_ceil_def)
  have t: "read_exact_at (er_view ex_sparse) 8 32 = Inr [0xFF, 0xFF, 0xFF, 0xFF, 1, 0, 0, 0]"
    by (simp add: ex_sparse_def read_exact_at_def Let_def window_def)
  have b: "er_blkszbits ex_sparse = 12" by (simp add: ex_sparse_def)
  have "plan_chunked ex_sparse ?ino = Inr (Streamed ex_sparse_plan)"
    by (simp add: plan_chunked_def b d t inode_end_def div_ceil_def upt_rec window_def le_fields NULL_ADDR_def
        ex_sparse_plan_def bit_iff_odd)
  then have p: "erofs_plan ex_sparse ?ino = Inr (Streamed ex_sparse_plan)" by (simp add: erofs_plan_def)
  have "skip_exts (zp_exts ex_sparse_plan) \<lparr>zr_pos = 2097152, zr_idx = 0, zr_cur = None\<rparr>
      = \<lparr>zr_pos = 2097152, zr_idx = 1, zr_cur = None\<rparr>"
    by (subst skip_exts.simps, subst skip_exts.simps) (simp add: ex_sparse_plan_def)
  then have "fst (zread zc ex_sparse ex_sparse_plan 4096 (\<lparr>zr_pos = 2097152, zr_idx = 0, zr_cur = None\<rparr>, packed_new))
      = Inl ImplausiblePcluster"
    by (simp add: zread_def Let_def) (simp add: ex_sparse_plan_def decode_raw_def PCLUSTER_MAX_SIZE_def)
  then show ?thesis using ino p by blast
qed

end
