(* ===== verification/Hdx_Erofs_Dir.thy ===== *)
theory Hdx_Erofs_Dir
  imports Hdx_Erofs_Read
begin

text \<open>
  \<open>src/src/erofs.rs\<close>, directories and what the recipe planner asks of an image: the directory block
  format, the bounded walk that lists the regular files with their plans, the pclusters of a file
  and of the packed inode, and the recorded MicroLZMA configuration. A directory stored compressed
  is read through the streaming reader, so the walk threads the shared cache.
\<close>

definition DIR_MAX_BYTES :: nat where "DIR_MAX_BYTES = 64 * 2 ^ 20"
definition DIR_MAX_DEPTH :: nat where "DIR_MAX_DEPTH = 64"

subsection \<open>Views of a plan\<close>

record packed_ext =
  px_la :: nat
  px_llen :: nat
  px_off :: nat

record pcluster =
  pc_la :: nat
  pc_llen :: nat
  pc_pa :: nat
  pc_plen :: nat
  pc_lzma :: bool
  pc_alg :: alg
  pc_partial :: bool

definition packed_whole :: "plan \<Rightarrow> nat option" where
  "packed_whole p =
     (case p of
        Ranged _ \<Rightarrow> None
      | Streamed zp \<Rightarrow>
          (case zp_exts zp of
             [e] \<Rightarrow> (case ze_src e of
                       ZPacked off \<Rightarrow> if ze_la e = 0 \<and> ze_llen e = zp_size zp then Some off else None
                     | _ \<Rightarrow> None)
           | _ \<Rightarrow> None))"

definition plan_zplan :: "plan \<Rightarrow> zplan option" where
  "plan_zplan p = (case p of Streamed zp \<Rightarrow> Some zp | Ranged _ \<Rightarrow> None)"

definition packed_extents :: "plan \<Rightarrow> packed_ext list" where
  "packed_extents p =
     (case p of
        Ranged _ \<Rightarrow> []
      | Streamed zp \<Rightarrow> concat (map (\<lambda>e. case ze_src e of
            ZPacked off \<Rightarrow> [\<lparr>px_la = ze_la e, px_llen = ze_llen e, px_off = off\<rparr>] | _ \<Rightarrow> []) (zp_exts zp)))"

definition ext_pcluster :: "zext \<Rightarrow> pcluster list" where
  "ext_pcluster e =
     (case ze_src e of
        ZRaw pa plen a part \<Rightarrow>
          [\<lparr>pc_la = ze_la e, pc_llen = ze_llen e, pc_pa = pa, pc_plen = plen, pc_lzma = (a = Lzma),
            pc_alg = a, pc_partial = part\<rparr>]
      | _ \<Rightarrow> [])"

definition own_pclusters :: "plan \<Rightarrow> pcluster list" where
  "own_pclusters p = (case p of Ranged _ \<Rightarrow> [] | Streamed zp \<Rightarrow> concat (map ext_pcluster (zp_exts zp)))"

definition interlace_skip :: "pcluster \<Rightarrow> nat option" where
  "interlace_skip pc =
     (case pc_alg pc of
        Interlaced skip \<Rightarrow> if 0 < pc_plen pc then Some (skip mod pc_plen pc) else None
      | _ \<Rightarrow> None)"

definition packed_pclusters :: "erofs \<Rightarrow> packed \<Rightarrow> (erofs_error + pcluster list \<times> nat) \<times> packed" where
  "packed_pclusters er pk =
     (if er_packed_nid er = 0 then (Inr ([], 0), pk)
      else case packed_plan er pk of
        (Inl e, pk) \<Rightarrow> (Inl e, pk)
      | (Inr plan, pk) \<Rightarrow>
          (if list_ex is_packed (zp_exts plan) then Inl EPanic
           else Inr (concat (map ext_pcluster (zp_exts plan)), zp_size plan), pk))"

definition decode_pcluster :: "z_codecs \<Rightarrow> erofs \<Rightarrow> pcluster \<Rightarrow> erofs_error + byte list" where
  "decode_pcluster zc er pc = decode_raw zc er (pc_pa pc) (pc_plen pc) (pc_llen pc) (pc_alg pc) (pc_partial pc)"

text \<open>The per-algorithm blocks behind the superblock, in the bit order of \<open>available_compr_algs\<close>.\<close>

record lzma_cfg =
  lz_dict_size :: nat
  lz_format :: nat

fun lzma_cfg_loop :: "view \<Rightarrow> nat list \<Rightarrow> nat \<Rightarrow> nat \<Rightarrow> erofs_error + lzma_cfg option" where
  "lzma_cfg_loop v [] algs off = Inr None"
| "lzma_cfg_loop v (b # bits) algs off =
     (if algs = 0 then Inr None
      else if odd algs then
        bindR (read_exact_at v 2 off) (\<lambda>len.
          let cfg_size = le16 len 0; off = off + 2 in
          if b = ALG_LZMA then
            ensureR (6 \<le> cfg_size) (TruncatedLzmaCfg cfg_size)
              (bindR (read_exact_at v cfg_size off) (\<lambda>cfg.
                 Inr (Some \<lparr>lz_dict_size = le32 cfg 0, lz_format = le16 cfg 4\<rparr>)))
          else lzma_cfg_loop v bits (algs div 2) (off + cfg_size))
      else lzma_cfg_loop v bits (algs div 2) off)"

definition read_lzma_cfg :: "erofs \<Rightarrow> erofs_error + lzma_cfg option" where
  "read_lzma_cfg er =
     (if \<not> er_compr_cfgs er then Inr None
      else lzma_cfg_loop (er_view er) [0..<16] (er_compr_algs er) (EROFS_SUPER_OFFSET + SUPER_SIZE))"

subsection \<open>Directories\<close>

type_synonym dirent = "ustring \<times> nat \<times> nat"

fun dirents_from :: "byte list \<Rightarrow> nat \<Rightarrow> nat \<Rightarrow> nat list \<Rightarrow> erofs_error + dirent list" where
  "dirents_from chunk first_off count [] = Inr []"
| "dirents_from chunk first_off count (j # js) =
     (let nid = le64 chunk (j * 12);
          nameoff = le16 chunk (j * 12 + 8);
          ftype = unat (chunk ! (j * 12 + 10));
          fin = (if j + 1 < count then le16 chunk ((j + 1) * 12 + 8) else length chunk) in
      ensureR (first_off \<le> nameoff \<and> nameoff \<le> fin \<and> fin \<le> length chunk) MalformedDirentName
     (let name = window chunk nameoff (fin - nameoff);
          name = (if j + 1 = count then takeWhile (\<lambda>b. b \<noteq> 0) name else name) in
      ensureR (name \<noteq> []) EmptyDirentName
     (bindR (dirents_from chunk first_off count js) (\<lambda>rest.
        Inr ((utf8_lossy name, nid, ftype) # rest)))))"

definition dir_block :: "byte list \<Rightarrow> erofs_error + dirent list" where
  "dir_block chunk =
     (if length chunk < 12 then ensureR (list_all (\<lambda>b. b = 0) chunk) MalformedDirTail (Inr [])
      else let first_off = le16 chunk 8 in
        ensureR (12 \<le> first_off \<and> first_off mod 12 = 0 \<and> first_off \<le> length chunk) MalformedDirBlock
          (dirents_from chunk first_off (first_off div 12) [0..<first_off div 12]))"

text \<open>\<open>data.chunks(blksz)\<close>, block by block.\<close>

function dir_blocks :: "nat \<Rightarrow> byte list \<Rightarrow> erofs_error + dirent list" where
  "dir_blocks sz data =
     (if data = [] \<or> sz = 0 then Inr []
      else bindR (dir_block (take sz data)) (\<lambda>a. bindR (dir_blocks sz (drop sz data)) (\<lambda>b. Inr (a @ b))))"
  by pat_completeness auto
termination by (relation "measure (\<lambda>(sz, data). length data)") auto

declare dir_blocks.simps [simp del]

fun read_ranges :: "view \<Rightarrow> (nat \<times> nat) list \<Rightarrow> erofs_error + byte list" where
  "read_ranges v [] = Inr []"
| "read_ranges v ((pa, len) # rs) =
     bindR (read_exact_at v len pa) (\<lambda>b. bindR (read_ranges v rs) (\<lambda>r. Inr (b @ r)))"

text \<open>A stream of \<open>n\<close> bytes is read in at most \<open>n\<close> non-empty pieces: \<open>n + 1\<close> reads reach its end.\<close>

definition read_all ::
  "z_codecs \<Rightarrow> erofs \<Rightarrow> (nat \<Rightarrow> nat) \<Rightarrow> inode \<Rightarrow> nat \<Rightarrow> packed \<Rightarrow> (erofs_error + byte list) \<times> packed" where
  "read_all zc er bufs ino cap pk =
     (if cap < in_size ino then (Inl (ImplausiblyLarge (in_size ino)), pk)
      else case erofs_plan er ino of
        Inl e \<Rightarrow> (Inl e, pk)
      | Inr (Ranged rs) \<Rightarrow> (read_ranges (er_view er) rs, pk)
      | Inr (Streamed zp) \<Rightarrow>
          (case zread_to_end zc er zp bufs (Suc (zp_size zp)) pk of
             (Some res, _, pk) \<Rightarrow> (res, pk)
           | (None, _, pk) \<Rightarrow> (Inl EPanic, pk)))"

definition read_dir ::
  "z_codecs \<Rightarrow> erofs \<Rightarrow> (nat \<Rightarrow> nat) \<Rightarrow> inode \<Rightarrow> packed \<Rightarrow> (erofs_error + dirent list) \<times> packed" where
  "read_dir zc er bufs ino pk =
     (case read_all zc er bufs ino DIR_MAX_BYTES pk of
        (Inl e, pk) \<Rightarrow> (Inl e, pk)
      | (Inr data, pk) \<Rightarrow> (dir_blocks (blksz er) data, pk))"

subsection \<open>The walk\<close>

record file_item =
  fi_path :: ustring
  fi_leaf :: ustring
  fi_size :: nat
  fi_plan :: plan
  fi_order :: "nat \<times> nat"

datatype dir_note =
    NDeeper ustring
  | NCycle ustring
  | NUnreadable ustring erofs_error
  | NMismatch ustring
  | NFailed ustring erofs_error

record dir_walk =
  dw_files :: "file_item list"
  dw_notes :: "dir_note list"
  dw_visited :: "nat list"
  dw_pk :: packed

definition is_dir_mode :: "nat \<Rightarrow> bool" where "is_dir_mode m \<longleftrightarrow> m div 4096 = 4"
definition is_reg_mode :: "nat \<Rightarrow> bool" where "is_reg_mode m \<longleftrightarrow> m div 4096 = 8"

definition file_plan :: "erofs \<Rightarrow> nat \<Rightarrow> erofs_error + plan \<times> nat" where
  "file_plan er nid =
     bindR (read_inode er nid) (\<lambda>ino.
     ensureR (is_reg_mode (in_mode ino)) (NotRegular (in_mode ino))
     (bindR (erofs_plan er ino) (\<lambda>p. Inr (p, in_size ino))))"

definition plan_order :: "plan \<Rightarrow> nat \<times> nat" where
  "plan_order p =
     (case p of
        Ranged _ \<Rightarrow> (0, 0)
      | Streamed zp \<Rightarrow>
          (case zp_exts zp of
             [] \<Rightarrow> (0, 0)
           | e # _ \<Rightarrow> (case ze_src e of ZPacked off \<Rightarrow> (1, off) | ZRaw pa _ _ _ \<Rightarrow> (0, pa) | ZZero \<Rightarrow> (0, 0))))"

definition DOT :: ustring where "DOT = [46]"
definition DOTDOT :: ustring where "DOTDOT = [46, 46]"

definition add_note :: "dir_note \<Rightarrow> dir_walk \<Rightarrow> dir_walk" where
  "add_note n st = st\<lparr>dw_notes := dw_notes st @ [n]\<rparr>"

text \<open>One directory entry; \<open>descend\<close> walks the subdirectory.\<close>

definition walk_entry ::
  "erofs \<Rightarrow> ustring \<Rightarrow> (inode \<Rightarrow> ustring \<Rightarrow> dir_walk \<Rightarrow> dir_walk) \<Rightarrow> dirent \<Rightarrow> dir_walk \<Rightarrow> dir_walk" where
  "walk_entry er prefix descend = (\<lambda>(name, nid, ftype) st.
     if name = DOT \<or> name = DOTDOT then st
     else if ftype = 2 then
       (case read_inode er nid of
          Inr i \<Rightarrow> if is_dir_mode (in_mode i) then descend i (prefix @ name @ [47]) st
                   else add_note (NMismatch (prefix @ name)) st
        | Inl e \<Rightarrow> add_note (NFailed (prefix @ name) e) st)
     else if ftype = 1 then
       (case file_plan er nid of
          Inr (p, fsize) \<Rightarrow>
            st\<lparr>dw_files := dw_files st @ [\<lparr>fi_path = prefix @ name, fi_leaf = name, fi_size = fsize,
                 fi_plan = p, fi_order = plan_order p\<rparr>]\<rparr>
        | Inl e \<Rightarrow> add_note (NFailed (prefix @ name) e) st)
     else st)"

text \<open>The recursion is bounded by the depth still allowed: 65 levels from the root.\<close>

fun walk_dir ::
  "z_codecs \<Rightarrow> erofs \<Rightarrow> (nat \<Rightarrow> nat) \<Rightarrow> nat \<Rightarrow> inode \<Rightarrow> ustring \<Rightarrow> dir_walk \<Rightarrow> dir_walk" where
  "walk_dir zc er bufs 0 dir prefix st = add_note (NDeeper prefix) st"
| "walk_dir zc er bufs (Suc left) dir prefix st =
     (if in_base dir \<in> set (dw_visited st) then add_note (NCycle prefix) st
      else let st = st\<lparr>dw_visited := dw_visited st @ [in_base dir]\<rparr> in
        case read_dir zc er bufs dir (dw_pk st) of
          (Inl e, pk) \<Rightarrow> add_note (NUnreadable prefix e) (st\<lparr>dw_pk := pk\<rparr>)
        | (Inr entries, pk) \<Rightarrow>
            foldl (\<lambda>st e. walk_entry er prefix (walk_dir zc er bufs left) e st) (st\<lparr>dw_pk := pk\<rparr>) entries)"

definition erofs_files ::
  "z_codecs \<Rightarrow> erofs \<Rightarrow> (nat \<Rightarrow> nat) \<Rightarrow> packed \<Rightarrow> erofs_error + file_item list \<times> dir_note list" where
  "erofs_files zc er bufs pk =
     bindR (read_inode er (er_root_nid er)) (\<lambda>root.
     ensureR (is_dir_mode (in_mode root)) RootNotDirectory
     (let st = walk_dir zc er bufs (Suc DIR_MAX_DEPTH) root []
                 \<lparr>dw_files = [], dw_notes = [], dw_visited = [], dw_pk = pk\<rparr> in
      Inr (dw_files st, dw_notes st)))"

subsection \<open>What the walk reports\<close>


definition item_ok :: "erofs \<Rightarrow> file_item \<Rightarrow> bool" where
  "item_ok er f \<longleftrightarrow> (\<exists>nid. file_plan er nid = Inr (fi_plan f, fi_size f)) \<and> fi_order f = plan_order (fi_plan f) \<and>
     (\<exists>prefix. fi_path f = prefix @ fi_leaf f)"

definition walk_inv :: "erofs \<Rightarrow> dir_walk \<Rightarrow> bool" where
  "walk_inv er st \<longleftrightarrow> (\<forall>f \<in> set (dw_files st). item_ok er f) \<and> distinct (dw_visited st)"

lemma add_note_inv [simp]: "walk_inv er (add_note n st) = walk_inv er st"
  by (simp add: walk_inv_def add_note_def)

lemma walk_entry_inv:
  assumes "walk_inv er st" "\<And>i p st. walk_inv er st \<Longrightarrow> walk_inv er (descend i p st)"
  shows "walk_inv er (walk_entry er prefix descend e st)"
proof -
  obtain name nid ftype where e: "e = (name, nid, ftype)" by (cases e)
  show ?thesis
  proof (cases "name = DOT \<or> name = DOTDOT \<or> ftype \<noteq> 1 \<and> ftype \<noteq> 2")
    case True
    then show ?thesis using assms(1) by (auto simp: e walk_entry_def)
  next
    case False
    show ?thesis
    proof (cases "ftype = 2")
      case True
      then show ?thesis using False assms by (cases "read_inode er nid") (simp_all add: e walk_entry_def)
    next
      case no_dir: False
      show ?thesis
      proof (cases "file_plan er nid")
        case (Inr r)
        obtain p fsize where "r = (p, fsize)" by (cases r)
        then show ?thesis using False no_dir assms(1) Inr
          by (auto simp: e walk_entry_def walk_inv_def item_ok_def)
      qed (use False no_dir assms(1) in \<open>simp add: e walk_entry_def\<close>)
    qed
  qed
qed

lemma foldl_inv: "P st \<Longrightarrow> (\<And>e st. P st \<Longrightarrow> P (f st e)) \<Longrightarrow> P (foldl f st es)"
  by (induction es arbitrary: st) simp_all

lemma walk_dir_inv: "walk_inv er st \<Longrightarrow> walk_inv er (walk_dir zc er bufs left dir prefix st)"
proof (induction left arbitrary: dir prefix st)
  case (Suc left)
  show ?case
  proof (cases "in_base dir \<in> set (dw_visited st)")
    case False
    let ?st = "st\<lparr>dw_visited := dw_visited st @ [in_base dir]\<rparr>"
    obtain res pk where rd: "read_dir zc er bufs dir (dw_pk ?st) = (res, pk)"
      by (cases "read_dir zc er bufs dir (dw_pk ?st)")
    have st: "walk_inv er (?st\<lparr>dw_pk := pk\<rparr>)" using Suc.prems False by (simp add: walk_inv_def)
    have "walk_inv er (foldl (\<lambda>st e. walk_entry er prefix (walk_dir zc er bufs left) e st) (?st\<lparr>dw_pk := pk\<rparr>) es)" for es
      by (rule foldl_inv [where P = "walk_inv er"]) (use st Suc.IH walk_entry_inv in blast)+
    then show ?thesis using False rd st by (cases res) (simp_all add: Let_def)
  qed (use Suc.prems in simp)
qed simp

text \<open>
  C23. Every file the walk reports is a regular inode of the image with the plan of that inode: its size
  is the inode's, its path ends in its leaf name, and the plan accounts for exactly that many
  bytes, as pieces of the image that add up to it or as extents that tile it.
\<close>

theorem erofs_files_sound:
  assumes "erofs_files zc er bufs pk = Inr (files, notes)" "f \<in> set files"
  shows "\<exists>nid ino. read_inode er nid = Inr ino \<and> is_reg_mode (in_mode ino) \<and> fi_size f = in_size ino \<and>
           erofs_plan er ino = Inr (fi_plan f) \<and> (\<exists>prefix. fi_path f = prefix @ fi_leaf f) \<and>
           (0 < fi_size f \<longrightarrow>
             (case fi_plan f of
                Ranged rs \<Rightarrow> sum_list (map snd rs) = fi_size f
              | Streamed zp \<Rightarrow> ext_tiles 0 (zp_exts zp) (fi_size f)))"
proof -
  obtain root where r: "files = dw_files (walk_dir zc er bufs (Suc DIR_MAX_DEPTH) root []
      \<lparr>dw_files = [], dw_notes = [], dw_visited = [], dw_pk = pk\<rparr>)"
    using assms(1) unfolding erofs_files_def Let_def result_simps by blast
  have "walk_inv er (walk_dir zc er bufs (Suc DIR_MAX_DEPTH) root []
      \<lparr>dw_files = [], dw_notes = [], dw_visited = [], dw_pk = pk\<rparr>)"
    by (rule walk_dir_inv) (simp add: walk_inv_def)
  then have "item_ok er f" using assms(2) r by (simp add: walk_inv_def)
  then obtain nid ino where i: "read_inode er nid = Inr ino" "is_reg_mode (in_mode ino)" "fi_size f = in_size ino"
      "erofs_plan er ino = Inr (fi_plan f)" "\<exists>prefix. fi_path f = prefix @ fi_leaf f"
    by (auto simp: item_ok_def file_plan_def result_simps)
  have "case fi_plan f of Ranged rs \<Rightarrow> sum_list (map snd rs) = fi_size f
      | Streamed zp \<Rightarrow> ext_tiles 0 (zp_exts zp) (fi_size f)" if "0 < fi_size f"
  proof (cases "fi_plan f")
    case (Ranged rs)
    then show ?thesis using plan_accounts [OF i(4)] that i(3) by simp
  next
    case (Streamed zp)
    then show ?thesis using plan_accounts [OF i(4)] that i(3) by simp
  qed
  then show ?thesis
    by (intro exI [of _ nid] exI [of _ ino] conjI impI) (use i in simp_all)
qed

text \<open>An image of 99 bytes: a root directory with one entry, the file \<open>a\<close> of three inline bytes.\<close>

definition ex_dir :: erofs where
  "ex_dir = mem_erofs 9
     [4, 0, 0, 0, 0xED, 0x41, 0, 0, 13, 0, 0, 0, 0, 0, 0, 0, 0, 0, 0, 0, 0, 0, 0, 0, 0, 0, 0, 0, 0, 0, 0, 0,
      2, 0, 0, 0, 0, 0, 0, 0, 12, 0, 1, 0, 97, 0, 0, 0, 0, 0, 0, 0, 0, 0, 0, 0, 0, 0, 0, 0, 0, 0, 0, 0,
      4, 0, 0, 0, 0xA4, 0x81, 0, 0, 3, 0, 0, 0, 0, 0, 0, 0, 0, 0, 0, 0, 0, 0, 0, 0, 0, 0, 0, 0, 0, 0, 0, 0, 7, 8, 9]"

definition ex_file :: file_item where
  "ex_file = \<lparr>fi_path = [97], fi_leaf = [97], fi_size = 3, fi_plan = Ranged [(96, 3)], fi_order = (0, 0)\<rparr>"

lemma ex_dir_files: "erofs_files zc ex_dir bufs packed_new = Inr ([ex_file], [])"
proof -
  let ?root = "\<lparr>in_base = 0, in_isize = 32, in_xattr = 0, in_mode = 0x41ED, in_size = 13, in_layout = 2, in_u = 0\<rparr>"
  let ?ino = "\<lparr>in_base = 64, in_isize = 32, in_xattr = 0, in_mode = 0x81A4, in_size = 3, in_layout = 2, in_u = 0\<rparr>"
  have i: "read_inode ex_dir 0 = Inr ?root" "read_inode ex_dir 2 = Inr ?ino"
    by (simp_all add: read_inode_def ex_dir_def Let_def window_def le_fields)
  have b: "blksz ex_dir = 512" by (simp add: ex_dir_def)
  have p: "erofs_plan ex_dir ?root = Inr (Ranged [(32, 13)])" "erofs_plan ex_dir ?ino = Inr (Ranged [(96, 3)])"
    by (simp_all add: erofs_plan_def b div_ceil_def inode_end_def Let_def)
  have r: "read_ranges (er_view ex_dir) [(32, 13)] = Inr [2, 0, 0, 0, 0, 0, 0, 0, 12, 0, 1, 0, 97]"
    by (simp add: read_exact_at_def Let_def ex_dir_def window_def)
  have u: "utf8_lossy [97] = [97]" by (simp add: utf8_lossy_def utf8_lossy_ascii del: utf8_lossy_nat.simps)
  have "dir_block [2, 0, 0, 0, 0, 0, 0, 0, 12, 0, 1, 0, 97] = Inr [([97], 2, 1)]"
    by (simp add: dir_block_def Let_def le_fields window_def u)
  then have "dir_blocks 512 [2, 0, 0, 0, 0, 0, 0, 0, 12, 0, 1, 0, 97] = Inr [([97], 2, 1)]"
    by (subst dir_blocks.simps, subst dir_blocks.simps) simp
  then have "read_dir zc ex_dir bufs ?root pk = (Inr [([97], 2, 1)], pk)" for pk
    by (simp add: read_dir_def read_all_def p r b DIR_MAX_BYTES_def del: read_ranges.simps)
  moreover have "file_plan ex_dir 2 = Inr (Ranged [(96, 3)], 3)" by (simp add: file_plan_def i p is_reg_mode_def)
  moreover have "er_root_nid ex_dir = 0" by (simp add: ex_dir_def mem_erofs_def)
  ultimately show ?thesis
    by (simp add: erofs_files_def i is_dir_mode_def walk_entry_def DOT_def DOTDOT_def ex_file_def plan_order_def)
qed

theorem erofs_files_sound_witness: "sum_list (map snd [(96, 3)]) = (3 :: nat)"
  using erofs_files_sound [OF ex_dir_files, of ex_file] by (simp add: ex_file_def)

subsection \<open>The directory format\<close>

text \<open>A block as mkfs lays it out: the fixed records, the names one after another, padding.\<close>

type_synonym raw_dirent = "byte list \<times> nat \<times> nat"

definition name_off :: "raw_dirent list \<Rightarrow> nat \<Rightarrow> nat" where
  "name_off es j = 12 * length es + sum_list (map length (take j (map fst es)))"

definition dir_record :: "raw_dirent list \<Rightarrow> nat \<Rightarrow> byte list" where
  "dir_record es j = nat_le 8 (fst (snd (es ! j))) @ nat_le 2 (name_off es j) @ [of_nat (snd (snd (es ! j))), 0]"

definition dir_encode :: "raw_dirent list \<Rightarrow> nat \<Rightarrow> byte list" where
  "dir_encode es pad = concat (map (dir_record es) [0..<length es]) @ concat (map fst es) @ replicate pad 0"

definition raw_dirent_ok :: "raw_dirent \<Rightarrow> bool" where
  "raw_dirent_ok = (\<lambda>(name, nid, ftype). name \<noteq> [] \<and> 0 \<notin> set name \<and> nid < 2 ^ 64 \<and> ftype < 256)"

lemma length_dir_record [simp]: "length (dir_record es j) = 12"
  by (simp add: dir_record_def)

lemma length_dir_records: "length (concat (map (dir_record es) js)) = 12 * length js"
  by (induction js) simp_all

lemma dir_record_at:
  assumes "j < length es"
  shows "window (dir_encode es pad) (j * 12) 12 = dir_record es j"
proof -
  let ?rs = "map (dir_record es) [0..<length es]"
  have "sum_list (map length (take j ?rs)) = j * 12"
    using assms by (simp add: take_map sum_list_triv comp_def)
  then have "window (concat ?rs) (j * 12) 12 = dir_record es j"
    using window_concat_nth [of j ?rs] assms by simp
  then show ?thesis using assms unfolding dir_encode_def
    by (subst window_append_left) (simp_all add: length_dir_records)
qed

lemma dir_fields:
  assumes "j < length es" "raw_dirent_ok (es ! j)" "name_off es j < 65536"
  shows "le64 (dir_encode es pad) (j * 12) = fst (snd (es ! j))" "le16 (dir_encode es pad) (j * 12 + 8) = name_off es j"
    "unat (dir_encode es pad ! (j * 12 + 10)) = snd (snd (es ! j))"
proof -
  note r = dir_record_at [OF assms(1), of pad]
  have "window (dir_encode es pad) (j * 12) 8 = window (dir_record es j) 0 8"
    "window (dir_encode es pad) (j * 12 + 8) 2 = window (dir_record es j) 8 2"
    unfolding r [symmetric] by (simp_all add: window_window)
  then show "le64 (dir_encode es pad) (j * 12) = fst (snd (es ! j))" "le16 (dir_encode es pad) (j * 12 + 8) = name_off es j"
    using assms(2,3) by (simp_all add: le_fields dir_record_def window_def le_nat_nat_le raw_dirent_ok_def case_prod_unfold)
  have "j * 12 + 10 < length (dir_encode es pad)"
    using assms(1) by (simp add: dir_encode_def length_dir_records)
  then have "dir_encode es pad ! (j * 12 + 10) = dir_record es j ! 10"
    using nth_window [of 10 12 "j * 12" "dir_encode es pad"] unfolding r by simp
  then show "unat (dir_encode es pad ! (j * 12 + 10)) = snd (snd (es ! j))"
    using assms(2) by (simp add: dir_record_def nth_append raw_dirent_ok_def case_prod_unfold unat_of_nat)
qed

lemma name_at:
  assumes "j < length es"
  shows "window (dir_encode es pad) (name_off es j) (length (fst (es ! j))) = fst (es ! j)"
    and "name_off es j + length (fst (es ! j)) = name_off es (Suc j)"
proof -
  let ?names = "map fst es"
  have w: "window (concat ?names) (sum_list (map length (take j ?names))) (length (fst (es ! j))) = fst (es ! j)"
    using window_concat_nth [of j ?names] assms by simp
  have "sum_list (map length (take j ?names)) + length (fst (es ! j)) \<le> length (concat ?names)"
  proof -
    have "take (Suc j) ?names @ drop (Suc j) ?names = ?names" by (rule append_take_drop_id)
    then have "length (concat ?names) = length (concat (take (Suc j) ?names)) + length (concat (drop (Suc j) ?names))"
      by (metis concat_append length_append)
    then show ?thesis using assms by (simp add: take_Suc_conv_app_nth length_concat take_map)
  qed
  then show "window (dir_encode es pad) (name_off es j) (length (fst (es ! j))) = fst (es ! j)"
    using w by (simp add: dir_encode_def name_off_def window_append_right length_dir_records window_append_left)
  show "name_off es j + length (fst (es ! j)) = name_off es (Suc j)"
    using assms by (simp add: name_off_def take_Suc_conv_app_nth)
qed

lemma name_off_mono: "i \<le> j \<Longrightarrow> name_off es i \<le> name_off es j"
proof -
  assume "i \<le> j"
  then obtain k where k: "j = i + k" using le_Suc_ex by blast
  show ?thesis unfolding k name_off_def by (simp add: take_add)
qed

lemma length_dir_encode: "length (dir_encode es pad) = name_off es (length es) + pad"
  by (simp add: dir_encode_def length_dir_records name_off_def length_concat [of "map fst es"] take_map)

lemma last_name:
  assumes "Suc j = length es" "0 \<notin> set (fst (es ! j))"
  shows "takeWhile (\<lambda>b. b \<noteq> 0) (window (dir_encode es pad) (name_off es j) (length (dir_encode es pad) - name_off es j))
         = fst (es ! j)"
proof -
  have j: "j < length es" using assms(1) by simp
  have "window (dir_encode es pad) (name_off es j) (length (fst (es ! j)) + pad)
      = fst (es ! j) @ window (dir_encode es pad) (name_off es (Suc j)) pad"
    by (simp add: window_append [symmetric] name_at [OF j])
  moreover have "window (dir_encode es pad) (name_off es (Suc j)) pad = replicate pad 0"
    using assms(1) by (simp add: dir_encode_def name_off_def window_append_right length_dir_records
        length_concat [of "map fst es"] take_map) (simp add: window_def)
  moreover have "length (dir_encode es pad) - name_off es j = length (fst (es ! j)) + pad"
    using name_at(2) [OF j] assms(1) by (simp add: length_dir_encode)
  moreover have "takeWhile (\<lambda>b. b \<noteq> 0) (fst (es ! j) @ replicate pad 0) = fst (es ! j)"
    using assms(2) by (subst takeWhile_append2) (auto simp: takeWhile_replicate)
  ultimately show ?thesis by simp
qed

text \<open>
  A directory block is read back as it was laid out: the records' names, inode numbers and types
  come out in order, whatever the padding behind the last name, whenever the names are non-empty
  and NUL-free and the block is at most 64 KiB.
\<close>

theorem dir_block_roundtrip:
  assumes "es \<noteq> []" "\<forall>e \<in> set es. raw_dirent_ok e" "length (dir_encode es pad) \<le> 65536"
  shows "dir_block (dir_encode es pad) = Inr (map (\<lambda>(name, nid, ftype). (utf8_lossy name, nid, ftype)) es)"
proof -
  let ?c = "dir_encode es pad" and ?n = "length es"
  let ?g = "\<lambda>(name, nid, ftype). (utf8_lossy name, nid, ftype)"
  have off: "name_off es j < 65536" if "j < ?n" for j
  proof -
    have "fst (es ! j) \<noteq> []" using assms(2) that by (force simp: raw_dirent_ok_def dest: nth_mem)
    then have "name_off es j < name_off es (Suc j)" using name_at(2) [OF that] by (metis length_greater_0_conv less_add_same_cancel1)
    also have "\<dots> \<le> name_off es ?n" using that by (intro name_off_mono) simp
    finally show ?thesis using assms(3) by (simp add: length_dir_encode)
  qed
  have loop: "dirents_from ?c (12 * ?n) ?n [k..<?n] = Inr (map ?g (drop k es))" if "k \<le> ?n" for k
    using that
  proof (induction rule: inc_induct)
    case (step k)
    have ok: "raw_dirent_ok (es ! k)" using assms(2) step.hyps by simp
    obtain name nid ftype where e: "es ! k = (name, nid, ftype)" by (cases "es ! k")
    note f = dir_fields [OF step.hyps(2) ok off [OF step.hyps(2)], of pad, unfolded e fst_conv snd_conv]
    have d: "drop k es = (name, nid, ftype) # drop (Suc k) es" using Cons_nth_drop_Suc [OF step.hyps(2)] e by simp
    have u: "[k..<?n] = k # [Suc k..<?n]" using step.hyps(2) by (rule upt_conv_Cons)
    have b: "12 * ?n \<le> name_off es k" by (simp add: name_off_def)
    have nm: "name \<noteq> []" "0 \<notin> set name" using ok e by (auto simp: raw_dirent_ok_def)
    show ?case
    proof (cases "Suc k < ?n")
      case True
      have "raw_dirent_ok (es ! Suc k)" using assms(2) True by simp
      note nx = dir_fields(2) [OF True this off [OF True], of pad]
      have "name_off es (Suc k) \<le> length ?c"
        using name_off_mono [of "Suc k" ?n es] True by (simp add: length_dir_encode)
      moreover have "window ?c (name_off es k) (name_off es (Suc k) - name_off es k) = name"
        using name_at(1) [OF step.hyps(2), of pad] name_at(2) [OF step.hyps(2)] e by (metis add_diff_cancel_left' fst_conv)
      ultimately show ?thesis
        unfolding u dirents_from.simps Let_def using True step.IH f nx b nm d name_off_mono [of k "Suc k" es] by (simp add: add.commute)
    next
      case False
      then have last: "Suc k = ?n" using step.hyps(2) by simp
      have "name_off es k \<le> length ?c" using name_off_mono [of k ?n es] step.hyps(2) by (simp add: length_dir_encode)
      moreover have "takeWhile (\<lambda>b. b \<noteq> 0) (window ?c (name_off es k) (length ?c - name_off es k)) = name"
        using last_name [OF last, of pad] nm(2) e by simp
      ultimately show ?thesis
        unfolding u dirents_from.simps Let_def using last step.IH f b nm d by simp
    qed
  qed simp
  have n: "0 < ?n" using assms(1) by simp
  have "le16 ?c 8 = 12 * ?n"
    using dir_fields(2) [OF n _ off [OF n], of pad] assms(2) n by (simp add: name_off_def)
  moreover have "12 * ?n \<le> length ?c" by (simp add: length_dir_encode name_off_def)
  moreover have nc: "\<not> length ?c < 12" using n calculation(2) by linarith
  moreover have "12 \<le> 12 * ?n" using n by linarith
  ultimately have "dir_block ?c = dirents_from ?c (12 * ?n) ?n [0..<?n]"
    unfolding dir_block_def Let_def if_not_P [OF nc] by (simp only: ensureR_def) simp
  then show ?thesis using loop [of 0] by simp
qed

theorem dir_block_roundtrip_witness:
  "dir_block (dir_encode [([97], 5, 1), ([98, 99], 7, 2)] 3) = Inr [(utf8_lossy [97], 5, 1), (utf8_lossy [98, 99], 7, 2)]"
  using dir_block_roundtrip [of "[([97], 5, 1), ([98, 99], 7, 2)]" 3]
  by (simp add: raw_dirent_ok_def length_dir_encode name_off_def)

end
