(* ===== verification/Hdx_Splice.thy ===== *)
theory Hdx_Splice
  imports Hdx_BTreeMap Hdx_View
begin

text \<open>
  \<open>src/src/recipe_cmd.rs\<close>, the arithmetic of a splice: segments and their tiling, ranges mapped
  through extent runs, the set of intervals a build has already taken, and the members that cover
  a span of the packed stream. Offsets are natural numbers: every one is an offset into a file or
  stream that was read, so 64-bit sums do not wrap.
\<close>

definition INLINE_MAX :: nat where "INLINE_MAX = 64"

text \<open>A run of a member: logical start, offset in the source, length.\<close>

type_synonym run = "nat \<times> nat \<times> nat"

datatype seg =
    SChild (seg_idx: nat) (seg_from: nat) (seg_len: nat) (seg_at: nat) (seg_root: nat)
  | STabled (seg_idx: nat) (seg_from: nat) (seg_len: nat) (seg_at: nat) (seg_root: nat)
  | SPcluster (seg_pc: nat) (seg_at: nat) (seg_len: nat) (seg_root: nat)
  | SGap (seg_at: nat) (seg_len: nat) (seg_residue: "nat option") (seg_inline: "byte list option")

definition is_gap :: "seg \<Rightarrow> bool" where
  "is_gap s = (case s of SGap _ _ _ _ \<Rightarrow> True | _ \<Rightarrow> False)"

subsection \<open>Mapping a range through runs\<close>

fun map_range :: "run list \<Rightarrow> nat \<Rightarrow> nat \<Rightarrow> (nat \<times> nat) list" where
  "map_range [] from len = []"
| "map_range ((rlog, roff, rlen) # runs) from len =
     (let lo = max from rlog; hi = min (from + len) (rlog + rlen) in
      if lo < hi then (roff + (lo - rlog), hi - lo) # map_range runs from len
      else map_range runs from len)"

subsection \<open>Intervals\<close>

definition iv_admits :: "nat btree \<Rightarrow> nat \<Rightarrow> nat \<Rightarrow> bool" where
  "iv_admits ivs at len =
     (let fin = at + len in
      if (case bt_floor ivs at of Some (_, pe) \<Rightarrow> at < pe | None \<Rightarrow> False) then False
      else \<not> bt_any_in ivs at fin)"

definition iv_insert :: "nat \<Rightarrow> nat \<Rightarrow> nat btree \<Rightarrow> nat btree" where
  "iv_insert at len ivs = bt_insert at (at + len) ivs"

subsection \<open>Tiling\<close>

text \<open>\<open>None\<close> is the failed assertion, a panic.\<close>

fun tile_from :: "nat \<Rightarrow> seg list \<Rightarrow> nat \<Rightarrow> seg list option" where
  "tile_from pos [] fsize = Some (if pos < fsize then [SGap pos (fsize - pos) None None] else [])"
| "tile_from pos (s # segs) fsize =
     (if \<not> pos \<le> seg_at s then None
      else case tile_from (seg_at s + seg_len s) segs fsize of
        None \<Rightarrow> None
      | Some rest \<Rightarrow>
          Some ((if pos < seg_at s then [SGap pos (seg_at s - pos) None None] else []) @ s # rest))"

definition tile_gaps :: "seg list \<Rightarrow> nat \<Rightarrow> seg list option" where
  "tile_gaps segs fsize = tile_from 0 segs fsize"

subsection \<open>Covers\<close>

record cover =
  cv_idx :: nat
  cv_from :: nat
  cv_pstart :: nat
  cv_len :: nat
  cv_proved :: bool

definition cv_end :: "cover \<Rightarrow> nat" where
  "cv_end cv = cv_pstart cv + cv_len cv"

text \<open>The loop over the covers; \<open>pos\<close> is how far the span is already placed.\<close>

fun span_loop :: "cover list \<Rightarrow> nat \<Rightarrow> nat \<Rightarrow> nat \<Rightarrow> nat \<Rightarrow> seg list" where
  "span_loop [] lstart fin pos root_at = []"
| "span_loop (cv # covers) lstart fin pos root_at =
     (if cv_end cv \<le> pos then span_loop covers lstart fin pos root_at
      else if fin \<le> cv_pstart cv then []
      else let lo = max (cv_pstart cv) pos; hi = min (cv_end cv) fin in
        if hi \<le> lo then span_loop covers lstart fin pos root_at
        else (if INLINE_MAX < hi - lo
              then [STabled (cv_idx cv) (cv_from cv + (lo - cv_pstart cv)) (hi - lo) 0 (root_at + (lo - lstart))]
              else []) @ span_loop covers lstart fin hi root_at)"

definition splice_span :: "cover list \<Rightarrow> nat \<Rightarrow> nat \<Rightarrow> nat \<Rightarrow> seg list" where
  "splice_span covers lstart len root_at = span_loop covers lstart (lstart + len) lstart root_at"

fun merge_from :: "(nat \<times> nat) list \<Rightarrow> cover list \<Rightarrow> (nat \<times> nat) list" where
  "merge_from out [] = out"
| "merge_from out (c # covers) =
     (if out \<noteq> [] \<and> cv_pstart c \<le> snd (last out)
      then merge_from (butlast out @ [(fst (last out), max (snd (last out)) (cv_end c))]) covers
      else merge_from (out @ [(cv_pstart c, cv_end c)]) covers)"

definition merge_spans :: "cover list \<Rightarrow> (nat \<times> nat) list" where
  "merge_spans covers = merge_from [] covers"

fun overlap_loop :: "(nat \<times> nat) list \<Rightarrow> nat \<Rightarrow> nat \<Rightarrow> nat" where
  "overlap_loop [] at fin = 0"
| "overlap_loop ((s, e) # spans) at fin =
     (if fin \<le> s then 0 else (min e fin - max s at) + overlap_loop spans at fin)"

definition overlap :: "(nat \<times> nat) list \<Rightarrow> nat \<Rightarrow> nat \<Rightarrow> nat" where
  "overlap spans at len = overlap_loop (dropWhile (\<lambda>(_, e). e \<le> at) spans) at (at + len)"

section \<open>Properties\<close>

subsection \<open>Ranges through runs\<close>

lemma map_range_past: "tiled n b es \<Longrightarrow> from + len \<le> b \<Longrightarrow> map_range es from len = []"
proof (induction es arbitrary: b)
  case (Cons e es)
  obtain l ef el where e: "e = (l, ef, el)" by (cases e) auto
  then show ?case using Cons.IH [of "b + el"] Cons.prems by (simp add: Let_def)
qed simp

lemma slice_range_empty: "hi \<le> lo \<Longrightarrow> slice_range es lo hi = []"
  by (cases es) auto

text \<open>On the runs of a view, \<open>map_range\<close> does what slicing the view does.\<close>

lemma map_range_slice: "tiled n b es \<Longrightarrow> map_range es from len = slice_range es (max from b) (from + len)"
proof (induction es arbitrary: b)
  case (Cons e es)
  obtain l ef el where e: "e = (l, ef, el)" by (cases e) auto
  have t: "tiled n (b + el) es" "l = b" "0 < el" using Cons.prems by (simp_all add: e)
  note IH = Cons.IH [OF t(1)]
  consider "from + len \<le> b" | "b < from + len" "b + el \<le> from" | "b < from + len" "from < b + el" "from + len \<le> b + el"
    | "from < b + el" "b + el < from + len" by linarith
  then show ?case
  proof cases
    case 1
    then show ?thesis using map_range_past [OF Cons.prems 1] by (simp add: e)
  next
    case 2
    moreover have "\<not> from \<le> b" "max from (b + el) = from" using 2 t(3) by linarith+
    ultimately show ?thesis using IH t(2,3) by (auto simp: e Let_def slice_range_empty)
  next
    case 3
    then have z: "map_range es from len = []" "slice_range es (from + len) (from + len) = []"
      using map_range_past [OF t(1)] by (simp_all add: slice_range_empty)
    then show ?thesis using 3 t(2) by (cases "len = 0") (auto simp: e Let_def max_def min_def)
  next
    case 4
    then have "max from (b + el) = b + el" by simp
    then show ?thesis using 4 IH t(2,3) by (auto simp: e Let_def max_def min_def)
  qed
qed simp

lemma map_range_bytes:
  assumes "tiled (length src) 0 runs"
  shows "concat (map (\<lambda>(off, len). window src off len) (map_range runs from len)) = window (ext_bytes src runs) from len"
  using slice_range_bytes [OF assms, of "from" "from + len"] map_range_slice [OF assms, of "from" len] by simp

lemma map_range_in_source:
  "tiled n 0 runs \<Longrightarrow> (off, l) \<in> set (map_range runs from len) \<Longrightarrow> 0 < l \<and> off + l \<le> n"
  using slice_range_in_source [of n 0 runs "from" off l "from + len"] map_range_slice [of n 0 runs "from" len] by simp

subsection \<open>Interval sets\<close>

text \<open>The intervals taken so far: non-empty and pairwise disjoint.\<close>

definition iv_ok :: "nat btree \<Rightarrow> bool" where
  "iv_ok ivs \<longleftrightarrow> bt_wf ivs \<and> (\<forall>s e. map_of ivs s = Some e \<longrightarrow> s < e) \<and>
     (\<forall>s e s' e'. map_of ivs s = Some e \<longrightarrow> map_of ivs s' = Some e' \<longrightarrow> s < s' \<longrightarrow> e \<le> s')"

definition iv_free :: "nat btree \<Rightarrow> nat \<Rightarrow> nat \<Rightarrow> bool" where
  "iv_free ivs at len \<longleftrightarrow> (\<forall>s e. map_of ivs s = Some e \<longrightarrow> e \<le> at \<or> at + len \<le> s)"

lemma iv_ok_empty: "iv_ok []"
  by (simp add: iv_ok_def bt_wf_def)

lemma iv_admits_iff:
  assumes ok: "iv_ok ivs" and len: "0 < len"
  shows "iv_admits ivs at len \<longleftrightarrow> iv_free ivs at len"
proof -
  have wf: "bt_wf ivs" using ok by (simp add: iv_ok_def)
  have any: "bt_any_in ivs at (at + len) \<longleftrightarrow> (\<exists>s e. map_of ivs s = Some e \<and> at \<le> s \<and> s < at + len)"
    unfolding bt.any_in_iff [OF wf] by auto
  show ?thesis
  proof (cases "bt_floor ivs at")
    case None
    then have gt: "at < s" if "map_of ivs s = Some e" for s e
      using that bt.floor_None [OF wf, of at] by auto
    have "e \<le> at \<or> at + len \<le> s \<longleftrightarrow> \<not> (at \<le> s \<and> s < at + len)" if s: "map_of ivs s = Some e" for s e
    proof -
      have "s < e" using ok s by (auto simp: iv_ok_def)
      then show ?thesis using gt [OF s] by linarith
    qed
    then have "iv_free ivs at len \<longleftrightarrow> \<not> bt_any_in ivs at (at + len)" unfolding iv_free_def any by blast
    then show ?thesis using None by (simp add: iv_admits_def Let_def)
  next
    case (Some p)
    obtain s0 e0 where p: "bt_floor ivs at = Some (s0, e0)" using Some by (cases p) auto
    have s0: "map_of ivs s0 = Some e0" "s0 \<le> at" and below: "\<And>s e. map_of ivs s = Some e \<Longrightarrow> s \<le> at \<Longrightarrow> s \<le> s0"
      using p unfolding bt.floor_Some [OF wf] by auto
    have "e \<le> e0" if "map_of ivs s = Some e" "s \<le> at" for s e
    proof (cases "s = s0")
      case False
      then have "s < s0" using below [OF that] by simp
      then have "e \<le> s0" using ok that(1) s0(1) by (auto simp: iv_ok_def)
      then show ?thesis using ok s0(1) by (force simp: iv_ok_def)
    qed (use that s0 in simp)
    then have le: "e \<le> at" if "e0 \<le> at" "map_of ivs s = Some e" "s \<le> at" for s e
      using that le_trans by blast
    have "iv_free ivs at len \<longleftrightarrow> e0 \<le> at \<and> \<not> bt_any_in ivs at (at + len)"
    proof
      assume f: "iv_free ivs at len"
      have "e0 \<le> at" using f s0 len unfolding iv_free_def by fastforce
      moreover have "\<not> (at \<le> s \<and> s < at + len)" if s: "map_of ivs s = Some e" for s e
      proof
        assume b: "at \<le> s \<and> s < at + len"
        then have "e \<le> at" using f s unfolding iv_free_def by fastforce
        moreover have "s < e" using ok s by (auto simp: iv_ok_def)
        ultimately show False using b by linarith
      qed
      ultimately show "e0 \<le> at \<and> \<not> bt_any_in ivs at (at + len)" unfolding any by blast
    next
      assume r: "e0 \<le> at \<and> \<not> bt_any_in ivs at (at + len)"
      show "iv_free ivs at len" unfolding iv_free_def
      proof (intro allI impI)
        fix s e
        assume s: "map_of ivs s = Some e"
        show "e \<le> at \<or> at + len \<le> s"
        proof (cases "s \<le> at")
          case True
          then show ?thesis using le s r by blast
        next
          case False
          then show ?thesis using r s unfolding any by (meson nat_le_linear not_less)
        qed
      qed
    qed
    then show ?thesis using p by (auto simp: iv_admits_def Let_def)
  qed
qed

lemma iv_insert_ok:
  assumes ok: "iv_ok ivs" and len: "0 < len" and free: "iv_free ivs at len"
  shows "iv_ok (iv_insert at len ivs)" "map_of (iv_insert at len ivs) = (map_of ivs)(at \<mapsto> at + len)"
proof -
  have wf: "bt_wf ivs" using ok by (simp add: iv_ok_def)
  show m: "map_of (iv_insert at len ivs) = (map_of ivs)(at \<mapsto> at + len)"
    by (simp add: iv_insert_def bt.lookup_ins [OF wf])
  have "e \<le> s'" if "map_of (iv_insert at len ivs) s = Some e" "map_of (iv_insert at len ivs) s' = Some e'" "s < s'"
    for s e s' e'
  proof -
    have old: "e \<le> s'" if "map_of ivs s = Some e" "map_of ivs s' = Some e'"
      using ok that \<open>s < s'\<close> by (auto simp: iv_ok_def)
    note sel = that
    consider "s = at" "s' \<noteq> at" "e = at + len" "map_of ivs s' = Some e'"
      | "s \<noteq> at" "s' = at" "map_of ivs s = Some e"
      | "map_of ivs s = Some e" "map_of ivs s' = Some e'"
      using sel(3) sel(1,2) [unfolded m fun_upd_apply] by (cases "s = at"; cases "s' = at") simp_all
    then show ?thesis
    proof cases
      case 1
      then have "e' \<le> at \<or> at + len \<le> s'" using free by (simp add: iv_free_def)
      moreover have "s' < e'" using ok 1(4) by (simp add: iv_ok_def)
      ultimately show ?thesis using 1 sel(3) by linarith
    next
      case 2
      then have "e \<le> at \<or> at + len \<le> s" using free by (simp add: iv_free_def)
      then show ?thesis using 2 sel(3) by linarith
    qed (use old in simp)
  qed
  moreover have "s < e" if "map_of (iv_insert at len ivs) s = Some e" for s e
    using that ok len by (auto simp: m iv_ok_def split: if_splits)
  moreover have "bt_wf (iv_insert at len ivs)" by (simp add: iv_insert_def bt.invar_ins [OF wf])
  ultimately show "iv_ok (iv_insert at len ivs)" unfolding iv_ok_def by blast
qed

subsection \<open>Tilings of segments\<close>

fun seg_tiles :: "nat \<Rightarrow> seg list \<Rightarrow> nat \<Rightarrow> bool" where
  "seg_tiles a [] b \<longleftrightarrow> a = b"
| "seg_tiles a (s # ss) b \<longleftrightarrow> seg_at s = a \<and> seg_tiles (a + seg_len s) ss b"

text \<open>Ascending without overlap, inside a size.\<close>

fun segs_fit :: "nat \<Rightarrow> seg list \<Rightarrow> nat \<Rightarrow> bool" where
  "segs_fit pos [] fsize \<longleftrightarrow> pos \<le> fsize"
| "segs_fit pos (s # segs) fsize \<longleftrightarrow> pos \<le> seg_at s \<and> segs_fit (seg_at s + seg_len s) segs fsize"

lemma is_gap_simps [simp]:
  "is_gap (SGap a l r i)" "\<not> is_gap (SChild c f l a rt)" "\<not> is_gap (STabled c f l a rt)" "\<not> is_gap (SPcluster p a l rt)"
  by (simp_all add: is_gap_def)

lemma tile_from_spec:
  "segs_fit pos segs fsize \<Longrightarrow> \<exists>ts. tile_from pos segs fsize = Some ts \<and> seg_tiles pos ts fsize \<and>
     filter (\<lambda>s. \<not> is_gap s) ts = filter (\<lambda>s. \<not> is_gap s) segs \<and> set segs \<subseteq> set ts \<and>
     (\<forall>s \<in> set ts - set segs. is_gap s \<and> 0 < seg_len s \<and> seg_residue s = None \<and> seg_inline s = None)"
proof (induction segs arbitrary: pos)
  case (Cons s segs)
  then obtain ts where "tile_from (seg_at s + seg_len s) segs fsize = Some ts"
      "seg_tiles (seg_at s + seg_len s) ts fsize"
      "filter (\<lambda>s. \<not> is_gap s) ts = filter (\<lambda>s. \<not> is_gap s) segs" "set segs \<subseteq> set ts"
      "\<forall>s \<in> set ts - set segs. is_gap s \<and> 0 < seg_len s \<and> seg_residue s = None \<and> seg_inline s = None"
    by fastforce
  then show ?case using Cons.prems by auto
qed auto

lemma tile_from_None: "tile_from pos segs fsize = None \<Longrightarrow> \<not> segs_fit pos segs b"
  by (induction segs arbitrary: pos) (auto split: if_splits option.splits)

text \<open>A relation that does not depend on the order survives sorting.\<close>

lemma sorted_wrt_insort_key:
  assumes sym: "\<And>x y. R x y \<Longrightarrow> R y x"
  shows "sorted_wrt R (insort_key f x xs) \<longleftrightarrow> (\<forall>y \<in> set xs. R x y) \<and> sorted_wrt R xs"
proof (induction xs)
  case (Cons a xs)
  have "R a x \<longleftrightarrow> R x a" using sym by blast
  then show ?case using Cons.IH by (auto simp: set_insort_key)
qed simp

lemma sorted_wrt_sort_key: "(\<And>x y. R x y \<Longrightarrow> R y x) \<Longrightarrow> sorted_wrt R (sort_key f xs) \<longleftrightarrow> sorted_wrt R xs"
  by (induction xs) (simp_all add: sorted_wrt_insort_key)

definition seg_apart :: "seg \<Rightarrow> seg \<Rightarrow> bool" where
  "seg_apart s t \<longleftrightarrow> seg_at s + seg_len s \<le> seg_at t \<or> seg_at t + seg_len t \<le> seg_at s"

lemma seg_apart_sym: "seg_apart s t \<Longrightarrow> seg_apart t s"
  by (auto simp: seg_apart_def)

lemma segs_fit_sorted:
  assumes "sorted_wrt seg_apart segs" "sorted (map seg_at segs)" "\<forall>s \<in> set segs. 0 < seg_len s \<and> seg_at s + seg_len s \<le> fsize"
    and "\<forall>s \<in> set segs. pos \<le> seg_at s" "pos \<le> fsize"
  shows "segs_fit pos segs fsize"
  using assms
proof (induction segs arbitrary: pos)
  case (Cons s segs)
  have "seg_at s + seg_len s \<le> seg_at t" if "t \<in> set segs" for t
    using Cons.prems(1-3) that by (force simp: seg_apart_def)
  then show ?case using Cons by simp
qed simp

lemma tile_sorted:
  assumes "sorted_wrt seg_apart segs" "\<forall>s \<in> set segs. 0 < seg_len s \<and> seg_at s + seg_len s \<le> fsize"
  shows "\<exists>ts. tile_gaps (sort_key seg_at segs) fsize = Some ts \<and> seg_tiles 0 ts fsize \<and> set segs \<subseteq> set ts \<and>
     (\<forall>s \<in> set ts - set segs. is_gap s \<and> 0 < seg_len s \<and> seg_residue s = None \<and> seg_inline s = None)"
proof -
  have "segs_fit 0 (sort_key seg_at segs) fsize"
    by (rule segs_fit_sorted) (use assms in \<open>simp_all add: sorted_wrt_sort_key [where R = seg_apart, OF seg_apart_sym]\<close>)
  from tile_from_spec [OF this] show ?thesis unfolding tile_gaps_def by auto
qed

lemma tile_from_ge: "tile_from p ys fsize \<noteq> None \<Longrightarrow> y \<in> set ys \<Longrightarrow> p \<le> seg_at y"
proof (induction ys arbitrary: p)
  case (Cons z ys)
  then have z: "p \<le> seg_at z" "tile_from (seg_at z + seg_len z) ys fsize \<noteq> None"
    by (auto split: if_splits option.splits)
  show ?case
  proof (cases "y = z")
    case False
    then have "seg_at z + seg_len z \<le> seg_at y" using Cons z(2) by simp
    then show ?thesis using z(1) by linarith
  qed (use z in simp)
qed simp

lemma tile_from_apart: "tile_from p ys fsize \<noteq> None \<Longrightarrow> sorted_wrt seg_apart ys"
proof (induction ys arbitrary: p)
  case (Cons z ys)
  then have z: "tile_from (seg_at z + seg_len z) ys fsize \<noteq> None" by (auto split: if_splits option.splits)
  then show ?case using Cons.IH tile_from_ge [OF z] by (simp add: seg_apart_def)
qed simp

subsection \<open>Covers of a span\<close>

text \<open>What a cover claims: its span of the stream is a range of its member.\<close>

definition cover_true :: "byte list \<Rightarrow> (nat \<Rightarrow> byte list) \<Rightarrow> cover \<Rightarrow> bool" where
  "cover_true stream mem cv \<longleftrightarrow>
     window stream (cv_pstart cv) (cv_len cv) = window (mem (cv_idx cv)) (cv_from cv) (cv_len cv)"

lemma cover_piece:
  assumes "cover_true stream mem cv" "cv_pstart cv \<le> lo" "lo + n \<le> cv_end cv"
  shows "window stream lo n = window (mem (cv_idx cv)) (cv_from cv + (lo - cv_pstart cv)) n"
proof -
  let ?d = "lo - cv_pstart cv"
  have "window (window stream (cv_pstart cv) (cv_len cv)) ?d n
      = window (window (mem (cv_idx cv)) (cv_from cv) (cv_len cv)) ?d n"
    using assms(1) by (simp add: cover_true_def)
  then show ?thesis using assms(2,3) by (simp add: window_window cv_end_def min_absorb1)
qed

text \<open>A segment of the image at \<open>root_at + k\<close> that is the stream's bytes at \<open>lstart + k\<close>.\<close>

definition span_seg :: "byte list \<Rightarrow> (nat \<Rightarrow> byte list) \<Rightarrow> nat \<Rightarrow> nat \<Rightarrow> nat \<Rightarrow> nat \<Rightarrow> seg \<Rightarrow> bool" where
  "span_seg stream mem lstart root_at pos fin s \<longleftrightarrow> (\<exists>i f n k. s = STabled i f n 0 (root_at + k) \<and> INLINE_MAX < n \<and>
     pos \<le> lstart + k \<and> lstart + k + n \<le> fin \<and> window stream (lstart + k) n = window (mem i) f n)"

lemma span_loop_sound:
  assumes "\<forall>cv \<in> set covers. cover_true stream mem cv" "lstart \<le> pos"
  shows "(\<forall>s \<in> set (span_loop covers lstart fin pos root_at). span_seg stream mem lstart root_at pos fin s) \<and>
         sorted_wrt (\<lambda>s t. seg_root s + seg_len s \<le> seg_root t) (span_loop covers lstart fin pos root_at)"
  using assms
proof (induction covers lstart fin pos root_at rule: span_loop.induct)
  case (2 cv covers lstart fin pos root_at)
  define lo where "lo = max (cv_pstart cv) pos"
  define hi where "hi = min (cv_end cv) fin"
  have weak: "span_seg stream mem lstart root_at p fin s \<Longrightarrow> p' \<le> p \<Longrightarrow> span_seg stream mem lstart root_at p' fin s" for p p' s
    unfolding span_seg_def by (metis le_trans)
  consider (skip) "cv_end cv \<le> pos" | (stop) "\<not> cv_end cv \<le> pos" "fin \<le> cv_pstart cv"
    | (none) "\<not> cv_end cv \<le> pos" "\<not> fin \<le> cv_pstart cv" "hi \<le> lo"
    | (piece) "\<not> cv_end cv \<le> pos" "\<not> fin \<le> cv_pstart cv" "\<not> hi \<le> lo" by blast
  then show ?case
  proof cases
    case none
    then show ?thesis using 2 by (simp add: Let_def lo_def hi_def)
  next
    case piece
    have IH: "(\<forall>s \<in> set (span_loop covers lstart fin hi root_at). span_seg stream mem lstart root_at hi fin s) \<and>
        sorted_wrt (\<lambda>s t. seg_root s + seg_len s \<le> seg_root t) (span_loop covers lstart fin hi root_at)"
      using "2.IH"(3) [OF piece(1,2) lo_def hi_def piece(3)] "2.prems" piece(3) by (simp add: lo_def)
    let ?s = "STabled (cv_idx cv) (cv_from cv + (lo - cv_pstart cv)) (hi - lo) 0 (root_at + (lo - lstart))"
    have w: "window stream lo (hi - lo) = window (mem (cv_idx cv)) (cv_from cv + (lo - cv_pstart cv)) (hi - lo)"
      by (rule cover_piece) (use "2.prems"(1) piece(3) in \<open>auto simp: lo_def hi_def\<close>)
    have ge: "lstart \<le> lo" "lstart + (lo - lstart) = lo" using "2.prems"(2) by (simp_all add: lo_def)
    have b: "pos \<le> lo" "lo + (hi - lo) \<le> fin" using piece(3) by (auto simp: lo_def hi_def)
    have s: "span_seg stream mem lstart root_at pos fin ?s" if "INLINE_MAX < hi - lo"
      unfolding span_seg_def
      by (intro exI conjI) (rule refl, use that w ge(2) b in simp_all)
    have after: "seg_root ?s + seg_len ?s \<le> seg_root t" if "t \<in> set (span_loop covers lstart fin hi root_at)" for t
    proof -
      obtain i f n k where t: "t = STabled i f n 0 (root_at + k)" "hi \<le> lstart + k"
        using IH \<open>t \<in> _\<close> unfolding span_seg_def by blast
      then show ?thesis using ge(1) piece(3) by simp
    qed
    have "span_loop (cv # covers) lstart fin pos root_at
        = (if INLINE_MAX < hi - lo then [?s] else []) @ span_loop covers lstart fin hi root_at"
      using piece by (simp add: lo_def hi_def Let_def)
    moreover have "pos \<le> hi" using piece(3) by (simp add: lo_def)
    ultimately show ?thesis using IH s after weak by (auto simp del: span_loop.simps)
  qed (use 2 in simp_all)
qed simp

subsection \<open>Counting the covered bytes\<close>

definition spans_cover :: "(nat \<times> nat) list \<Rightarrow> nat set" where
  "spans_cover sp = (\<Union>(s, e) \<in> set sp. {s..<e})"

definition covers_cover :: "cover list \<Rightarrow> nat set" where
  "covers_cover covers = (\<Union>c \<in> set covers. {cv_pstart c..<cv_end c})"

definition spans_ok :: "(nat \<times> nat) list \<Rightarrow> bool" where
  "spans_ok sp \<longleftrightarrow> sorted_wrt (\<lambda>p q. snd p < fst q) sp \<and> (\<forall>p \<in> set sp. fst p \<le> snd p)"

lemma spans_ok_snoc:
  "spans_ok (sp @ [p]) \<longleftrightarrow> spans_ok sp \<and> fst p \<le> snd p \<and> (\<forall>q \<in> set sp. snd q < fst p)"
  by (auto simp: spans_ok_def sorted_wrt_append)

lemma spans_cover_snoc: "spans_cover (sp @ [p]) = spans_cover sp \<union> {fst p..<snd p}"
  by (cases p) (auto simp: spans_cover_def)

lemma merge_from_spec:
  assumes "spans_ok out" "sorted (map cv_pstart covers)" "out \<noteq> [] \<Longrightarrow> \<forall>c \<in> set covers. fst (last out) \<le> cv_pstart c"
  shows "spans_ok (merge_from out covers) \<and> spans_cover (merge_from out covers) = spans_cover out \<union> covers_cover covers"
  using assms
proof (induction out covers rule: merge_from.induct)
  case (2 out c covers)
  have le: "cv_pstart c \<le> cv_end c" by (simp add: cv_end_def)
  have srt: "sorted (map cv_pstart covers)" "\<forall>d \<in> set covers. cv_pstart c \<le> cv_pstart d"
    using "2.prems"(2) by simp_all
  have add: "covers_cover (c # covers) = {cv_pstart c..<cv_end c} \<union> covers_cover covers"
    by (simp add: covers_cover_def)
  show ?case
  proof (cases "out \<noteq> [] \<and> cv_pstart c \<le> snd (last out)")
    case True
    define pre where "pre = butlast out"
    obtain s e where lst: "last out = (s, e)" by (cases "last out") auto
    have out: "out = pre @ [(s, e)]" using True lst append_butlast_last_id [of out] by (simp add: pre_def)
    have s: "s \<le> cv_pstart c" "cv_pstart c \<le> e" using True "2.prems"(3) lst by auto
    have ok: "spans_ok (pre @ [(s, max e (cv_end c))])"
      using "2.prems"(1) unfolding out spans_ok_snoc by auto
    have "{s..<max e (cv_end c)} = {s..<e} \<union> {cv_pstart c..<cv_end c}" using s by auto
    then have cov: "spans_cover (pre @ [(s, max e (cv_end c))]) = spans_cover out \<union> {cv_pstart c..<cv_end c}"
      unfolding out spans_cover_snoc by auto
    have bnd: "\<forall>d \<in> set covers. fst (last (pre @ [(s, max e (cv_end c))])) \<le> cv_pstart d"
      using s srt(2) by auto
    have "merge_from out (c # covers) = merge_from (pre @ [(s, max e (cv_end c))]) covers"
      using True lst by (simp add: pre_def)
    moreover have "spans_ok (merge_from (pre @ [(s, max e (cv_end c))]) covers) \<and>
        spans_cover (merge_from (pre @ [(s, max e (cv_end c))]) covers)
        = spans_cover (pre @ [(s, max e (cv_end c))]) \<union> covers_cover covers"
      using "2.IH"(1) [OF True] ok srt(1) bnd unfolding pre_def lst by simp
    ultimately show ?thesis unfolding add cov by auto
  next
    case False
    have "\<forall>q \<in> set out. snd q < cv_pstart c"
    proof (cases "out = []")
      case ne: False
      then have l: "snd (last out) < cv_pstart c" using False by simp
      have dec: "out = butlast out @ [last out]" using ne by simp
      then have "spans_ok (butlast out @ [last out])" using "2.prems"(1) by simp
      then have "\<forall>q \<in> set (butlast out). snd q < fst (last out)" "fst (last out) \<le> snd (last out)"
        by (simp_all add: spans_ok_snoc)
      then have "\<forall>q \<in> set (butlast out). snd q < cv_pstart c" using l by (meson less_le_trans less_trans)
      then show ?thesis using dec l by (metis Un_iff empty_iff empty_set insert_iff list.simps(15) set_append)
    qed simp
    then have ok: "spans_ok (out @ [(cv_pstart c, cv_end c)])"
      using "2.prems"(1) le by (simp add: spans_ok_snoc)
    show ?thesis
      using "2.IH"(2) [OF False ok srt(1)] srt(2) False unfolding add spans_cover_snoc by auto
  qed
qed (simp add: covers_cover_def)

lemma overlap_loop_card:
  assumes "spans_ok sp" "\<forall>p \<in> set sp. at < snd p"
  shows "overlap_loop sp at fin = card (spans_cover sp \<inter> {at..<fin})"
  using assms
proof (induction sp at fin rule: overlap_loop.induct)
  case (2 s e spans at fin)
  have ok: "spans_ok spans" "\<forall>p \<in> set spans. e < fst p" "s \<le> e" "at < e"
    using "2.prems" by (auto simp: spans_ok_def)
  show ?case
  proof (cases "fin \<le> s")
    case True
    have "\<forall>p \<in> set ((s, e) # spans). fin \<le> fst p" using True ok by fastforce
    then have "spans_cover ((s, e) # spans) \<inter> {at..<fin} = {}" by (fastforce simp: spans_cover_def)
    then show ?thesis using True by simp
  next
    case False
    have "spans_cover ((s, e) # spans) \<inter> {at..<fin} = {max s at..<min e fin} \<union> (spans_cover spans \<inter> {at..<fin})"
      by (auto simp: spans_cover_def)
    moreover have "{max s at..<min e fin} \<inter> (spans_cover spans \<inter> {at..<fin}) = {}"
      using ok(2) by (fastforce simp: spans_cover_def)
    ultimately have "card (spans_cover ((s, e) # spans) \<inter> {at..<fin})
        = min e fin - max s at + card (spans_cover spans \<inter> {at..<fin})"
      by (simp add: card_Un_disjoint)
    then show ?thesis using False "2.IH" [OF False ok(1)] "2.prems"(2) by simp
  qed
qed (simp add: spans_cover_def)

lemma spans_ok_dropWhile:
  "spans_ok sp \<Longrightarrow> spans_ok (dropWhile (\<lambda>(_, e). e \<le> at) sp) \<and>
     (\<forall>p \<in> set (dropWhile (\<lambda>(_, e). e \<le> at) sp). at < snd p) \<and>
     spans_cover (dropWhile (\<lambda>(_, e). e \<le> at) sp) \<inter> {at..<fin} = spans_cover sp \<inter> {at..<fin}"
proof (induction sp)
  case (Cons p sp)
  obtain s e where p: "p = (s, e)" by (cases p)
  have ok: "spans_ok sp" "\<forall>q \<in> set sp. e < fst q \<and> fst q \<le> snd q" using Cons.prems by (auto simp: spans_ok_def p)
  show ?case
  proof (cases "e \<le> at")
    case True
    then have "spans_cover (p # sp) \<inter> {at..<fin} = spans_cover sp \<inter> {at..<fin}"
      by (auto simp: spans_cover_def p)
    then show ?thesis using True Cons.IH [OF ok(1)] by (simp add: p)
  next
    case False
    then have "\<forall>q \<in> set (p # sp). at < snd q" using ok(2) by (fastforce simp: p)
    then show ?thesis using False Cons.prems by (simp add: p)
  qed
qed (simp add: spans_ok_def)

lemma overlap_exact:
  assumes "sorted (map cv_pstart covers)"
  shows "overlap (merge_spans covers) at len = card (covers_cover covers \<inter> {at..<at + len})"
proof -
  have m: "spans_ok (merge_spans covers)" "spans_cover (merge_spans covers) = covers_cover covers"
    using merge_from_spec [of "[]" covers] assms by (simp_all add: merge_spans_def spans_ok_def spans_cover_def)
  then show ?thesis
    using spans_ok_dropWhile [OF m(1), of at "at + len"] overlap_loop_card by (simp add: overlap_def)
qed

end
