(* ===== verification/Hdx_Pcluster.thy ===== *)
theory Hdx_Pcluster
  imports Hdx_Splice Hdx_Erofs_Dir Hdx_Compressors
begin

text \<open>
  \<open>src/src/recipe_cmd.rs\<close>, the pclusters of an EROFS image as nodes of a recipe: the splices of an
  uncompressed or rotated pcluster, the search for the encoder settings that reproduce a
  compressed one, the planning of a file that owns pclusters, and the tally. liblzma's encoder and
  SHA-256 are parameters; the spool of literal bytes is the list of the bytes appended to it.
\<close>

definition ENCODE_MARGIN :: nat where "ENCODE_MARGIN = 2 ^ 20"
definition LZMA_PRESET_EXTREME :: nat where "LZMA_PRESET_EXTREME = 2 ^ 31"

datatype pc_error =
    AllPadding | ZeroCapacity | BadDictSize nat | PresetRejected nat | EncodeFailed | MarginShort
  | TruncatedPcluster nat | ReadBack erofs_error

text \<open>
  \<open>le_preset_ok p\<close> is whether liblzma knows the preset; \<open>le_encode input cap preset dict\<close> is what the
  encoder produced into a buffer of \<open>cap\<close> bytes and how much input it consumed.
\<close>

record lzma_encoder =
  le_preset_ok :: "nat \<Rightarrow> bool"
  le_encode :: "byte list \<Rightarrow> nat \<Rightarrow> nat \<Rightarrow> nat \<Rightarrow> (byte list \<times> nat) option"

definition microlzma_encode ::
  "lzma_encoder \<Rightarrow> byte list \<Rightarrow> nat \<Rightarrow> nat \<Rightarrow> nat \<Rightarrow> pc_error + byte list \<times> nat" where
  "microlzma_encode le input out_cap preset dict_size =
     ensureR (0 < out_cap) ZeroCapacity
     (ensureR (2 ^ 12 \<le> dict_size \<and> dict_size \<le> LZMA_MAX_DICT) (BadDictSize dict_size)
     (ensureR (le_preset_ok le preset) (PresetRejected preset)
     (case le_encode le input out_cap preset dict_size of
        None \<Rightarrow> Inl EncodeFailed
      | Some (out, consumed) \<Rightarrow> Inr (take out_cap out, consumed))))"

text \<open>\<open>Vec::resize(n, 0)\<close>.\<close>

definition vec_resize :: "nat \<Rightarrow> byte list \<Rightarrow> byte list" where
  "vec_resize n xs = take n xs @ replicate (n - length xs) 0"

subsection \<open>Pclusters stored uncompressed\<close>

definition splice_verbatim :: "pcluster \<Rightarrow> nat \<Rightarrow> cover list \<Rightarrow> seg list" where
  "splice_verbatim pc llen covers = splice_span covers (pc_la pc) llen (pc_pa pc)"

text \<open>Whether anything was emitted, and what.\<close>

definition splice_rotated :: "pcluster \<Rightarrow> byte list \<Rightarrow> byte list \<Rightarrow> cover list \<Rightarrow> bool \<times> seg list" where
  "splice_rotated pc logical stored covers =
     (case interlace_skip pc of
        None \<Rightarrow> (False, [])
      | Some skip \<Rightarrow>
          if skip = 0 \<or> length logical \<noteq> pc_plen pc \<or> length stored \<noteq> pc_plen pc then (False, [])
          else let head = pc_plen pc - skip in
            if take skip stored \<noteq> drop head logical \<or> drop skip stored \<noteq> take head logical then (False, [])
            else let new = splice_span covers (pc_la pc + head) skip (pc_pa pc) @
                           splice_span covers (pc_la pc) head (pc_pa pc + skip)
              in (new \<noteq> [], new))"

subsection \<open>Nodes for compressed pclusters\<close>

datatype pc_input =
    PcMember (pi_idx: nat) (pi_from: nat) (pi_len: nat)
  | PcLiteral (pi_spool: nat) (pi_len: nat) (pi_residue: "nat option") (pi_inline: "byte list option")

definition is_member_input :: "pc_input \<Rightarrow> bool" where
  "is_member_input i = (case i of PcMember _ _ _ \<Rightarrow> True | PcLiteral _ _ _ _ \<Rightarrow> False)"

record pcnode =
  pn_size :: nat
  pn_sha256 :: "byte list"
  pn_pad :: nat
  pn_preset :: nat
  pn_dict_size :: nat
  pn_inputs :: "pc_input list"
  pn_name :: string

text \<open>The presets to try; \<open>0..=9\<close> with the extreme flag set is an addition, the flag being bit 31.\<close>

definition presets :: "nat option \<Rightarrow> nat list" where
  "presets known =
     (case known of
        Some p \<Rightarrow> [p]
      | None \<Rightarrow> 6 # [0..<10] @ map (\<lambda>p. p + LZMA_PRESET_EXTREME) [0..<10])"

fun lengths_scan :: "nat \<Rightarrow> nat \<Rightarrow> nat \<Rightarrow> nat list \<Rightarrow> nat list" where
  "lengths_scan llen avail acc [] = []"
| "lengths_scan llen avail acc (n # ns) =
     (let acc = (if acc = 0 then n else llen + n) in min acc avail # lengths_scan llen avail acc ns)"

definition lengths :: "nat \<Rightarrow> nat \<Rightarrow> nat list" where
  "lengths llen avail = remdups_adj (sort (lengths_scan llen avail 0 [llen, 2 ^ 12, 2 ^ 16, ENCODE_MARGIN]))"

text \<open>The inner search loop for one preset: the length that was fed when the candidate matches the
  stored bytes, and whether some candidate ran out of input.\<close>

fun search_lengths ::
  "lzma_encoder \<Rightarrow> byte list \<Rightarrow> byte list \<Rightarrow> bool \<Rightarrow> nat \<Rightarrow> nat \<Rightarrow> nat \<Rightarrow> nat list \<Rightarrow> bool \<Rightarrow>
   pc_error + nat option \<times> bool" where
  "search_lengths le stored stream goes_on pad dict p [] short = Inr (None, short)"
| "search_lengths le stored stream goes_on pad dict p (fed # feds) short =
     bindR (microlzma_encode le (take fed stream) (length stored - pad) p dict) (\<lambda>(out, consumed).
       if length out < length stored - pad \<and> consumed = fed \<and> (fed < length stream \<or> goes_on)
       then search_lengths le stored stream goes_on pad dict p feds True
       else if vec_resize (length stored) (replicate pad 0 @ out) = stored then Inr (Some fed, short)
       else search_lengths le stored stream goes_on pad dict p feds short)"

fun search_presets ::
  "lzma_encoder \<Rightarrow> byte list \<Rightarrow> byte list \<Rightarrow> bool \<Rightarrow> nat \<Rightarrow> nat \<Rightarrow> nat list \<Rightarrow> nat list \<Rightarrow> bool \<Rightarrow>
   pc_error + (nat \<times> nat) option \<times> bool" where
  "search_presets le stored stream goes_on pad dict feds [] short = Inr (None, short)"
| "search_presets le stored stream goes_on pad dict feds (p # ps) short =
     bindR (search_lengths le stored stream goes_on pad dict p feds short) (\<lambda>(hit, short).
       case hit of
         Some fed \<Rightarrow> Inr (Some (p, fed), short)
       | None \<Rightarrow> search_presets le stored stream goes_on pad dict feds ps short)"

definition literal_input :: "byte list \<Rightarrow> nat \<Rightarrow> nat \<Rightarrow> nat \<Rightarrow> byte list \<Rightarrow> pc_input \<times> byte list" where
  "literal_input stream la from to spool =
     (let bytes = window stream (from - la) (to - from) in
      if to - from \<le> INLINE_MAX then (PcLiteral 0 (to - from) None (Some bytes), spool)
      else (PcLiteral (length spool) (to - from) None None, spool @ bytes))"

fun tile_inputs ::
  "cover list \<Rightarrow> byte list \<Rightarrow> nat \<Rightarrow> nat \<Rightarrow> nat \<Rightarrow> byte list \<Rightarrow> pc_input list \<times> byte list" where
  "tile_inputs [] stream la fin pos spool =
     (if pos < fin then (let (i, spool) = literal_input stream la pos fin spool in ([i], spool)) else ([], spool))"
| "tile_inputs (cv # covers) stream la fin pos spool =
     (if cv_end cv \<le> pos then tile_inputs covers stream la fin pos spool
      else if fin \<le> cv_pstart cv then tile_inputs [] stream la fin pos spool
      else let lo = max (cv_pstart cv) pos; hi = min (cv_end cv) fin in
        if hi \<le> lo then tile_inputs covers stream la fin pos spool
        else
          let (lits, spool) = (if pos < lo then (let (i, s) = literal_input stream la pos lo spool in ([i], s))
                               else ([], spool));
              (rest, spool) = tile_inputs covers stream la fin hi spool
          in (lits @ PcMember (cv_idx cv) (cv_from cv + (lo - cv_pstart cv)) (hi - lo) # rest, spool))"

definition plan_pcluster ::
  "lzma_encoder \<Rightarrow> (byte list \<Rightarrow> byte list) \<Rightarrow> pcluster \<Rightarrow> byte list \<Rightarrow> byte list \<Rightarrow> bool \<Rightarrow> cover list \<Rightarrow>
   nat option \<Rightarrow> nat \<Rightarrow> byte list \<Rightarrow> (pc_error + (pcnode \<times> nat) option) \<times> byte list" where
  "plan_pcluster le sha pc stored stream goes_on covers known dict spool =
     (let pad = pcluster_padding stored in
      if \<not> pad < length stored then (Inl AllPadding, spool)
      else
        case search_presets le stored stream goes_on pad dict (lengths (pc_llen pc) (length stream)) (presets known) False of
          Inl e \<Rightarrow> (Inl e, spool)
        | Inr (None, short) \<Rightarrow> (if short then Inl MarginShort else Inr None, spool)
        | Inr (Some (preset, fed), short) \<Rightarrow>
            (let (inputs, spool) = tile_inputs covers stream (pc_la pc) (pc_la pc + fed) (pc_la pc) spool in
             if \<not> list_ex is_member_input inputs then (Inr None, spool)
             else (Inr (Some (\<lparr>pn_size = pc_plen pc, pn_sha256 = sha stored, pn_pad = pad, pn_preset = preset,
                               pn_dict_size = dict, pn_inputs = inputs,
                               pn_name = ''pcluster@'' @ show_nat (pc_pa pc)\<rparr>, preset)), spool)))"

definition read_stored :: "view \<Rightarrow> pcluster \<Rightarrow> pc_error + byte list" where
  "read_stored v pc =
     (let stored = read_full_at v (pc_plen pc) (pc_pa pc) in
      ensureR (length stored = pc_plen pc) (TruncatedPcluster (pc_pa pc)) (Inr stored))"

subsection \<open>The tally\<close>

record pc_stats =
  ps_total :: nat
  ps_verified :: nat
  ps_uncovered :: nat
  ps_verbatim :: nat
  ps_rotated :: nat
  ps_not_verbatim :: nat
  ps_thin :: nat
  ps_mismatch :: nat
  ps_margin :: nat
  ps_unverified_members :: nat

definition pc_stats_default :: pc_stats where
  "pc_stats_default = \<lparr>ps_total = 0, ps_verified = 0, ps_uncovered = 0, ps_verbatim = 0, ps_rotated = 0,
     ps_not_verbatim = 0, ps_thin = 0, ps_mismatch = 0, ps_margin = 0, ps_unverified_members = 0\<rparr>"

definition pc_stats_add :: "pc_stats \<Rightarrow> pc_stats \<Rightarrow> pc_stats" where
  "pc_stats_add a o' = \<lparr>ps_total = ps_total a + ps_total o', ps_verified = ps_verified a + ps_verified o',
     ps_uncovered = ps_uncovered a + ps_uncovered o', ps_verbatim = ps_verbatim a + ps_verbatim o',
     ps_rotated = ps_rotated a + ps_rotated o', ps_not_verbatim = ps_not_verbatim a + ps_not_verbatim o',
     ps_thin = ps_thin a + ps_thin o', ps_mismatch = ps_mismatch a + ps_mismatch o',
     ps_margin = ps_margin a + ps_margin o', ps_unverified_members = ps_unverified_members a + ps_unverified_members o'\<rparr>"

subsection \<open>A file that owns pclusters\<close>

text \<open>\<open>fill\<close> carries the hashed bytes and the window; \<open>None\<close> is running out of fuel.\<close>

fun fill :: "(nat \<Rightarrow> 's \<Rightarrow> ('e + byte list) \<times> 's) \<Rightarrow> nat \<Rightarrow> 's \<Rightarrow> byte list \<Rightarrow> byte list \<Rightarrow> nat \<Rightarrow> nat \<Rightarrow>
    ('e + byte list \<times> byte list) option \<times> 's" where
  "fill rd 0 s hashed win at want = (None, s)"
| "fill rd (Suc fuel) s hashed win at want =
     (if at + length win < want then
        (case rd (2 ^ 16) s of
           (Inl e, s) \<Rightarrow> (Some (Inl e), s)
         | (Inr bs, s) \<Rightarrow>
             if bs = [] then (Some (Inr (hashed, win)), s)
             else fill rd fuel s (hashed @ bs) (win @ bs) at want)
      else (Some (Inr (hashed, win)), s))"

record own =
  ow_reader :: "zreader \<times> packed"
  ow_hashed :: "byte list"
  ow_window :: "byte list"
  ow_at :: nat
  ow_preset :: "nat option"
  ow_spool :: "byte list"
  ow_nodes :: "(pcnode \<times> nat) list"
  ow_segs :: "seg list"
  ow_stats :: pc_stats

record planned_file =
  pf_idx :: nat
  pf_nodes :: "(pcnode \<times> nat) list"
  pf_segs :: "seg list"
  pf_stats :: pc_stats
  pf_proved :: bool

record img_ctx =
  ix_fs :: erofs
  ix_dict_size :: nat

definition pf_refused :: "nat \<Rightarrow> pc_stats \<Rightarrow> planned_file" where
  "pf_refused idx stats = \<lparr>pf_idx = idx, pf_nodes = [], pf_segs = [], pf_stats = stats, pf_proved = False\<rparr>"

definition stats_dropped :: "pc_stats \<Rightarrow> pc_stats" where
  "stats_dropped st = st\<lparr>ps_verified := 0, ps_verbatim := 0, ps_rotated := 0, ps_thin := 0,
     ps_unverified_members := ps_unverified_members st + 1\<rparr>"

text \<open>The body of the loop once the stored bytes are read: \<open>lo\<close> is where the pcluster's bytes start in
  the window.\<close>

definition own_pcluster ::
  "lzma_encoder \<Rightarrow> (byte list \<Rightarrow> byte list) \<Rightarrow> nat \<Rightarrow> cover list \<Rightarrow> pcluster \<Rightarrow> byte list \<Rightarrow> nat \<Rightarrow> nat \<Rightarrow> own \<Rightarrow> own" where
  "own_pcluster le sha dict covers pc stored want lo w =
     (let st = ow_stats w in
      if pc_lzma pc then
        (case plan_pcluster le sha pc stored (drop lo (ow_window w)) (want \<le> ow_at w + length (ow_window w))
                covers (ow_preset w) dict (ow_spool w) of
           (Inr (Some (node, p)), sp) \<Rightarrow>
             w\<lparr>ow_preset := Some p, ow_spool := sp, ow_nodes := ow_nodes w @ [(node, pc_pa pc)],
               ow_stats := st\<lparr>ps_verified := ps_verified st + 1\<rparr>\<rparr>
         | (Inr None, sp) \<Rightarrow> w\<lparr>ow_spool := sp, ow_stats := st\<lparr>ps_mismatch := ps_mismatch st + 1\<rparr>\<rparr>
         | (Inl MarginShort, sp) \<Rightarrow> w\<lparr>ow_spool := sp, ow_stats := st\<lparr>ps_margin := ps_margin st + 1\<rparr>\<rparr>
         | (Inl _, sp) \<Rightarrow> w\<lparr>ow_spool := sp, ow_stats := st\<lparr>ps_mismatch := ps_mismatch st + 1\<rparr>\<rparr>)
      else
        let logical = min (pc_llen pc) (length (ow_window w) - lo); bytes = window (ow_window w) lo logical in
        if logical \<le> length stored \<and> take logical stored = bytes then
          let new = splice_verbatim pc logical covers in
          if new \<noteq> [] then w\<lparr>ow_segs := ow_segs w @ new, ow_stats := st\<lparr>ps_verbatim := ps_verbatim st + 1\<rparr>\<rparr>
          else w\<lparr>ow_stats := st\<lparr>ps_thin := ps_thin st + 1\<rparr>\<rparr>
        else
          case splice_rotated pc bytes stored covers of
            (True, new) \<Rightarrow> w\<lparr>ow_segs := ow_segs w @ new, ow_stats := st\<lparr>ps_rotated := ps_rotated st + 1\<rparr>\<rparr>
          | (False, new) \<Rightarrow> w\<lparr>ow_segs := ow_segs w @ new, ow_stats := st\<lparr>ps_not_verbatim := ps_not_verbatim st + 1\<rparr>\<rparr>)"

text \<open>What the next pcluster cannot need is dropped from the window.\<close>

definition own_drain :: "nat \<Rightarrow> own \<Rightarrow> own" where
  "own_drain keep w =
     (if ow_at w < keep
      then let d = min (keep - ow_at w) (length (ow_window w)) in
           w\<lparr>ow_window := drop d (ow_window w), ow_at := ow_at w + d\<rparr>
      else w)"

text \<open>The loop over the file's pclusters: \<open>Inl\<close> is the refusal of the whole file with its tally.\<close>

fun own_loop ::
  "z_codecs \<Rightarrow> lzma_encoder \<Rightarrow> (byte list \<Rightarrow> byte list) \<Rightarrow> nat \<Rightarrow> img_ctx \<Rightarrow> zplan \<Rightarrow> cover list \<Rightarrow> pcluster list \<Rightarrow> own \<Rightarrow>
   (pc_error + (pc_stats + own)) option" where
  "own_loop zc le sha fuel ctx zp covers [] w = Some (Inr (Inr w))"
| "own_loop zc le sha fuel ctx zp covers (pc # pcs) w =
     (let want = pc_la pc + pc_llen pc + ENCODE_MARGIN in
      case fill (zread zc (ix_fs ctx) zp) fuel (ow_reader w) (ow_hashed w) (ow_window w) (ow_at w) want of
        (None, _) \<Rightarrow> None
      | (Some (Inl e), _) \<Rightarrow> Some (Inl (ReadBack e))
      | (Some (Inr (hashed, win)), rd) \<Rightarrow>
          let w = w\<lparr>ow_reader := rd, ow_hashed := hashed, ow_window := win\<rparr> in
          if pc_la pc < ow_at w then Some (Inr (Inl (stats_dropped (ow_stats w))))
          else
            let lo = pc_la pc - ow_at w in
            if length win \<le> lo then own_loop zc le sha fuel ctx zp covers pcs w
            else
              case read_stored (er_view (ix_fs ctx)) pc of
                Inl e \<Rightarrow> Some (Inl e)
              | Inr stored \<Rightarrow>
                  own_loop zc le sha fuel ctx zp covers pcs
                    (own_drain (pc_la pc + pc_llen pc)
                      (own_pcluster le sha (ix_dict_size ctx) covers pc stored want lo w)))"

definition U64_MAX :: nat where "U64_MAX = 2 ^ 64 - 1"

definition plan_own_file ::
  "z_codecs \<Rightarrow> lzma_encoder \<Rightarrow> (byte list \<Rightarrow> byte list) \<Rightarrow> nat \<Rightarrow> img_ctx \<Rightarrow> packed \<Rightarrow> nat option \<Rightarrow> plan \<Rightarrow> nat \<Rightarrow>
   nat \<Rightarrow> byte list \<Rightarrow> (pc_error + planned_file) option" where
  "plan_own_file zc le sha fuel ctx pk preset fplan idx msize digest =
     (case plan_zplan fplan of
        None \<Rightarrow> Some (Inr (pf_refused idx pc_stats_default))
      | Some zp \<Rightarrow>
          let covers = [\<lparr>cv_idx = idx, cv_from = 0, cv_pstart = 0, cv_len = msize, cv_proved = True\<rparr>] in
          case own_loop zc le sha fuel ctx zp covers (own_pclusters fplan)
                 \<lparr>ow_reader = (zreader_new, pk), ow_hashed = [], ow_window = [], ow_at = 0, ow_preset = preset,
                   ow_spool = [], ow_nodes = [], ow_segs = [], ow_stats = pc_stats_default\<rparr> of
            None \<Rightarrow> None
          | Some (Inl e) \<Rightarrow> Some (Inl e)
          | Some (Inr (Inl stats)) \<Rightarrow> Some (Inr (pf_refused idx stats))
          | Some (Inr (Inr w)) \<Rightarrow>
              (case fill (zread zc (ix_fs ctx) zp) fuel (ow_reader w) (ow_hashed w) (ow_window w) (ow_at w) U64_MAX of
                 (None, _) \<Rightarrow> None
               | (Some (Inl e), _) \<Rightarrow> Some (Inl (ReadBack e))
               | (Some (Inr (hashed, _)), _) \<Rightarrow>
                   Some (Inr (if sha hashed \<noteq> digest then pf_refused idx (stats_dropped (ow_stats w))
                              else \<lparr>pf_idx = idx, pf_nodes = ow_nodes w, pf_segs = ow_segs w, pf_stats = ow_stats w,
                                     pf_proved = True\<rparr>))))"

text \<open>What the file pass adds to the image's tally for one planned file.\<close>

definition file_tally :: "pc_stats \<Rightarrow> planned_file \<Rightarrow> pc_stats" where
  "file_tally st f =
     st\<lparr>ps_verified := ps_verified st + ps_verified (pf_stats f), ps_verbatim := ps_verbatim st + ps_verbatim (pf_stats f),
       ps_mismatch := ps_mismatch st + ps_mismatch (pf_stats f), ps_margin := ps_margin st + ps_margin (pf_stats f),
       ps_not_verbatim := ps_not_verbatim st + ps_not_verbatim (pf_stats f),
       ps_unverified_members := ps_unverified_members st + ps_unverified_members (pf_stats f)\<rparr>"

text \<open>The planned files' nodes and splices joining the image's: the segments, the plan's pclusters, the
  tally and the members whose digest came back.\<close>

fun own_collect :: "planned_file list \<Rightarrow> seg list \<times> pcnode list \<times> pc_stats \<times> nat set \<Rightarrow>
    seg list \<times> pcnode list \<times> pc_stats \<times> nat set" where
  "own_collect [] acc = acc"
| "own_collect (f # fs) (segs, nodes, st, proved) =
     (let n = length nodes;
          placed = map (\<lambda>(k, node, pa). SPcluster (n + k) 0 (pn_size node) pa) (enumerate 0 (pf_nodes f)) in
      own_collect fs (segs @ placed @ pf_segs f, nodes @ map fst (pf_nodes f), file_tally st f,
        if pf_proved f then insert (pf_idx f) proved else proved))"

text \<open>\<open>s(n)\<close> of the summary lines, and the note about the image's pclusters.\<close>

definition plural :: "nat \<Rightarrow> string" where
  "plural n = (if n = 1 then '''' else ''s'')"

definition sep_by :: "string \<Rightarrow> string list \<Rightarrow> string" where
  "sep_by sep xs = (case xs of [] \<Rightarrow> '''' | x # xs \<Rightarrow> x @ concat (map ((@) sep) xs))"

definition note_reasons :: "pc_stats \<Rightarrow> string list" where
  "note_reasons st =
     map (\<lambda>(n, what). show_nat n @ '' '' @ what)
       (filter (\<lambda>(n, what). 0 < n)
         [(ps_uncovered st, ''no fetchable members''), (ps_not_verbatim st, ''stored, but not verbatim''),
          (ps_thin st, ''covered too thinly to slice''), (ps_mismatch st, ''re-encoded differently''),
          (ps_margin st, ''input margin too small'')])"

text \<open>The em dash of the note is its UTF-8 bytes.\<close>

definition pcluster_note :: "pc_stats \<Rightarrow> string" where
  "pcluster_note st =
     (if ps_total st = 0 then ''''
      else
        CHR 0x0A # ''erofs: '' @ show_nat (ps_verified st + ps_verbatim st + ps_rotated st) @ ''/'' @
        show_nat (ps_total st) @ '' pcluster'' @ plural (ps_total st) @ '' rebuilt byte-exact'' @
        (if 0 < ps_verbatim st \<or> 0 < ps_rotated st
         then '' ('' @ sep_by ''; ''
                ((if 0 < ps_verbatim st then [show_nat (ps_verbatim st) @ '' stored uncompressed, spliced''] else []) @
                 (if 0 < ps_rotated st then [show_nat (ps_rotated st) @ '' stored rotated, spliced tail-first''] else [])) @ '')''
         else '''') @
        (if note_reasons st \<noteq> []
         then '' ('' @ sep_by '', '' (note_reasons st) @ '' '' @ [CHR 0xE2, CHR 0x80, CHR 0x94] @ '' literal)''
         else '''') @
        (if 0 < ps_unverified_members st
         then ''; '' @ show_nat (ps_unverified_members st) @ '' member'' @ plural (ps_unverified_members st) @
              '' dropped: packed bytes don'' @ [CHR 0x27] @ ''t match their digest''
         else ''''))"

section \<open>Properties\<close>

subsection \<open>Splices of uncompressed pclusters\<close>

text \<open>A segment of the image whose bytes are the stated range of its member.\<close>

definition seg_true :: "byte list \<Rightarrow> (nat \<Rightarrow> byte list) \<Rightarrow> seg \<Rightarrow> bool" where
  "seg_true img mem s \<longleftrightarrow> (\<exists>i f n a r. s = STabled i f n a r \<and> INLINE_MAX < n \<and> r + n \<le> length img \<and>
     window img r n = window (mem i) f n)"

lemma window_sub: "window xs a n = window ys b n \<Longrightarrow> k + m \<le> n \<Longrightarrow> window xs (a + k) m = window ys (b + k) m"
proof -
  assume e: "window xs a n = window ys b n" and le: "k + m \<le> n"
  have "window (window xs a n) k m = window (window ys b n) k m" using e by simp
  then show ?thesis using le by (simp add: window_window min_absorb1)
qed

text \<open>Where the image holds the stream's bytes, a splice of the span states the image's.\<close>

lemma splice_span_image:
  assumes "\<forall>cv \<in> set covers. cover_true stream mem cv" "window img root_at len = window stream lstart len"
    and "root_at + len \<le> length img"
  shows "\<forall>s \<in> set (splice_span covers lstart len root_at). seg_true img mem s \<and> root_at \<le> seg_root s \<and> seg_root s + seg_len s \<le> root_at + len"
    and "sorted_wrt (\<lambda>s t. seg_root s + seg_len s \<le> seg_root t) (splice_span covers lstart len root_at)"
proof -
  note sound = span_loop_sound [OF assms(1), of lstart lstart "lstart + len" root_at]
  show "sorted_wrt (\<lambda>s t. seg_root s + seg_len s \<le> seg_root t) (splice_span covers lstart len root_at)"
    using sound by (simp add: splice_span_def)
  show "\<forall>s \<in> set (splice_span covers lstart len root_at). seg_true img mem s \<and> root_at \<le> seg_root s \<and> seg_root s + seg_len s \<le> root_at + len"
  proof
    fix s
    assume "s \<in> set (splice_span covers lstart len root_at)"
    then obtain i f n k where s: "s = STabled i f n 0 (root_at + k)" "INLINE_MAX < n" "k + n \<le> len"
        "window stream (lstart + k) n = window (mem i) f n"
      using sound by (fastforce simp: splice_span_def span_seg_def)
    have "window img (root_at + k) n = window stream (lstart + k) n" by (rule window_sub [OF assms(2) s(3)])
    then show "seg_true img mem s \<and> root_at \<le> seg_root s \<and> seg_root s + seg_len s \<le> root_at + len"
      using s assms(3) by (simp add: seg_true_def)
  qed
qed

lemma splice_verbatim_sound:
  assumes "\<forall>cv \<in> set covers. cover_true stream mem cv"
    and "window img (pc_pa pc) llen = window stream (pc_la pc) llen" "pc_pa pc + llen \<le> length img"
  shows "\<forall>s \<in> set (splice_verbatim pc llen covers). seg_true img mem s"
  using splice_span_image(1) [OF assms] by (simp add: splice_verbatim_def)

lemma splice_rotated_sound:
  assumes "\<forall>cv \<in> set covers. cover_true stream mem cv" "logical = window stream (pc_la pc) (length logical)"
    and "stored = window img (pc_pa pc) (length stored)" "splice_rotated pc logical stored covers = (b, segs)"
  shows "(\<forall>s \<in> set segs. seg_true img mem s \<and> pc_pa pc \<le> seg_root s \<and> seg_root s + seg_len s \<le> pc_pa pc + pc_plen pc) \<and>
    sorted_wrt (\<lambda>s t. seg_root s + seg_len s \<le> seg_root t) segs \<and> (b \<longleftrightarrow> segs \<noteq> [])"
proof (cases "b = False \<and> segs = []")
  case False
  obtain skip head where k: "interlace_skip pc = Some skip" "skip \<noteq> 0" "length logical = pc_plen pc" "length stored = pc_plen pc"
      "head = pc_plen pc - skip" "take skip stored = drop head logical" "drop skip stored = take head logical"
      "segs = splice_span covers (pc_la pc + head) skip (pc_pa pc) @ splice_span covers (pc_la pc) head (pc_pa pc + skip)"
      "b \<longleftrightarrow> segs \<noteq> []"
    using assms(4) False by (auto simp: splice_rotated_def Let_def split: option.splits if_splits)
  have lt: "skip \<le> pc_plen pc" "head + skip = pc_plen pc"
    using k(1,5) by (auto simp: interlace_skip_def split: alg.splits if_splits intro: less_imp_le mod_less_divisor)
  have sk: "pc_plen pc - head = skip" using lt by simp
  have "pc_plen pc = min (pc_plen pc) (length img - pc_pa pc)"
    using arg_cong [OF assms(3), of length] k(4) by (simp add: length_window)
  then have inside: "pc_pa pc + pc_plen pc \<le> length img \<or> pc_plen pc = 0" by linarith
  have pos: "0 < pc_plen pc" using k(2) lt(1) by simp
  have "window img (pc_pa pc) skip = take skip stored"
    using arg_cong [OF assms(3), of "take skip"] lt(1) k(4) by (simp add: window_def min_absorb1)
  moreover have "window stream (pc_la pc + head) skip = drop head logical"
    using arg_cong [OF assms(2), of "drop head"] sk k(3) by (simp add: window_def drop_take add.commute)
  ultimately have w1: "window img (pc_pa pc) skip = window stream (pc_la pc + head) skip" using k(6) by simp
  have "window img (pc_pa pc + skip) head = drop skip stored"
    using arg_cong [OF assms(3), of "drop skip"] lt k(4,5) by (simp add: window_def drop_take add.commute)
  moreover have "window stream (pc_la pc) head = take head logical"
    using arg_cong [OF assms(2), of "take head"] lt k(3) by (simp add: window_def min_absorb1)
  ultimately have w2: "window img (pc_pa pc + skip) head = window stream (pc_la pc) head" using k(7) by simp
  have l1: "pc_pa pc + skip \<le> length img" "pc_pa pc + skip + head \<le> length img" using inside pos lt by linarith+
  note p1 = splice_span_image [OF assms(1) w1 l1(1)] and p2 = splice_span_image [OF assms(1) w2 l1(2)]
  have "\<forall>s \<in> set (splice_span covers (pc_la pc + head) skip (pc_pa pc)).
      \<forall>t \<in> set (splice_span covers (pc_la pc) head (pc_pa pc + skip)). seg_root s + seg_len s \<le> seg_root t"
    using p1(1) p2(1) le_trans by blast
  moreover have "pc_pa pc + skip \<le> pc_pa pc + pc_plen pc" "pc_pa pc + skip + head = pc_pa pc + pc_plen pc" using lt by linarith+
  ultimately show ?thesis using p1 p2 k(9) unfolding k(8) by (auto simp: sorted_wrt_append)
qed simp

subsection \<open>Nodes rebuild their pcluster\<close>

definition input_bytes :: "(nat \<Rightarrow> byte list) \<Rightarrow> byte list \<Rightarrow> pc_input \<Rightarrow> byte list" where
  "input_bytes mem spool i =
     (case i of
        PcMember idx from len \<Rightarrow> window (mem idx) from len
      | PcLiteral off len _ inline \<Rightarrow> (case inline of Some b \<Rightarrow> b | None \<Rightarrow> window spool off len))"

text \<open>The inputs stand for the given bytes, whatever the spool grows to.\<close>

definition inputs_for :: "(nat \<Rightarrow> byte list) \<Rightarrow> byte list \<Rightarrow> pc_input list \<Rightarrow> byte list \<Rightarrow> bool" where
  "inputs_for mem spool inputs bs \<longleftrightarrow> (\<forall>ext. concat (map (input_bytes mem (spool @ ext)) inputs) = bs \<and>
     (\<forall>i \<in> set inputs. length (input_bytes mem (spool @ ext) i) = pi_len i))"

lemma inputs_for_Nil [simp]: "inputs_for mem spool [] bs \<longleftrightarrow> bs = []"
  by (auto simp: inputs_for_def)

lemma inputs_for_append:
  "inputs_for mem spool is as \<Longrightarrow> inputs_for mem (spool @ ext) js bs \<Longrightarrow> inputs_for mem (spool @ ext) (is @ js) (as @ bs)"
  by (auto simp: inputs_for_def)

lemma literal_input_for:
  assumes "literal_input stream la from to spool = (i, spool')" "la \<le> from" "from \<le> to" "to - la \<le> length stream"
  shows "inputs_for mem spool' [i] (window stream (from - la) (to - from)) \<and> (\<exists>ext. spool' = spool @ ext) \<and> \<not> is_member_input i"
proof -
  have "to - from = length (window stream (from - la) (to - from))" using assms(2-4) by (simp add: length_window)
  moreover have "window (spool @ bs @ ext) (length spool) (length bs) = bs" for bs ext :: "byte list"
    by (simp add: window_def)
  ultimately show ?thesis using assms(1)
    by (auto simp: literal_input_def Let_def inputs_for_def input_bytes_def is_member_input_def split: if_splits) metis+
qed

lemma tile_inputs_for:
  assumes "\<forall>cv \<in> set covers. cover_true S mem cv" "stream = window S la (length stream)"
    and "la \<le> pos" "pos \<le> fin" "fin - la \<le> length stream" "tile_inputs covers stream la fin pos spool = (inputs, spool')"
  shows "inputs_for mem spool' inputs (window stream (pos - la) (fin - pos)) \<and> (\<exists>ext. spool' = spool @ ext)"
  using assms
proof (induction covers stream la fin pos spool arbitrary: inputs spool' rule: tile_inputs.induct)
  case (1 stream la fin pos spool)
  show ?case
  proof (cases "pos < fin")
    case True
    obtain i s where l: "literal_input stream la pos fin spool = (i, s)" by fastforce
    then show ?thesis using literal_input_for [OF l, of mem] 1 True by simp
  next
    case False
    then show ?thesis using 1 by (simp add: window_0_len)
  qed
next
  case (2 cv covers stream la fin pos spool)
  define lo where "lo = max (cv_pstart cv) pos"
  define hi where "hi = min (cv_end cv) fin"
  consider (skip) "cv_end cv \<le> pos" | (stop) "\<not> cv_end cv \<le> pos" "fin \<le> cv_pstart cv"
    | (none) "\<not> cv_end cv \<le> pos" "\<not> fin \<le> cv_pstart cv" "hi \<le> lo"
    | (piece) "\<not> cv_end cv \<le> pos" "\<not> fin \<le> cv_pstart cv" "\<not> hi \<le> lo" by blast
  then show ?case
  proof cases
    case skip
    then show ?thesis using "2.IH"(1) [OF skip] "2.prems" by simp
  next
    case stop
    then show ?thesis using "2.IH"(2) [OF stop] "2.prems" by simp
  next
    case none
    then show ?thesis using "2.IH"(3) [OF none(1,2) lo_def hi_def none(3)] "2.prems" by (simp add: Let_def lo_def hi_def)
  next
    case piece
    define front where "front = (if pos < lo then (let (i, s) = literal_input stream la pos lo spool in ([i], s)) else ([], spool))"
    obtain lits sp where f: "front = (lits, sp)" by fastforce
    obtain rest sp' where r: "tile_inputs covers stream la fin hi sp = (rest, sp')" by fastforce
    let ?m = "PcMember (cv_idx cv) (cv_from cv + (lo - cv_pstart cv)) (hi - lo)"
    have "tile_inputs (cv # covers) stream la fin pos spool =
        (case front of (lits, sp) \<Rightarrow> case tile_inputs covers stream la fin hi sp of (rest, sp) \<Rightarrow> (lits @ ?m # rest, sp))"
      unfolding tile_inputs.simps(2) front_def Let_def lo_def [symmetric] hi_def [symmetric] using piece by simp
    then have out: "inputs = lits @ ?m # rest" "spool' = sp'"
      using "2.prems"(6) f r by simp_all
    have b: "pos \<le> lo" "lo < hi" "hi \<le> fin" "la \<le> lo" "lo - la + (hi - lo) = hi - la" using piece(3) "2.prems"(3) by (auto simp: lo_def hi_def)
    have lits: "inputs_for mem sp lits (window stream (pos - la) (lo - pos)) \<and> (\<exists>ext. sp = spool @ ext)"
    proof (cases "pos < lo")
      case True
      then obtain i where "literal_input stream la pos lo spool = (i, sp)" "lits = [i]"
        using f by (auto simp: front_def split: prod.splits)
      then show ?thesis using literal_input_for [of stream la pos lo spool i sp mem] "2.prems"(3,5) b by simp
    qed (use f b(1) in \<open>auto simp: front_def window_0_len\<close>)
    have rest: "inputs_for mem sp' rest (window stream (hi - la) (fin - hi)) \<and> (\<exists>ext. sp' = sp @ ext)"
      by (rule "2.IH"(4) [OF piece(1,2) lo_def hi_def piece(3) f [unfolded front_def, symmetric]])
        (use "2.prems" b r in auto)
    have "window S lo (hi - lo) = window (mem (cv_idx cv)) (cv_from cv + (lo - cv_pstart cv)) (hi - lo)"
      by (rule cover_piece) (use "2.prems"(1) piece(3) in \<open>auto simp: lo_def hi_def\<close>)
    moreover have "window stream (lo - la) (hi - lo) = window S lo (hi - lo)"
      using window_sub [of stream 0 "length stream" S la "lo - la" "hi - lo"] "2.prems"(2,5) b by (simp add: window_whole)
    ultimately have eq: "window (mem (cv_idx cv)) (cv_from cv + (lo - cv_pstart cv)) (hi - lo) = window stream (lo - la) (hi - lo)"
      by simp
    moreover have "length (window stream (lo - la) (hi - lo)) = hi - lo" using "2.prems"(5) b by (simp add: length_window)
    ultimately have m: "inputs_for mem sp' [?m] (window stream (lo - la) (hi - lo))"
      by (simp add: inputs_for_def input_bytes_def)
    obtain e1 e2 where e: "sp = spool @ e1" "sp' = sp @ e2" using lits rest by blast
    have "inputs_for mem sp' (lits @ [?m] @ rest)
        (window stream (pos - la) (lo - pos) @ window stream (lo - la) (hi - lo) @ window stream (hi - la) (fin - hi))"
      using inputs_for_append [of mem sp lits _ e2] inputs_for_append [of mem sp' "[?m]" _ "[]" rest] lits m rest e by simp
    moreover have "window stream (pos - la) (lo - pos) @ window stream (lo - la) (hi - lo) @ window stream (hi - la) (fin - hi)
        = window stream (pos - la) (fin - pos)"
      using window_append [of stream "lo - la" "hi - lo" "fin - hi"] window_append [of stream "pos - la" "lo - pos" "fin - lo"]
        b "2.prems"(3) by simp
    ultimately show ?thesis using out e by auto
  qed
qed

text \<open>What the check does with a node: re-encode the inputs, pad in front and behind.\<close>

definition rebuild_pcluster :: "lzma_encoder \<Rightarrow> nat \<Rightarrow> nat \<Rightarrow> nat \<Rightarrow> nat \<Rightarrow> byte list \<Rightarrow> pc_error + byte list" where
  "rebuild_pcluster le sz pad preset dict_size input =
     bindR (microlzma_encode le input (sz - pad) preset dict_size)
       (\<lambda>(out, _). Inr (vec_resize sz (replicate pad 0 @ out)))"

lemma search_lengths_hit:
  "search_lengths le stored stream goes_on pad dict p feds short = Inr (Some fed, short') \<Longrightarrow>
     fed \<in> set feds \<and> rebuild_pcluster le (length stored) pad p dict (take fed stream) = Inr stored"
  by (induction feds arbitrary: short) (auto simp: bindR_eq_Inr rebuild_pcluster_def split: if_splits)

lemma search_presets_hit:
  "search_presets le stored stream goes_on pad dict feds ps short = Inr (Some (p, fed), short') \<Longrightarrow>
     p \<in> set ps \<and> fed \<in> set feds \<and> rebuild_pcluster le (length stored) pad p dict (take fed stream) = Inr stored"
  by (induction ps arbitrary: short) (auto simp: bindR_eq_Inr search_lengths_hit split: option.splits)

lemma lengths_bound: "fed \<in> set (lengths llen avail) \<Longrightarrow> fed \<le> avail"
proof -
  have "fed \<in> set (lengths_scan llen avail acc ns) \<Longrightarrow> fed \<le> avail" for acc ns
    by (induction ns arbitrary: acc) (auto simp: Let_def split: if_splits)
  then show "fed \<in> set (lengths llen avail) \<Longrightarrow> fed \<le> avail" by (simp add: lengths_def del: lengths_scan.simps)
qed

definition node_rebuilds :: "lzma_encoder \<Rightarrow> (byte list \<Rightarrow> byte list) \<Rightarrow> (nat \<Rightarrow> byte list) \<Rightarrow> byte list \<Rightarrow> pcnode \<Rightarrow> byte list \<Rightarrow> bool" where
  "node_rebuilds le sha mem spool node stored \<longleftrightarrow> (\<exists>input. inputs_for mem spool (pn_inputs node) input \<and>
     list_ex is_member_input (pn_inputs node) \<and> pn_size node = length stored \<and> pn_sha256 node = sha stored \<and>
     pn_pad node < pn_size node \<and>
     rebuild_pcluster le (pn_size node) (pn_pad node) (pn_preset node) (pn_dict_size node) input = Inr stored)"

lemma plan_pcluster_hit:
  assumes "plan_pcluster le sha pc stored stream goes_on covers known dict spool = (Inr (Some (node, preset)), spool')"
  obtains fed short where "pcluster_padding stored < length stored"
    "search_presets le stored stream goes_on (pcluster_padding stored) dict (lengths (pc_llen pc) (length stream)) (presets known) False
       = Inr (Some (preset, fed), short)"
    "tile_inputs covers stream (pc_la pc) (pc_la pc + fed) (pc_la pc) spool = (pn_inputs node, spool')"
    "list_ex is_member_input (pn_inputs node)" "pn_size node = pc_plen pc" "pn_sha256 node = sha stored"
    "pn_pad node = pcluster_padding stored" "pn_preset node = preset" "pn_dict_size node = dict"
  using assms by (auto simp: plan_pcluster_def Let_def split: if_splits sum.splits option.splits prod.splits)

lemma plan_pcluster_rebuilds:
  assumes "\<forall>cv \<in> set covers. cover_true S mem cv" "stream = window S (pc_la pc) (length stream)" "length stored = pc_plen pc"
    and "plan_pcluster le sha pc stored stream goes_on covers known dict spool = (Inr (Some (node, preset)), spool')"
  shows "node_rebuilds le sha mem spool' node stored \<and> (\<exists>ext. spool' = spool @ ext) \<and> preset \<in> set (presets known)"
proof -
  obtain fed short where h: "pcluster_padding stored < length stored"
      "search_presets le stored stream goes_on (pcluster_padding stored) dict (lengths (pc_llen pc) (length stream)) (presets known) False
         = Inr (Some (preset, fed), short)"
      "tile_inputs covers stream (pc_la pc) (pc_la pc + fed) (pc_la pc) spool = (pn_inputs node, spool')"
      "list_ex is_member_input (pn_inputs node)" "pn_size node = pc_plen pc" "pn_sha256 node = sha stored"
      "pn_pad node = pcluster_padding stored" "pn_preset node = preset" "pn_dict_size node = dict"
    by (rule plan_pcluster_hit [OF assms(4)])
  note hit = search_presets_hit [OF h(2)]
  have fed: "fed \<le> length stream" using lengths_bound hit by blast
  have "inputs_for mem spool' (pn_inputs node) (take fed stream) \<and> (\<exists>ext. spool' = spool @ ext)"
    using tile_inputs_for [OF assms(1,2) _ _ _ h(3)] fed by (simp add: window_def)
  then show ?thesis using hit h(1,4-9) assms(3) by (auto simp: node_rebuilds_def)
qed

subsection \<open>Filling the window\<close>

context byte_reader begin

lemma fill_window:
  assumes "inv s" "win = window stream at (length win)" "at + length win = pos_of_reader s" "pos_of_reader s \<le> length stream"
    and "length stream - pos_of_reader s < fuel"
  shows "\<exists>win' s'. fill rd fuel s (take (pos_of_reader s) stream) win at want = (Some (Inr (take (pos_of_reader s') stream, win')), s') \<and>
    inv s' \<and> win' = window stream at (length win') \<and> at + length win' = pos_of_reader s' \<and> pos_of_reader s' \<le> length stream \<and>
    (want \<le> pos_of_reader s' \<or> pos_of_reader s' = length stream)"
  using assms
proof (induction fuel arbitrary: s win)
  case (Suc fuel)
  show ?case
  proof (cases "at + length win < want")
    case True
    have buf: "0 < (2 :: nat) ^ 16" by simp
    show ?thesis
      using Suc.prems(1) buf
    proof (cases rule: read_step)
      case (fin s')
      then have "take (pos_of_reader s) stream = take (pos_of_reader s') stream" by simp
      then show ?thesis using True fin Suc.prems by (intro exI [of _ win] exI [of _ s']) auto
    next
      case (more b bs s')
      let ?win = "win @ b # bs"
      have ext: "window stream (pos_of_reader s) (length (b # bs)) = b # bs"
        using arg_cong [OF more(4), of "take (length (b # bs))"] by (simp add: window_def)
      have t: "take (pos_of_reader s') stream = take (pos_of_reader s) stream @ b # bs"
        unfolding more(3) take_add ext [unfolded window_def] ..
      have "?win = window stream at (length win) @ window stream (at + length win) (length (b # bs))"
        using Suc.prems(2,3) ext by simp
      also have "\<dots> = window stream at (length ?win)" by (simp add: window_append)
      finally have "?win = window stream at (length ?win)" .
      from Suc.IH [OF more(2) this, of] Suc.prems(3,5) more(3,5)
      have "\<exists>win' s''. fill rd fuel s' (take (pos_of_reader s') stream) ?win at want
            = (Some (Inr (take (pos_of_reader s'') stream, win')), s'') \<and>
          inv s'' \<and> win' = window stream at (length win') \<and> at + length win' = pos_of_reader s'' \<and> pos_of_reader s'' \<le> length stream \<and>
          (want \<le> pos_of_reader s'' \<or> pos_of_reader s'' = length stream)" by simp
      then show ?thesis using True more(1) t by simp
    qed
  next
    case False
    then show ?thesis using Suc.prems by (intro exI [of _ win] exI [of _ s]) simp
  qed
qed simp

end

subsection \<open>Planning a file of pclusters\<close>

text \<open>A node whose inputs are ranges of its member alone.\<close>

definition node_sound ::
  "lzma_encoder \<Rightarrow> (byte list \<Rightarrow> byte list) \<Rightarrow> (nat \<Rightarrow> byte list) \<Rightarrow> byte list \<Rightarrow> pcnode \<times> nat \<Rightarrow> bool" where
  "node_sound le sha mem img = (\<lambda>(node, pa). list_all is_member_input (pn_inputs node) \<and> pa + pn_size node \<le> length img \<and>
     node_rebuilds le sha mem [] node (window img pa (pn_size node)))"

lemma inputs_for_members:
  "list_all is_member_input is \<Longrightarrow> inputs_for mem spool is bs \<Longrightarrow> inputs_for mem [] is bs"
proof -
  assume m: "list_all is_member_input is" and f: "inputs_for mem spool is bs"
  have "input_bytes mem s i = input_bytes mem t i" if "i \<in> set is" for i s t
    using m that by (auto simp: list_all_iff is_member_input_def input_bytes_def split: pc_input.splits)
  then have "map (input_bytes mem s) is = map (input_bytes mem t) is" for s t by simp
  then show ?thesis using f \<open>\<And>i s t. i \<in> set is \<Longrightarrow> input_bytes mem s i = input_bytes mem t i\<close>
    unfolding inputs_for_def by metis
qed

lemma tile_whole_member:
  assumes "cv_from cv = cv_pstart cv" "cv_pstart cv \<le> pos" "fin \<le> cv_end cv"
  shows "list_all is_member_input (fst (tile_inputs [cv] stream la fin pos spool))"
  using assms by (auto simp: Let_def max_def min_def is_member_input_def split: prod.splits if_splits)

text \<open>What holds of the loop's state: the reader is in step with the hash and the window, and all that
  has been emitted is true of the content read so far.\<close>

definition own_ok where
  "own_ok zc le sha ctx zp mem content img w \<longleftrightarrow>
     (let pos = zr_pos (fst (ow_reader w)) in
      reader_ok zc (ix_fs ctx) zp (ow_reader w) \<and> ow_hashed w = take pos content \<and>
      ow_window w = window content (ow_at w) (length (ow_window w)) \<and> ow_at w + length (ow_window w) = pos \<and>
      pos \<le> length content) \<and>
     list_all (node_sound le sha mem img) (ow_nodes w) \<and> list_all (seg_true img mem) (ow_segs w)"

lemma own_pcluster_reader:
  "ow_reader (own_pcluster le sha dict covers pc stored want lo w) = ow_reader w"
  "ow_hashed (own_pcluster le sha dict covers pc stored want lo w) = ow_hashed w"
  "ow_window (own_pcluster le sha dict covers pc stored want lo w) = ow_window w"
  "ow_at (own_pcluster le sha dict covers pc stored want lo w) = ow_at w"
  by (auto simp: own_pcluster_def Let_def split: prod.splits sum.splits option.splits pc_error.splits bool.splits)

lemma own_pcluster_sound:
  assumes cov: "cover_true content mem cv" "cv_from cv = 0" "cv_pstart cv = 0" "length content \<le> cv_len cv"
    and win: "ow_window w = window content (ow_at w) (length (ow_window w))"
    and lo: "lo < length (ow_window w)" "pc_la pc = ow_at w + lo"
    and stored: "stored = window img (pc_pa pc) (pc_plen pc)" "length stored = pc_plen pc"
    and ok: "list_all (node_sound le sha mem img) (ow_nodes w)" "list_all (seg_true img mem) (ow_segs w)"
  shows "list_all (node_sound le sha mem img) (ow_nodes (own_pcluster le sha dict [cv] pc stored want lo w)) \<and>
    list_all (seg_true img mem) (ow_segs (own_pcluster le sha dict [cv] pc stored want lo w))"
proof (cases "pc_lzma pc")
  case True
  let ?stream = "drop lo (ow_window w)"
  have inside: "ow_at w + length (ow_window w) \<le> length content"
    using arg_cong [OF win, of length] lo(1) by (simp add: length_window)
  have st: "?stream = window content (pc_la pc) (length ?stream)"
    unfolding length_drop using arg_cong [OF win, of "drop lo"] by (simp add: window_def lo(2) drop_take add.commute)
  have node: "node_sound le sha mem img (node, pc_pa pc)"
    if p: "plan_pcluster le sha pc stored ?stream g [cv] pr dict sp = (Inr (Some (node, q)), sp')" for g pr sp node q sp'
  proof -
    have nr: "node_rebuilds le sha mem sp' node stored"
      using plan_pcluster_rebuilds [of "[cv]" content mem ?stream pc stored, OF _ st stored(2) p] cov(1) by simp
    obtain fed short where f: "search_presets le stored ?stream g (pcluster_padding stored) dict
          (lengths (pc_llen pc) (length ?stream)) (presets pr) False = Inr (Some (q, fed), short)"
        and t: "tile_inputs [cv] ?stream (pc_la pc) (pc_la pc + fed) (pc_la pc) sp = (pn_inputs node, sp')"
      by (rule plan_pcluster_hit [OF p]) blast
    have "fed \<le> length ?stream" using search_presets_hit [OF f] lengths_bound by blast
    then have "pc_la pc + fed \<le> cv_end cv" using inside cov(3,4) lo by (simp add: cv_end_def)
    then have all: "list_all is_member_input (pn_inputs node)"
      using tile_whole_member [of cv "pc_la pc" "pc_la pc + fed" ?stream "pc_la pc" sp] cov(2,3) t by simp
    have pos: "pn_size node = pc_plen pc" "0 < pc_plen pc" using nr stored(2) by (auto simp: node_rebuilds_def)
    have "pc_plen pc \<le> length img - pc_pa pc" using stored by (metis length_window min.cobounded2)
    then have "pc_pa pc + pc_plen pc \<le> length img" using pos(2) by linarith
    moreover note pos(1)
    moreover have "node_rebuilds le sha mem [] node stored"
      using nr inputs_for_members [OF all] by (auto simp: node_rebuilds_def)
    ultimately show ?thesis using all stored(1) by (simp add: node_sound_def)
  qed
  then show ?thesis using True ok
    by (auto simp: own_pcluster_def Let_def split: prod.splits sum.splits option.splits pc_error.splits)
next
  case False
  let ?logical = "min (pc_llen pc) (length (ow_window w) - lo)"
  let ?bytes = "window (ow_window w) lo ?logical"
  have cov1: "\<forall>cv \<in> set [cv]. cover_true content mem cv" using cov(1) by simp
  have len: "length ?bytes = ?logical" by (simp add: length_window)
  have bytes: "?bytes = window content (pc_la pc) ?logical"
    using window_sub [of "ow_window w" 0 "length (ow_window w)" content "ow_at w" lo ?logical] win lo
    by (simp add: window_whole)
  have v: "\<forall>s \<in> set (splice_verbatim pc ?logical [cv]). seg_true img mem s"
    if v: "?logical \<le> length stored" "take ?logical stored = ?bytes"
  proof (cases "?logical = 0")
    case True
    then show ?thesis by (auto simp: splice_verbatim_def splice_span_def Let_def)
  next
    case nz: False
    have "window img (pc_pa pc) ?logical = take ?logical stored"
      using stored v(1) by (simp add: window_def min_absorb1)
    moreover have "pc_pa pc + ?logical \<le> length img"
    proof -
      have "length stored \<le> length img - pc_pa pc" using stored(1) by (metis length_window min.cobounded2)
      then show ?thesis using v(1) nz by linarith
    qed
    ultimately show ?thesis using splice_verbatim_sound [OF cov1, of img pc ?logical] v(2) bytes by simp
  qed
  have r: "\<forall>s \<in> set new. seg_true img mem s" if "splice_rotated pc ?bytes stored [cv] = (b, new)" for b new
    using splice_rotated_sound [OF cov1 _ _ that, of img] bytes stored len by simp
  obtain b new where rot: "splice_rotated pc ?bytes stored [cv] = (b, new)" by fastforce
  show ?thesis
    using False ok v r [OF rot] rot
    by (cases b) (auto simp: own_pcluster_def Let_def list_all_iff)
qed

lemma own_drain_ok:
  "own_ok zc le sha ctx zp mem content img w \<Longrightarrow> own_ok zc le sha ctx zp mem content img (own_drain keep w)"
proof -
  assume ok: "own_ok zc le sha ctx zp mem content img w"
  define d where "d = min (keep - ow_at w) (length (ow_window w))"
  have "drop d (window content a n) = window content (a + d) (n - d)" for a n
    by (simp add: window_def drop_take add.commute)
  then have drain: "drop d (ow_window w) = window content (ow_at w + d) (length (ow_window w) - d)"
    using ok unfolding own_ok_def Let_def by metis
  have "d \<le> length (ow_window w)" by (simp add: d_def)
  then have "own_ok zc le sha ctx zp mem content img (w\<lparr>ow_window := drop d (ow_window w), ow_at := ow_at w + d\<rparr>)"
    using ok drain [symmetric] by (simp add: own_ok_def Let_def)
  then show ?thesis using ok by (simp add: own_drain_def Let_def d_def)
qed

lemma zfill_window:
  assumes "reader_ok zc er zp rd0" "win = window content at (length win)" "at + length win = zr_pos (fst rd0)"
    and "zr_pos (fst rd0) \<le> length content" "content = stream_of zc er zp" "length content < fuel"
  obtains win' rd where "fill (zread zc er zp) fuel rd0 (take (zr_pos (fst rd0)) content) win at want
        = (Some (Inr (take (zr_pos (fst rd)) content, win')), rd)"
    "reader_ok zc er zp rd" "win' = window content at (length win')" "at + length win' = zr_pos (fst rd)"
    "zr_pos (fst rd) \<le> length content" "want \<le> zr_pos (fst rd) \<or> zr_pos (fst rd) = length content"
proof -
  have "length content - zr_pos (fst rd0) < fuel" using assms(6) by linarith
  then show thesis
    using that zr.fill_window [of zc er zp rd0 win at fuel want] assms(1-5) unfolding case_prod_unfold by blast
qed

lemma own_loop_sound:
  assumes "cover_true content mem cv" "cv_from cv = 0" "cv_pstart cv = 0" "length content \<le> cv_len cv"
    and "content = stream_of zc (ix_fs ctx) zp" "length content < fuel" "view_wf (er_view (ix_fs ctx))"
    and "img = view_bytes (er_view (ix_fs ctx))" "own_ok zc le sha ctx zp mem content img w"
  shows "\<exists>r. own_loop zc le sha fuel ctx zp [cv] pcs w = Some r \<and>
    (\<forall>w'. r = Inr (Inr w') \<longrightarrow> own_ok zc le sha ctx zp mem content img w')"
  using assms(9)
proof (induction pcs arbitrary: w)
  case (Cons pc pcs)
  let ?rd = "zread zc (ix_fs ctx) zp" and ?want = "pc_la pc + pc_llen pc + ENCODE_MARGIN"
  have ok: "reader_ok zc (ix_fs ctx) zp (ow_reader w)" "ow_hashed w = take (zr_pos (fst (ow_reader w))) content"
      "ow_window w = window content (ow_at w) (length (ow_window w))"
      "ow_at w + length (ow_window w) = zr_pos (fst (ow_reader w))" "zr_pos (fst (ow_reader w)) \<le> length content"
      "list_all (node_sound le sha mem img) (ow_nodes w)" "list_all (seg_true img mem) (ow_segs w)"
    using Cons.prems by (simp_all add: own_ok_def Let_def)
  obtain win rd where f: "fill ?rd fuel (ow_reader w) (ow_hashed w) (ow_window w) (ow_at w) ?want
        = (Some (Inr (take (zr_pos (fst rd)) content, win)), rd)"
      "reader_ok zc (ix_fs ctx) zp rd" "win = window content (ow_at w) (length win)" "ow_at w + length win = zr_pos (fst rd)"
      "zr_pos (fst rd) \<le> length content"
    unfolding ok(2) by (rule zfill_window [OF ok(1,3-5) assms(5,6)])
  let ?w = "w\<lparr>ow_reader := rd, ow_hashed := take (zr_pos (fst rd)) content, ow_window := win\<rparr>"
  have wok: "own_ok zc le sha ctx zp mem content img ?w" using ok(6,7) f(2-5) by (simp add: own_ok_def Let_def)
  let ?lo = "pc_la pc - ow_at w"
  consider (late) "pc_la pc < ow_at w" | (short) "\<not> pc_la pc < ow_at w" "length win \<le> ?lo"
    | (trunc) e where "\<not> pc_la pc < ow_at w" "\<not> length win \<le> ?lo" "read_stored (er_view (ix_fs ctx)) pc = Inl e"
    | (go) stored where "\<not> pc_la pc < ow_at w" "\<not> length win \<le> ?lo" "read_stored (er_view (ix_fs ctx)) pc = Inr stored"
    by (cases "read_stored (er_view (ix_fs ctx)) pc") blast+
  then show ?case
  proof cases
    case short
    then show ?thesis using f(1) Cons.IH [OF wok] by (simp add: Let_def)
  next
    case go
    have st: "stored = window img (pc_pa pc) (pc_plen pc)" "length stored = pc_plen pc"
      using go(3) assms(7,8) by (auto simp: read_stored_def result_simps read_full_at_window Let_def)
    let ?w' = "own_pcluster le sha (ix_dict_size ctx) [cv] pc stored ?want ?lo ?w"
    have "own_ok zc le sha ctx zp mem content img ?w'"
      using own_pcluster_sound [OF assms(1-4), where w = ?w and lo = ?lo and pc = pc and stored = stored and img = img] go(1,2) st f(3) ok(6,7) wok
      by (simp add: own_ok_def Let_def own_pcluster_reader)
    then have "own_ok zc le sha ctx zp mem content img (own_drain (pc_la pc + pc_llen pc) ?w')" by (rule own_drain_ok)
    then show ?thesis using f(1) go Cons.IH by (simp add: Let_def)
  qed (use f(1) in \<open>simp_all add: Let_def\<close>)
qed simp

text \<open>
  C32. A file planned as proved is proved: when the planner of a file that owns pclusters answers, its
  read-back has produced the whole content with the member's digest, every node it emits rebuilds the
  stored bytes of its pcluster from ranges of that content alone (no literal bytes), and every splice
  it emits states bytes of the image that are the stated range of the content; a file that is not
  proved contributes nothing. With enough fuel the planner always answers.
\<close>

theorem own_file_sound:
  assumes "plan_zplan fplan = Some zp" "readable zc (ix_fs ctx) zp" "pk_ok zc (ix_fs ctx) pk" "zp_size zp < 2 ^ 64"
    and "zp_size zp \<le> msize" "zp_size zp < fuel" "view_wf (er_view (ix_fs ctx))" "file_content zc (ix_fs ctx) zp = Some content"
  shows "\<exists>r. plan_own_file zc le sha fuel ctx pk preset fplan idx msize digest = Some r \<and>
    (\<forall>f. r = Inr f \<longrightarrow>
      (if pf_proved f then sha content = digest \<and>
         list_all (node_sound le sha (\<lambda>i. if i = idx then content else []) (view_bytes (er_view (ix_fs ctx)))) (pf_nodes f) \<and>
         list_all (seg_true (view_bytes (er_view (ix_fs ctx))) (\<lambda>i. if i = idx then content else [])) (pf_segs f)
       else pf_nodes f = [] \<and> pf_segs f = []))"
proof -
  let ?cv = "\<lparr>cv_idx = idx, cv_from = 0, cv_pstart = 0, cv_len = msize, cv_proved = True\<rparr>"
  let ?mem = "\<lambda>i. if i = idx then content else []" and ?img = "view_bytes (er_view (ix_fs ctx))"
  let ?w0 = "\<lparr>ow_reader = (zreader_new, pk), ow_hashed = [], ow_window = [], ow_at = 0, ow_preset = preset,
    ow_spool = [], ow_nodes = [], ow_segs = [], ow_stats = pc_stats_default\<rparr>"
  have c: "content = stream_of zc (ix_fs ctx) zp" "length content = zp_size zp"
    using assms(8) readable_length [OF assms(2)] by (simp_all add: stream_of_def)
  have "own_ok zc le sha ctx zp ?mem content ?img ?w0"
    using assms(2,3) by (simp add: own_ok_def reader_ok_def zreader_new_def window_0_len)
  from own_loop_sound [of content ?mem ?cv zc ctx zp fuel ?img le sha ?w0 "own_pclusters fplan", OF _ _ _ _ c(1) _ assms(7) refl this]
  obtain r where l: "own_loop zc le sha fuel ctx zp [?cv] (own_pclusters fplan) ?w0 = Some r"
      "\<And>w'. r = Inr (Inr w') \<Longrightarrow> own_ok zc le sha ctx zp ?mem content ?img w'"
    using assms(5,6) c(2) by (auto simp: cover_true_def)
  consider (e) e where "r = Inl e" | (r) st where "r = Inr (Inl st)" | (w) w where "r = Inr (Inr w)"
    by (metis sum.exhaust)
  then show ?thesis
  proof cases
    case (w w)
    have ok: "own_ok zc le sha ctx zp ?mem content ?img w" by (rule l(2) [OF w])
    then obtain win rd where f: "fill (zread zc (ix_fs ctx) zp) fuel (ow_reader w) (ow_hashed w) (ow_window w) (ow_at w) U64_MAX
          = (Some (Inr (take (zr_pos (fst rd)) content, win)), rd)"
        "zr_pos (fst rd) \<le> length content" "U64_MAX \<le> zr_pos (fst rd) \<or> zr_pos (fst rd) = length content"
    proof -
      have o: "reader_ok zc (ix_fs ctx) zp (ow_reader w)" "ow_hashed w = take (zr_pos (fst (ow_reader w))) content"
          "ow_window w = window content (ow_at w) (length (ow_window w))"
          "ow_at w + length (ow_window w) = zr_pos (fst (ow_reader w))" "zr_pos (fst (ow_reader w)) \<le> length content"
        using ok by (simp_all add: own_ok_def Let_def)
      show thesis
        by (rule zfill_window [OF o(1,3-5) c(1), of fuel U64_MAX]) (use that o(2) c(2) assms(6) in auto)
    qed
    have "take (zr_pos (fst rd)) content = content" using f(2,3) c(2) assms(4) by (auto simp: U64_MAX_def)
    then show ?thesis using l(1) w f(1) ok assms(1)
      by (auto simp: plan_own_file_def Let_def pf_refused_def own_ok_def)
  qed (use l(1) assms(1) in \<open>simp_all add: plan_own_file_def Let_def pf_refused_def\<close>)
qed

theorem own_file_sound_witness:
  "\<exists>r. plan_own_file \<lparr>zc_lz4 = (\<lambda>_ _. None), zc_lzma = (\<lambda>_ _ _ _. None), zc_inflate = (\<lambda>_ _. None), zc_zstd = (\<lambda>_ _. None)\<rparr>
      \<lparr>le_preset_ok = (\<lambda>_. False), le_encode = (\<lambda>_ _ _ _. None)\<rparr> (\<lambda>b. b) 6
      \<lparr>ix_fs = mem_erofs 9 [7, 8, 9], ix_dict_size = 4096\<rparr> packed_new None
      (Streamed \<lparr>zp_size = 5, zp_exts = [\<lparr>ze_la = 0, ze_llen = 2, ze_src = ZZero\<rparr>, \<lparr>ze_la = 2, ze_llen = 3, ze_src = ZRaw 0 3 Shifted False\<rparr>]\<rparr>)
      4 5 [0, 0, 7, 8, 9] = Some r"
proof -
  let ?zc = "\<lparr>zc_lz4 = (\<lambda>_ _. None), zc_lzma = (\<lambda>_ _ _ _. None), zc_inflate = (\<lambda>_ _. None), zc_zstd = (\<lambda>_ _. None)\<rparr>"
  let ?er = "mem_erofs 9 [7, 8, 9]"
  let ?p = "\<lparr>zp_size = 5, zp_exts = [\<lparr>ze_la = 0, ze_llen = 2, ze_src = ZZero\<rparr>, \<lparr>ze_la = 2, ze_llen = 3, ze_src = ZRaw 0 3 Shifted False\<rparr>]\<rparr>"
  have "decode_raw ?zc ?er 0 3 3 Shifted False = Inr [7, 8, 9]"
    by (simp add: decode_raw_def read_exact_at_def Let_def window_def PCLUSTER_MAX_SIZE_def PCLUSTER_MAX_DSIZE_def)
  then have c: "file_content ?zc ?er ?p = Some [0, 0, 7, 8, 9]"
    by (simp add: file_content_def ext_content_def raw_content_def numeral_2_eq_2)
  then have "readable ?zc ?er ?p" by (auto simp: readable_def)
  moreover have "view_wf (er_view ?er)" unfolding mem_erofs_def by (simp, rule view_new_wf) auto
  ultimately show ?thesis
    using own_file_sound [of "Streamed ?p" ?p ?zc "\<lparr>ix_fs = ?er, ix_dict_size = 4096\<rparr>" packed_new 5 6] packed_new_ok c
    by (fastforce simp: plan_zplan_def)
qed

text \<open>
  The file pass does not add a file's rotated and thinly covered pclusters to the image's tally:
  whatever the planned files report, the two counts stay what they were. So a pcluster of a file that
  is spliced tail-first is in the recipe and missing from the summary, which reads 0 of 1 rebuilt.
\<close>

theorem file_rotations_untallied:
  "(let st' = fst (snd (snd (own_collect fs (segs, nodes, st, proved)))) in
      ps_rotated st' = ps_rotated st \<and> ps_thin st' = ps_thin st) \<and>
   pcluster_note (fst (snd (snd (own_collect
     [\<lparr>pf_idx = 3, pf_nodes = [], pf_segs = [STabled 3 4000 96 0 0, STabled 3 0 4000 0 96],
       pf_stats = pc_stats_default\<lparr>ps_rotated := 1\<rparr>, pf_proved = True\<rparr>]
     ([], [], pc_stats_default\<lparr>ps_total := 1\<rparr>, {}))))) = CHR 0x0A # ''erofs: 0/1 pcluster rebuilt byte-exact''"
proof -
  have "let st' = fst (snd (snd (own_collect fs (segs, nodes, st, proved)))) in
      ps_rotated st' = ps_rotated st \<and> ps_thin st' = ps_thin st"
  proof (induction fs arbitrary: segs nodes st proved)
    case (Cons f fs)
    show ?case using Cons.IH [of _ _ "file_tally st f"] by (simp add: Let_def file_tally_def)
  qed (simp add: Let_def)
  then show ?thesis
    by (simp add: file_tally_def pc_stats_default_def pcluster_note_def note_reasons_def plural_def show_nat.simps digit_char_def)
qed

end
