(* ===== verification/Hdx_Plan.thy ===== *)
theory Hdx_Plan
  imports Hdx_Pcluster Hdx_Walk
begin

text \<open>
  \<open>src/src/recipe_cmd.rs\<close>, the plan of a recipe: members and evidence, the maps of planned nodes, the
  splice build of a container and the segments merged into it afterwards. A planner step that recurses takes
  the planner of a child as an argument; a panic is \<open>None\<close>. A hash map is an association list, a
  space is a map from source identities to views.
\<close>

definition IDENTITY_MIN_BYTES :: nat where "IDENTITY_MIN_BYTES = 32"

record member =
  mb_path :: ustring
  mb_kind :: string
  mb_size :: nat
  mb_sha256 :: "byte list option"
  mb_extents :: "(nat \<times> run list) option"
  mb_space :: "(nat \<times> view) option"

record build =
  bd_segs :: "seg list"
  bd_dropped :: nat
  bd_space :: nat
  bd_runs :: "run list"

datatype comp = CGzip gnu_gzip "byte list" | CZstd zstd

record compress =
  cp_child :: nat
  cp_how :: comp

record extraction =
  ex_archive :: archive
  ex_attestor :: string
  ex_statement :: string

record rplan =
  pl_builds :: "(nat \<times> build) list"
  pl_compress :: "(nat \<times> compress) list"
  pl_extracts :: "(nat \<times> extraction) list"
  pl_pclusters :: "pcnode list"
  pl_tabled :: "nat set"
  pl_literals :: "byte list option"
  pl_root :: nat

definition comp_name :: "comp \<Rightarrow> string" where
  "comp_name c = (case c of CGzip params header \<Rightarrow> gnu_name params | CZstd params \<Rightarrow> zstd_name params)"

subsection \<open>Evidence\<close>

definition direct_claimed :: "finding list \<Rightarrow> bool" where
  "direct_claimed ev = list_ex (\<lambda>f. fd_archive f = None \<and> list_ex (\<lambda>c. cl_url c \<noteq> None) (fd_claims f)) ev"

definition sha256_archive :: "finding \<Rightarrow> bool" where
  "sha256_archive f = (case fd_archive f of Some a \<Rightarrow> ar_scheme a = ''sha256'' \<and> ar_url a \<noteq> None | None \<Rightarrow> False)"

definition extractable :: "finding list \<Rightarrow> bool" where
  "extractable ev = list_ex sha256_archive ev"

definition ucode_witnessed :: "finding list \<Rightarrow> bool" where
  "ucode_witnessed ev = list_ex (\<lambda>f. case fd_archive f of
       None \<Rightarrow> list_ex (\<lambda>c. cl_url c \<noteq> None) (fd_claims f)
     | Some a \<Rightarrow> ar_scheme a = ''sha256'' \<and> ar_url a \<noteq> None) ev"

text \<open>Whether anything under a member can be fetched: the stack has its top at the head, \<open>None\<close> is
  running out of fuel.\<close>

fun fetchable_loop :: "finding list list \<Rightarrow> nat list list \<Rightarrow> nat \<Rightarrow> nat \<Rightarrow> nat list \<Rightarrow> bool option" where
  "fetchable_loop evs kids i 0 stack = None"
| "fetchable_loop evs kids i (Suc fuel) [] = Some False"
| "fetchable_loop evs kids i (Suc fuel) (k # stack) =
     (if k \<noteq> i \<and> (direct_claimed (evs ! k) \<or> extractable (evs ! k)) then Some True
      else fetchable_loop evs kids i fuel (rev (kids ! k) @ stack))"

definition subtree_is_fetchable :: "finding list list \<Rightarrow> nat list list \<Rightarrow> nat \<Rightarrow> nat \<Rightarrow> bool option" where
  "subtree_is_fetchable evs kids fuel i = fetchable_loop evs kids i fuel [i]"

definition plan_extract :: "member list \<Rightarrow> finding list list \<Rightarrow> nat \<Rightarrow> rplan \<Rightarrow> bool \<times> rplan" where
  "plan_extract ms evs i plan =
     (if mb_sha256 (ms ! i) = None \<or> mb_size (ms ! i) < IDENTITY_MIN_BYTES then (False, plan)
      else case List.find sha256_archive (evs ! i) of
        None \<Rightarrow> (False, plan)
      | Some f \<Rightarrow>
          (True, plan\<lparr>pl_extracts := hm_insert i
             \<lparr>ex_archive = the (fd_archive f), ex_attestor = fd_backend f,
              ex_statement = (case fd_claims f of c # _ \<Rightarrow> cl_statement c | [] \<Rightarrow> '''')\<rparr> (pl_extracts plan)\<rparr>))"

subsection \<open>Dropping a subtree\<close>

text \<open>The recursion as its stack of pending work: a member, or the build of a member whose
  compression chain has been dropped already.\<close>

datatype drop_task = DropMember nat | DropBuild nat

definition seg_children :: "seg list \<Rightarrow> nat list" where
  "seg_children segs = concat (map (\<lambda>s. case s of SChild idx _ _ _ _ \<Rightarrow> [idx] | _ \<Rightarrow> []) segs)"

definition plan_entries :: "rplan \<Rightarrow> nat" where
  "plan_entries plan = length (pl_builds plan) + length (pl_compress plan)"

lemma hm_remove_shorter: "map_of m k = Some v \<Longrightarrow> length (hm_remove k m) < length m"
proof -
  have le: "length (hm_remove k m) \<le> length m" for m by (simp add: hm_remove_def)
  show "map_of m k = Some v \<Longrightarrow> length (hm_remove k m) < length m"
  proof (induction m)
    case (Cons e m)
    then show ?case using le [of m] by (cases e) (auto simp: less_Suc_eq_le split: if_splits)
  qed simp
qed

function remove_tasks :: "drop_task list \<Rightarrow> rplan \<Rightarrow> rplan" where
  "remove_tasks [] plan = plan"
| "remove_tasks (DropMember i # ts) plan =
     (let plan = plan\<lparr>pl_extracts := hm_remove i (pl_extracts plan)\<rparr> in
      case map_of (pl_compress plan) i of
        Some c \<Rightarrow> remove_tasks (DropMember (cp_child c) # DropBuild i # ts) (plan\<lparr>pl_compress := hm_remove i (pl_compress plan)\<rparr>)
      | None \<Rightarrow> remove_tasks (DropBuild i # ts) plan)"
| "remove_tasks (DropBuild i # ts) plan =
     (case map_of (pl_builds plan) i of
        Some b \<Rightarrow> remove_tasks (map DropMember (seg_children (bd_segs b)) @ ts) (plan\<lparr>pl_builds := hm_remove i (pl_builds plan)\<rparr>)
      | None \<Rightarrow> remove_tasks ts plan)"
  by pat_completeness auto
termination
  by (relation "measures [\<lambda>(ts, plan). plan_entries plan,
        \<lambda>(ts, plan). sum_list (map (\<lambda>t. case t of DropMember _ \<Rightarrow> 2 | DropBuild _ \<Rightarrow> 1) ts)]")
     (auto simp: plan_entries_def hm_remove_shorter)

definition remove_plan_subtree :: "nat \<Rightarrow> rplan \<Rightarrow> rplan" where
  "remove_plan_subtree i plan = remove_tasks [DropMember i] plan"

subsection \<open>References\<close>

definition seg_refers :: "nat \<Rightarrow> seg \<Rightarrow> bool" where
  "seg_refers i s = (case s of SChild idx _ _ _ _ \<Rightarrow> idx = i | STabled idx _ _ _ _ \<Rightarrow> idx = i | _ \<Rightarrow> False)"

definition input_refers :: "nat \<Rightarrow> pc_input \<Rightarrow> bool" where
  "input_refers i inp = (case inp of PcMember idx _ _ \<Rightarrow> idx = i | _ \<Rightarrow> False)"

definition referenced_by_plan :: "rplan \<Rightarrow> nat \<Rightarrow> bool" where
  "referenced_by_plan plan i \<longleftrightarrow>
     list_ex (\<lambda>(k, b). list_ex (seg_refers i) (bd_segs b)) (pl_builds plan) \<or>
     list_ex (\<lambda>(k, c). cp_child c = i) (pl_compress plan) \<or>
     list_ex (\<lambda>n. list_ex (input_refers i) (pn_inputs n)) (pl_pclusters plan)"

definition drop_unused_sources :: "rplan \<Rightarrow> nat set \<Rightarrow> nat list \<Rightarrow> rplan" where
  "drop_unused_sources plan keep planned =
     foldl (\<lambda>plan c. remove_plan_subtree c plan) plan
       (filter (\<lambda>c. c \<notin> keep \<and> c \<notin> pl_tabled plan \<and> \<not> referenced_by_plan plan c) planned)"

definition input_member :: "pc_input \<Rightarrow> nat list" where
  "input_member inp = (case inp of PcMember idx _ _ \<Rightarrow> [idx] | _ \<Rightarrow> [])"

definition tabled_of :: "seg list \<Rightarrow> pcnode list \<Rightarrow> nat set" where
  "tabled_of segs pclusters = set (concat (map (\<lambda>s. case s of
       STabled idx _ _ _ _ \<Rightarrow> [idx]
     | SPcluster pc _ _ _ \<Rightarrow> concat (map input_member (pn_inputs (pclusters ! pc)))
     | _ \<Rightarrow> []) segs))"

definition referenced_tabled :: "rplan \<Rightarrow> nat set" where
  "referenced_tabled plan = \<Union> (set (map (\<lambda>(k, b). tabled_of (bd_segs b) (pl_pclusters plan)) (pl_builds plan)))"

definition seg_child_is :: "nat \<Rightarrow> seg \<Rightarrow> bool" where
  "seg_child_is i s = (case s of SChild idx _ _ _ _ \<Rightarrow> idx = i | _ \<Rightarrow> False)"

definition referenced_as_leaf :: "rplan \<Rightarrow> nat \<Rightarrow> bool" where
  "referenced_as_leaf plan i \<longleftrightarrow> map_of (pl_builds plan) i = None \<and> map_of (pl_compress plan) i = None \<and>
     (list_ex (\<lambda>(k, b). list_ex (seg_child_is i) (bd_segs b)) (pl_builds plan) \<or>
      list_ex (\<lambda>(k, c). cp_child c = i) (pl_compress plan))"

subsection \<open>The splice build of a container\<close>

definition rangeable :: "member list \<Rightarrow> nat \<Rightarrow> nat \<Rightarrow> run list option" where
  "rangeable ms space i =
     (let m = ms ! i in
      if mb_size m < IDENTITY_MIN_BYTES \<or> mb_sha256 m = None then None
      else case mb_extents m of Some (src, runs) \<Rightarrow> if src = space then Some runs else None | None \<Rightarrow> None)"

text \<open>A child's runs in the build's own logical space; \<open>None\<close> when one lies in no run of the build.\<close>

fun child_pieces :: "nat \<Rightarrow> run list \<Rightarrow> run list \<Rightarrow> seg list option" where
  "child_pieces c runs [] = Some []"
| "child_pieces c runs ((clog, coff, clen) # cruns) =
     (case List.find (\<lambda>(_, off, len). off \<le> coff \<and> coff + clen \<le> off + len) runs of
        None \<Rightarrow> None
      | Some (rlog, roff, _) \<Rightarrow>
          (case child_pieces c runs cruns of
             None \<Rightarrow> None
           | Some ps \<Rightarrow> Some (SChild c clog clen (rlog + (coff - roff)) coff # ps)))"

type_synonym node_planner = "nat \<Rightarrow> rplan \<Rightarrow> (bool \<times> rplan) option"

text \<open>The short-circuiting test whether a child is worth its place, and the plan after it.\<close>

definition child_planned :: "member list \<Rightarrow> finding list list \<Rightarrow> node_planner \<Rightarrow> nat \<Rightarrow> rplan \<Rightarrow> (bool \<times> rplan) option" where
  "child_planned ms evs node c plan =
     (if direct_claimed (evs ! c) then Some (True, plan)
      else case node c plan of
        None \<Rightarrow> None
      | Some (True, plan) \<Rightarrow> Some (True, plan)
      | Some (False, plan) \<Rightarrow> Some (plan_extract ms evs c plan))"

fun build_children ::
  "member list \<Rightarrow> finding list list \<Rightarrow> node_planner \<Rightarrow> nat \<Rightarrow> run list \<Rightarrow> nat list \<Rightarrow>
   seg list \<times> nat btree \<times> nat \<times> rplan \<Rightarrow> (seg list \<times> nat btree \<times> nat \<times> rplan) option" where
  "build_children ms evs node space runs [] st = Some st"
| "build_children ms evs node space runs (c # cs) (segs, taken, dropped, plan) =
     (case rangeable ms space c of
        None \<Rightarrow> build_children ms evs node space runs cs (segs, taken, dropped, plan)
      | Some cruns \<Rightarrow>
          (case child_planned ms evs node c plan of
             None \<Rightarrow> None
           | Some (False, plan) \<Rightarrow> build_children ms evs node space runs cs (segs, taken, dropped, plan)
           | Some (True, plan) \<Rightarrow>
               (case child_pieces c runs cruns of
                  None \<Rightarrow> build_children ms evs node space runs cs (segs, taken, dropped + 1, remove_plan_subtree c plan)
                | Some pieces \<Rightarrow>
                    if list_all (\<lambda>p. iv_admits taken (seg_at p) (seg_len p)) pieces
                    then build_children ms evs node space runs cs
                           (segs @ pieces, foldl (\<lambda>t p. iv_insert (seg_at p) (seg_len p) t) taken pieces, dropped, plan)
                    else build_children ms evs node space runs cs (segs, taken, dropped + 1, remove_plan_subtree c plan))))"

definition own_space :: "member \<Rightarrow> (nat \<times> run list) option" where
  "own_space m = (case mb_space m of Some (sid, v) \<Rightarrow> Some (sid, [(0, 0, mb_size m)]) | None \<Rightarrow> mb_extents m)"

definition plan_build_inner ::
  "member list \<Rightarrow> nat list list \<Rightarrow> finding list list \<Rightarrow> node_planner \<Rightarrow> nat \<Rightarrow> rplan \<Rightarrow> bool \<Rightarrow> (bool \<times> rplan) option" where
  "plan_build_inner ms kids evs node i plan keep_empty =
     (let m = ms ! i in
      if mb_size m < IDENTITY_MIN_BYTES \<or> mb_sha256 m = None then Some (False, plan)
      else case own_space m of
        None \<Rightarrow> Some (False, plan)
      | Some (space, runs) \<Rightarrow>
          (case build_children ms evs node space runs (kids ! i) ([], [], 0, plan) of
             None \<Rightarrow> None
           | Some (segs, taken, dropped, plan) \<Rightarrow>
               if segs = [] \<and> i \<noteq> pl_root plan \<and> \<not> keep_empty then Some (False, plan)
               else case tile_gaps (sort_key seg_at segs) (mb_size m) of
                 None \<Rightarrow> None
               | Some ts \<Rightarrow>
                   Some (True, plan\<lparr>pl_builds := hm_insert i
                     \<lparr>bd_segs = ts, bd_dropped = dropped, bd_space = space, bd_runs = runs\<rparr> (pl_builds plan)\<rparr>)))"

subsection \<open>Segments merged into a build\<close>

text \<open>\<open>splice_in\<close> takes its segments in the image's own coordinates, in \<open>root_off\<close>.\<close>

fun merge_extra :: "run list \<Rightarrow> seg list \<Rightarrow> seg list \<times> nat btree \<Rightarrow> seg list \<times> nat btree" where
  "merge_extra runs [] st = st"
| "merge_extra runs (s # extra) (segs, taken) =
     (case s of
        SChild _ _ _ _ _ \<Rightarrow> merge_extra runs extra (segs, taken)
      | SGap _ _ _ _ \<Rightarrow> merge_extra runs extra (segs, taken)
      | _ \<Rightarrow>
          (let image_at = seg_root s; len = seg_len s in
           case List.find (\<lambda>(log, off, l). log \<le> image_at \<and> image_at + len \<le> log + l) runs of
             None \<Rightarrow> merge_extra runs extra (segs, taken)
           | Some (rlog, roff, _) \<Rightarrow>
               let root_off = roff + (image_at - rlog);
                   s' = (case s of
                           STabled idx f n _ _ \<Rightarrow> STabled idx f n image_at root_off
                         | SPcluster pc _ n _ \<Rightarrow> SPcluster pc image_at n root_off
                         | _ \<Rightarrow> s) in
               if \<not> iv_admits taken image_at len then merge_extra runs extra (segs, taken)
               else merge_extra runs extra (segs @ [s'], iv_insert image_at len taken)))"

text \<open>The outer \<open>None\<close> is a panic, the inner one the error that the image has no build.\<close>

definition splice_in :: "nat \<Rightarrow> rplan \<Rightarrow> seg list \<Rightarrow> rplan option option" where
  "splice_in i plan extra =
     (case map_of (pl_builds plan) i of
        None \<Rightarrow> Some None
      | Some bd \<Rightarrow>
          (let bsize = sum_list (map (\<lambda>(_, _, l). l) (bd_runs bd));
               segs = filter (\<lambda>s. \<not> is_gap s) (bd_segs bd);
               taken = foldl (\<lambda>t s. iv_insert (seg_at s) (seg_len s) t) [] segs;
               (segs, taken) = merge_extra (bd_runs bd) extra (segs, taken) in
           case tile_gaps (sort_key seg_at segs) bsize of
             None \<Rightarrow> None
           | Some ts \<Rightarrow> Some (Some (plan\<lparr>pl_builds := hm_insert i (bd\<lparr>bd_segs := ts\<rparr>) (pl_builds plan)\<rparr>))))"

text \<open>What \<open>plan_erofs\<close> does with the segments both passes found.\<close>

definition plan_erofs_finish :: "nat \<Rightarrow> rplan \<Rightarrow> seg list \<Rightarrow> nat list \<Rightarrow> rplan option option" where
  "plan_erofs_finish i plan segs planned =
     (let plan = drop_unused_sources plan (tabled_of segs (pl_pclusters plan)) planned in
      if segs = [] then Some (Some plan)
      else splice_in i (plan\<lparr>pl_tabled := pl_tabled plan \<union> tabled_of segs (pl_pclusters plan)\<rparr>) segs)"

section \<open>Properties\<close>

subsection \<open>The search for fetchable members\<close>

text \<open>The children of a member come after it, so the search under a member ends.\<close>

lemma fetchable_loop_ends:
  assumes "\<forall>k < n. \<forall>j \<in> set (kids ! k). k < j \<and> j < n" "set stack \<subseteq> {..<n}"
  shows "\<exists>fuel b. fetchable_loop evs kids i fuel stack = Some b"
proof -
  have "fetchable_loop evs kids i (Suc 0) [] = Some False" by simp
  then have nil: "\<exists>fuel b. fetchable_loop evs kids i fuel [] = Some b" by blast
  have push: "\<exists>fuel b. fetchable_loop evs kids i fuel (k # rest) = Some b"
    if "k < n" "\<exists>fuel b. fetchable_loop evs kids i fuel rest = Some b" for k rest
    using that
  proof (induction "n - k" arbitrary: k rest rule: less_induct)
    case less
    have "\<exists>fuel b. fetchable_loop evs kids i fuel (xs @ rest) = Some b" if "set xs \<subseteq> set (kids ! k)" for xs
      using that
    proof (induction xs)
      case (Cons x xs)
      then have "x \<in> set (kids ! k)" by simp
      then have "k < x \<and> x < n" using assms(1) less.prems(1) by blast
      then have "n - x < n - k" "x < n" by linarith+
      moreover have "\<exists>fuel b. fetchable_loop evs kids i fuel (xs @ rest) = Some b" using Cons by simp
      ultimately have "\<exists>fuel b. fetchable_loop evs kids i fuel (x # xs @ rest) = Some b" by (rule less.hyps)
      then show ?case by (simp only: append_Cons)
    qed (simp add: less.prems(2))
    from this [of "rev (kids ! k)"] obtain fuel b where
      "fetchable_loop evs kids i fuel (rev (kids ! k) @ rest) = Some b" by auto
    then have "fetchable_loop evs kids i (Suc fuel) (k # rest) =
        Some (if k \<noteq> i \<and> (direct_claimed (evs ! k) \<or> extractable (evs ! k)) then True else b)" by simp
    then show ?case by blast
  qed
  show ?thesis using assms(2) by (induction stack) (use nil push in auto)
qed

subsection \<open>Runs and pieces\<close>

lemma tiled_apart:
  "tiled n b runs \<Longrightarrow> (l, f, k) \<in> set runs \<Longrightarrow> b \<le> l \<and> 0 < k \<and> f + k \<le> n \<and> l + k \<le> b + ext_total runs"
proof (induction runs arbitrary: b)
  case (Cons e runs)
  obtain l' f' k' where e: "e = (l', f', k')" by (cases e) auto
  then show ?case using Cons.IH [of "b + k'"] Cons.prems by force
qed simp

lemma tiled_two:
  "tiled n b runs \<Longrightarrow> (l, f, k) \<in> set runs \<Longrightarrow> (l', f', k') \<in> set runs \<Longrightarrow>
     (l, f, k) = (l', f', k') \<or> l + k \<le> l' \<or> l' + k' \<le> l"
proof (induction runs arbitrary: b)
  case (Cons e runs)
  obtain l0 f0 k0 where e: "e = (l0, f0, k0)" by (cases e) auto
  have t: "tiled n (b + k0) runs" "l0 = b" using Cons.prems(1) by (simp_all add: e)
  consider "(l, f, k) = e" "(l', f', k') = e" | "(l, f, k) = e" "(l', f', k') \<in> set runs"
    | "(l, f, k) \<in> set runs" "(l', f', k') = e" | "(l, f, k) \<in> set runs" "(l', f', k') \<in> set runs"
    using Cons.prems(2,3) by auto
  then show ?case
    by cases (use tiled_apart [OF t(1)] t e Cons.IH [OF t(1)] in force)+
qed simp

lemma run_window:
  assumes "tiled (length S) b runs" "(rlog, roff, rlen) \<in> set runs" "roff \<le> off" "off + k \<le> roff + rlen"
  shows "window (ext_bytes S runs) (rlog + (off - roff) - b) k = window S off k"
  using assms(1,2)
proof (induction runs arbitrary: b)
  case (Cons e runs)
  obtain l f n where e: "e = (l, f, n)" by (cases e) auto
  have t: "tiled (length S) (b + n) runs" "l = b" "f + n \<le> length S" using Cons.prems(1) by (simp_all add: e)
  have len: "length (window S f n) = n" using t(3) by (simp add: length_window)
  show ?case
  proof (cases "(rlog, roff, rlen) = e")
    case True
    then have r: "rlog = b" "roff = f" "rlen = n" using e t(2) by simp_all
    have "window (window S f n @ ext_bytes S runs) (off - f) k = window (window S f n) (off - f) k"
      using assms(3,4) r len by (intro window_append_left) simp
    then show ?thesis using assms(3,4) r e by (simp add: window_window min_absorb1)
  next
    case False
    then have m: "(rlog, roff, rlen) \<in> set runs" using Cons.prems(2) e by auto
    then have "b + n \<le> rlog" using tiled_apart [OF t(1) m] by simp
    then show ?thesis using Cons.IH [OF t(1) m] len e
      by (simp add: window_append_right)
  qed
qed simp

definition runs_disjoint :: "run list \<Rightarrow> bool" where
  "runs_disjoint runs \<longleftrightarrow> sorted_wrt (\<lambda>(_, a, n) (_, b, m). a + n \<le> b \<or> b + m \<le> a) runs \<and> (\<forall>(_, _, n) \<in> set runs. 0 < n)"

text \<open>A piece of a child: where its bytes are in the source, and in the build.\<close>

definition piece_of :: "nat \<Rightarrow> run list \<Rightarrow> run \<Rightarrow> seg \<Rightarrow> bool" where
  "piece_of c runs = (\<lambda>(clog, coff, clen) p. \<exists>rlog roff rlen. (rlog, roff, rlen) \<in> set runs \<and> roff \<le> coff \<and>
     coff + clen \<le> roff + rlen \<and> p = SChild c clog clen (rlog + (coff - roff)) coff)"

lemma list_all2_from_right: "list_all2 P xs ys \<Longrightarrow> y \<in> set ys \<Longrightarrow> \<exists>x \<in> set xs. P x y"
  by (induction rule: list_all2_induct) auto

lemma child_pieces_pieces: "child_pieces c runs cruns = Some ps \<Longrightarrow> list_all2 (piece_of c runs) cruns ps"
proof (induction c runs cruns arbitrary: ps rule: child_pieces.induct)
  case (2 c runs clog coff clen cruns)
  then obtain rlog roff rlen qs where f: "List.find (\<lambda>(_, off, len). off \<le> coff \<and> coff + clen \<le> off + len) runs = Some (rlog, roff, rlen)"
      and q: "child_pieces c runs cruns = Some qs" "ps = SChild c clog clen (rlog + (coff - roff)) coff # qs"
    by (auto split: option.splits)
  have "(rlog, roff, rlen) \<in> set runs \<and> roff \<le> coff \<and> coff + clen \<le> roff + rlen"
    using f by (auto simp: find_Some_iff) (metis nth_mem)
  then have "piece_of c runs (clog, coff, clen) (SChild c clog clen (rlog + (coff - roff)) coff)"
    by (simp only: piece_of_def prod.case) blast
  then show ?case using 2(1) [OF f _ _ q(1)] q(2) by simp
qed simp

lemma piece_of_apart:
  assumes "tiled n 0 runs" "piece_of c runs (l, a, k) p" "piece_of c runs (l', b, m) q" "a + k \<le> b \<or> b + m \<le> a"
  shows "seg_apart p q"
proof -
  obtain r1 o1 n1 where p: "(r1, o1, n1) \<in> set runs" "o1 \<le> a" "a + k \<le> o1 + n1" "p = SChild c l k (r1 + (a - o1)) a"
    using assms(2) by (auto simp: piece_of_def)
  obtain r2 o2 n2 where q: "(r2, o2, n2) \<in> set runs" "o2 \<le> b" "b + m \<le> o2 + n2" "q = SChild c l' m (r2 + (b - o2)) b"
    using assms(3) by (auto simp: piece_of_def)
  from tiled_two [OF assms(1) p(1) q(1)] show ?thesis
    using assms(4) p(2-4) q(2-4) by (auto simp: seg_apart_def)
qed

lemma pieces_apart:
  assumes "tiled n 0 runs" "runs_disjoint cruns" "list_all2 (piece_of c runs) cruns ps"
  shows "sorted_wrt seg_apart ps"
  using assms(3,2)
proof (induction rule: list_all2_induct)
  case (Cons r rs p ps)
  obtain l a k where r: "r = (l, a, k)" by (cases r)
  have "seg_apart p q" if qs: "q \<in> set ps" for q
  proof -
    obtain l' b m where m: "(l', b, m) \<in> set rs" "piece_of c runs (l', b, m) q"
      using list_all2_from_right [OF Cons(2) qs] by (metis prod_cases3)
    then have "a + k \<le> b \<or> b + m \<le> a" using Cons.prems r by (fastforce simp: runs_disjoint_def)
    then show ?thesis using piece_of_apart [OF assms(1)] Cons(1) r m(2) by simp
  qed
  moreover have "runs_disjoint rs" using Cons.prems by (auto simp: runs_disjoint_def)
  ultimately show ?case using Cons by simp
qed simp

subsection \<open>The interval set of a build\<close>

text \<open>The intervals are those of the segments taken so far.\<close>

definition iv_rep :: "nat btree \<Rightarrow> seg list \<Rightarrow> bool" where
  "iv_rep taken segs \<longleftrightarrow> iv_ok taken \<and>
     (\<forall>s e. map_of taken s = Some e \<longleftrightarrow> (\<exists>p \<in> set segs. seg_at p = s \<and> e = s + seg_len p))"

lemma iv_rep_empty: "iv_rep [] []"
  by (simp add: iv_rep_def iv_ok_empty)

lemma iv_rep_admits:
  assumes "iv_rep taken segs" "0 < seg_len p"
  shows "iv_admits taken (seg_at p) (seg_len p) \<longleftrightarrow> (\<forall>q \<in> set segs. seg_apart q p)"
proof -
  have "iv_admits taken (seg_at p) (seg_len p) \<longleftrightarrow> iv_free taken (seg_at p) (seg_len p)"
    using assms by (simp add: iv_admits_iff iv_rep_def)
  also have "\<dots> \<longleftrightarrow> (\<forall>q \<in> set segs. seg_apart q p)"
  proof -
    have "map_of taken s = Some e \<longleftrightarrow> (\<exists>q \<in> set segs. seg_at q = s \<and> e = s + seg_len q)" for s e
      using assms(1) by (simp add: iv_rep_def)
    then show ?thesis unfolding iv_free_def seg_apart_def by simp blast
  qed
  finally show ?thesis .
qed

lemma iv_rep_insert:
  assumes "iv_rep taken segs" "0 < seg_len p" "\<forall>q \<in> set segs. 0 < seg_len q \<and> seg_apart q p"
  shows "iv_rep (iv_insert (seg_at p) (seg_len p) taken) (segs @ [p])"
proof -
  have free: "iv_free taken (seg_at p) (seg_len p)"
    using assms iv_rep_admits [OF assms(1,2)] iv_admits_iff [of taken "seg_len p" "seg_at p"] by (simp add: iv_rep_def)
  have ok: "iv_ok taken" using assms(1) by (simp add: iv_rep_def)
  note ins = iv_insert_ok [OF ok assms(2) free]
  have ne: "seg_at q \<noteq> seg_at p" if "q \<in> set segs" for q
    using assms(2,3) that by (force simp: seg_apart_def)
  have "map_of (iv_insert (seg_at p) (seg_len p) taken) s = Some e \<longleftrightarrow>
      (\<exists>q \<in> set (segs @ [p]). seg_at q = s \<and> e = s + seg_len q)" for s e
  proof (cases "s = seg_at p")
    case True
    then show ?thesis using ne by (auto simp: ins(2))
  next
    case False
    have "map_of taken s = Some e \<longleftrightarrow> (\<exists>q \<in> set segs. seg_at q = s \<and> e = s + seg_len q)"
      using assms(1) by (simp add: iv_rep_def)
    then show ?thesis using False by (auto simp: ins(2))
  qed
  then show ?thesis using ins(1) unfolding iv_rep_def by blast
qed

lemma iv_rep_insert_all:
  assumes "iv_rep taken segs" "sorted_wrt seg_apart (segs @ ps)" "\<forall>p \<in> set (segs @ ps). 0 < seg_len p"
  shows "iv_rep (foldl (\<lambda>t p. iv_insert (seg_at p) (seg_len p) t) taken ps) (segs @ ps)"
  using assms
proof (induction ps arbitrary: taken segs)
  case (Cons p ps)
  have "iv_rep (iv_insert (seg_at p) (seg_len p) taken) (segs @ [p])"
    by (rule iv_rep_insert [OF Cons.prems(1)]) (use Cons.prems(2,3) in \<open>auto simp: sorted_wrt_append\<close>)
  from Cons.IH [OF this] show ?case using Cons.prems(2,3) by simp
qed simp

subsection \<open>Building a container from its children\<close>

text \<open>A segment of the build that is a child's run, at the place of the build that holds its bytes.\<close>

definition child_seg :: "member list \<Rightarrow> nat \<Rightarrow> run list \<Rightarrow> nat list \<Rightarrow> seg \<Rightarrow> bool" where
  "child_seg ms space runs cs s \<longleftrightarrow> (\<exists>c \<in> set cs. \<exists>cruns r. rangeable ms space c = Some cruns \<and> r \<in> set cruns \<and> piece_of c runs r s)"

lemma piece_of_bounds:
  assumes "tiled n 0 runs" "piece_of c runs r p"
  shows "seg_at p + seg_len p \<le> ext_total runs" "seg_len p = snd (snd r)"
proof -
  obtain l a k where r: "r = (l, a, k)" by (cases r)
  obtain r1 o1 n1 where p: "(r1, o1, n1) \<in> set runs" "o1 \<le> a" "a + k \<le> o1 + n1" "p = SChild c l k (r1 + (a - o1)) a"
    using assms(2) by (auto simp: piece_of_def r)
  have "a - o1 + k \<le> n1" using p(2,3) by linarith
  then show "seg_at p + seg_len p \<le> ext_total runs" using tiled_apart [OF assms(1) p(1)] p(4) by simp
  show "seg_len p = snd (snd r)" using p(4) r by simp
qed

definition build_ok :: "member list \<Rightarrow> nat \<Rightarrow> run list \<Rightarrow> nat list \<Rightarrow> seg list \<Rightarrow> nat btree \<Rightarrow> bool" where
  "build_ok ms space runs cs segs taken \<longleftrightarrow> iv_rep taken segs \<and> sorted_wrt seg_apart segs \<and>
     (\<forall>p \<in> set segs. 0 < seg_len p \<and> seg_at p + seg_len p \<le> ext_total runs \<and> child_seg ms space runs cs p)"

lemma build_children_ok:
  assumes "tiled n 0 runs" "\<forall>c \<in> set cs. \<forall>cruns. rangeable ms space c = Some cruns \<longrightarrow> runs_disjoint cruns"
    and "\<And>c p. node c p \<noteq> None" "set cs \<subseteq> set all" "build_ok ms space runs all segs taken"
  shows "\<exists>segs' taken' dropped' plan'. build_children ms evs node space runs cs (segs, taken, dropped, plan) =
      Some (segs', taken', dropped', plan') \<and> build_ok ms space runs all segs' taken'"
  using assms(2,4,5)
proof (induction cs arbitrary: segs taken dropped plan)
  case (Cons c cs)
  note IH = Cons.IH [OF _ _ ] and dis = Cons.prems(1)
  have go: "\<exists>segs' taken' dropped' plan'. build_children ms evs node space runs cs (segs1, taken1, d1, p1) =
      Some (segs', taken', dropped', plan') \<and> build_ok ms space runs all segs' taken'"
    if "build_ok ms space runs all segs1 taken1" for segs1 taken1 d1 p1
    using Cons.IH that Cons.prems(1,2) by simp
  show ?case
  proof (cases "rangeable ms space c")
    case None
    then show ?thesis using go [OF Cons.prems(3)] by simp
  next
    case (Some cruns)
    obtain b p1 where cp: "child_planned ms evs node c plan = Some (b, p1)"
    proof -
      obtain b1 p1 where "node c plan = Some (b1, p1)" using assms(3) [of c plan] by (cases "node c plan") auto
      then have "child_planned ms evs node c plan \<noteq> None"
        by (cases b1) (auto simp: child_planned_def intro: exI [of _ True])
      then show thesis using that by (cases "child_planned ms evs node c plan") auto
    qed
    show ?thesis
    proof (cases "child_pieces c runs cruns")
      case None
      then show ?thesis using Some cp go [OF Cons.prems(3)] by (cases b) simp_all
    next
      case pieces: (Some ps)
      let ?adm = "list_all (\<lambda>p. iv_admits taken (seg_at p) (seg_len p)) ps"
      have lp: "list_all2 (piece_of c runs) cruns ps" by (rule child_pieces_pieces [OF pieces])
      have dj: "runs_disjoint cruns" using dis Some by simp
      have bounds: "0 < seg_len p \<and> seg_at p + seg_len p \<le> ext_total runs \<and> child_seg ms space runs all p" if p: "p \<in> set ps" for p
      proof -
        obtain r where r: "r \<in> set cruns" "piece_of c runs r p"
          using list_all2_from_right [OF lp p] by blast
        have "0 < snd (snd r)" using dj r(1) by (auto simp: runs_disjoint_def)
        moreover have "c \<in> set all" using Cons.prems(2) by simp
        then have "child_seg ms space runs all p" unfolding child_seg_def using r Some by blast
        ultimately show ?thesis using piece_of_bounds [OF assms(1) r(2)] by simp
      qed
      have "build_ok ms space runs all (segs @ ps) (foldl (\<lambda>t p. iv_insert (seg_at p) (seg_len p) t) taken ps)" if ?adm
      proof -
        have rep: "iv_rep taken segs" "sorted_wrt seg_apart segs" "\<forall>p \<in> set segs. 0 < seg_len p"
          using Cons.prems(3) by (auto simp: build_ok_def)
        have "\<forall>p \<in> set ps. \<forall>q \<in> set segs. seg_apart q p"
          using that bounds iv_rep_admits [OF rep(1)] by (auto simp: list_all_iff)
        then have "sorted_wrt seg_apart (segs @ ps)"
          using rep(2) pieces_apart [OF assms(1) dj lp] by (auto simp: sorted_wrt_append)
        then show ?thesis using iv_rep_insert_all [OF rep(1)] rep(3) bounds Cons.prems(3) by (auto simp: build_ok_def)
      qed
      then show ?thesis using Some cp pieces go Cons.prems(3) by (cases b; cases ?adm) simp_all
    qed
  qed
qed simp

text \<open>
  C29. Planning a container never fails its tiling assertion when no child repeats a source range: the
  build it records tiles the container exactly, and every segment that is not a literal gap is a run
  of a child, at the place of the container that holds the very bytes the run names in the source.
\<close>

theorem plan_build_tiles:
  assumes "own_space (ms ! i) = Some (space, runs)" "tiled (length S) 0 runs" "ext_total runs = mb_size (ms ! i)"
    and "\<forall>c \<in> set (kids ! i). \<forall>cruns. rangeable ms space c = Some cruns \<longrightarrow> runs_disjoint cruns"
    and "\<And>c p. node c p \<noteq> None"
  shows "\<exists>b plan'. plan_build_inner ms kids evs node i plan keep_empty = Some (b, plan') \<and>
    (b \<longrightarrow> (\<exists>bd. map_of (pl_builds plan') i = Some bd \<and> bd_space bd = space \<and> bd_runs bd = runs \<and>
       seg_tiles 0 (bd_segs bd) (mb_size (ms ! i)) \<and>
       (\<forall>s \<in> set (bd_segs bd). is_gap s \<or> (child_seg ms space runs (kids ! i) s \<and>
          window S (seg_root s) (seg_len s) = window (ext_bytes S runs) (seg_at s) (seg_len s)))))"
proof (cases "mb_size (ms ! i) < IDENTITY_MIN_BYTES \<or> mb_sha256 (ms ! i) = None")
  case True
  then have "plan_build_inner ms kids evs node i plan keep_empty = Some (False, plan)"
    by (simp only: plan_build_inner_def Let_def if_True)
  then show ?thesis by (intro exI [of _ False] exI [of _ plan]) simp
next
  case False
  have "build_ok ms space runs (kids ! i) [] []" by (simp add: build_ok_def iv_rep_empty)
  from build_children_ok [where node = node and evs = evs and dropped = 0 and plan = plan, OF assms(2,4,5) order.refl this]
  obtain segs taken dropped p' where c: "build_children ms evs node space runs (kids ! i) ([], [], 0, plan) = Some (segs, taken, dropped, p')"
      and ok: "build_ok ms space runs (kids ! i) segs taken" by blast
  have "sorted_wrt seg_apart segs" "\<forall>s \<in> set segs. 0 < seg_len s \<and> seg_at s + seg_len s \<le> mb_size (ms ! i)"
    using ok assms(3) by (auto simp: build_ok_def)
  from tile_sorted [OF this] obtain ts where t: "tile_gaps (sort_key seg_at segs) (mb_size (ms ! i)) = Some ts"
      "seg_tiles 0 ts (mb_size (ms ! i))" "\<forall>s \<in> set ts - set segs. is_gap s" by blast
  have piece: "child_seg ms space runs (kids ! i) s \<and> window S (seg_root s) (seg_len s) = window (ext_bytes S runs) (seg_at s) (seg_len s)"
    if "s \<in> set segs" for s
  proof -
    have cs: "child_seg ms space runs (kids ! i) s" using ok that by (simp add: build_ok_def)
    then obtain c l a k rlog roff rlen where "(rlog, roff, rlen) \<in> set runs" "roff \<le> a" "a + k \<le> roff + rlen"
        "s = SChild c l k (rlog + (a - roff)) a"
      unfolding child_seg_def piece_of_def by auto
    then show ?thesis using cs run_window [OF assms(2), of rlog roff rlen a k] by simp
  qed
  show ?thesis
  proof (cases "segs = [] \<and> i \<noteq> pl_root p' \<and> \<not> keep_empty")
    case True
    then have "plan_build_inner ms kids evs node i plan keep_empty = Some (False, p')"
      using False assms(1) c by (auto simp: plan_build_inner_def Let_def)
    then show ?thesis by (intro exI [of _ False] exI [of _ p']) simp
  next
    case nd: False
    let ?bd = "\<lparr>bd_segs = ts, bd_dropped = dropped, bd_space = space, bd_runs = runs\<rparr>"
    have "plan_build_inner ms kids evs node i plan keep_empty = Some (True, p'\<lparr>pl_builds := hm_insert i ?bd (pl_builds p')\<rparr>)"
      using False nd assms(1) c t(1) by (simp add: plan_build_inner_def Let_def)
    then show ?thesis using t(2,3) piece by auto
  qed
qed

subsection \<open>Children that repeat a range\<close>

lemma tile_from_in_order:
  "tile_from pos segs n = Some ts \<Longrightarrow>
     sorted_wrt (\<lambda>p q. seg_at p + seg_len p \<le> seg_at q) segs \<and> (\<forall>s \<in> set segs. pos \<le> seg_at s)"
proof (induction segs arbitrary: pos ts)
  case (Cons s segs)
  obtain rest where "tile_from (seg_at s + seg_len s) segs n = Some rest" "pos \<le> seg_at s"
    using Cons.prems by (auto split: if_splits option.splits)
  then show ?case using Cons.IH by fastforce
qed simp

lemma sorted_wrt_two: "sorted_wrt P xs \<Longrightarrow> x \<in> set xs \<Longrightarrow> y \<in> set xs \<Longrightarrow> x \<noteq> y \<Longrightarrow> P x y \<or> P y x"
  by (induction xs) auto

lemma tile_gaps_overlap:
  assumes "p \<in> set segs" "q \<in> set segs" "p \<noteq> q" "seg_at p < seg_at q + seg_len q" "seg_at q < seg_at p + seg_len p"
  shows "tile_gaps (sort_key seg_at segs) n = None"
proof (rule ccontr)
  assume "tile_gaps (sort_key seg_at segs) n \<noteq> None"
  then obtain ts where "tile_from 0 (sort_key seg_at segs) n = Some ts" by (auto simp: tile_gaps_def)
  then have "sorted_wrt (\<lambda>p q. seg_at p + seg_len p \<le> seg_at q) (sort_key seg_at segs)" using tile_from_in_order by blast
  from sorted_wrt_two [OF this, of p q] show False using assms by auto
qed

lemma build_children_keeps:
  "build_children ms evs node space runs cs (segs, taken, dropped, plan) = Some (segs', taken', dropped', plan') \<Longrightarrow>
     set segs \<subseteq> set segs'"
proof (induction cs arbitrary: segs taken dropped plan)
  case (Cons c cs)
  have step: "set segs \<subseteq> set segs'"
    if "build_children ms evs node space runs cs (segs @ ps, t, d, p) = Some (segs', taken', dropped', plan')" for ps t d p
    using Cons.IH [OF that] by auto
  show ?case
    using Cons.prems step [of "[]"] step
    by (simp split: option.splits bool.splits prod.splits if_splits; fast)
qed simp

lemma child_pieces_member:
  "child_pieces c runs cruns = Some ps \<Longrightarrow> r \<in> set cruns \<Longrightarrow> \<exists>p \<in> set ps. piece_of c runs r p"
  using child_pieces_pieces list_all2_lengthD by (fastforce simp: list_all2_conv_all_nth in_set_conv_nth)

text \<open>
  C33. A child that repeats source bytes makes minting its container panic. When the first child of a
  container is directly claimed, lies in the container's runs (which name no source byte twice) and
  lists two runs of its own that overlap in the source (a chunk-deduplicated file, one chunk of which is
  named twice), its pieces are tested against the pieces of earlier children only and accepted; the
  tiling assertion then fails, whatever the other children are and whatever their planning does.
\<close>

theorem repeated_chunk_panics:
  assumes "IDENTITY_MIN_BYTES \<le> mb_size (ms ! i)" "mb_sha256 (ms ! i) \<noteq> None" "own_space (ms ! i) = Some (space, runs)"
    and "kids ! i = c # cs" "rangeable ms space c = Some cruns" "direct_claimed (evs ! c)"
    and "runs_disjoint runs" "child_pieces c runs cruns \<noteq> None"
    and "(l, a, k) \<in> set cruns" "(l', b, m) \<in> set cruns" "l \<noteq> l'" "a < b + m" "b < a + k"
  shows "plan_build_inner ms kids evs node i plan keep_empty = None"
proof -
  obtain ps where ps: "child_pieces c runs cruns = Some ps" using assms(8) by auto
  obtain p q where pq: "p \<in> set ps" "piece_of c runs (l, a, k) p" "q \<in> set ps" "piece_of c runs (l', b, m) q"
    using child_pieces_member [OF ps] assms(9,10) by blast
  obtain r1 o1 n1 where p: "(r1, o1, n1) \<in> set runs" "o1 \<le> a" "a + k \<le> o1 + n1" "p = SChild c l k (r1 + (a - o1)) a"
    using pq(2) by (auto simp: piece_of_def)
  obtain r2 o2 n2 where q: "(r2, o2, n2) \<in> set runs" "o2 \<le> b" "b + m \<le> o2 + n2" "q = SChild c l' m (r2 + (b - o2)) b"
    using pq(4) by (auto simp: piece_of_def)
  have same: "(r1, o1, n1) = (r2, o2, n2)"
  proof (rule ccontr)
    assume "(r1, o1, n1) \<noteq> (r2, o2, n2)"
    then have "o1 + n1 \<le> o2 \<or> o2 + n2 \<le> o1"
      using sorted_wrt_two [OF _ p(1) q(1), of "\<lambda>(_, a, n) (_, b, m). a + n \<le> b \<or> b + m \<le> a"] assms(7)
      by (auto simp: runs_disjoint_def)
    then show False using p(2,3) q(2,3) assms(12,13) by linarith
  qed
  have over: "p \<noteq> q" "seg_at p < seg_at q + seg_len q" "seg_at q < seg_at p + seg_len p"
    using p q same assms(11-13) by auto
  have "list_all (\<lambda>p. iv_admits [] (seg_at p) (seg_len p)) ps"
    by (simp add: list_all_iff iv_admits_def bt_any_in_def Let_def)
  then have first: "build_children ms evs node space runs (kids ! i) ([], [], 0, plan) =
      build_children ms evs node space runs cs
        (ps, foldl (\<lambda>t p. iv_insert (seg_at p) (seg_len p) t) [] ps, 0, plan)"
    using assms(4-6) ps by (simp add: child_planned_def)
  show ?thesis
  proof (cases "build_children ms evs node space runs (kids ! i) ([], [], 0, plan)")
    case None
    then show ?thesis using assms(1-3) by (simp add: plan_build_inner_def Let_def)
  next
    case (Some st)
    obtain segs taken dropped plan' where st: "st = (segs, taken, dropped, plan')" by (cases st)
    have "set ps \<subseteq> set segs"
      using trans [OF first [symmetric] Some] unfolding st by (rule build_children_keeps)
    then have m: "p \<in> set segs" "q \<in> set segs" using pq(1,3) by auto
    then have "tile_gaps (sort_key seg_at segs) (mb_size (ms ! i)) = None" by (rule tile_gaps_overlap [OF _ _ over])
    then show ?thesis using assms(1-3) Some st m(1) by (auto simp: plan_build_inner_def Let_def)
  qed
qed

theorem repeated_chunk_panics_witness:
  "plan_build_inner
     [\<lparr>mb_path = [], mb_kind = ''erofs'', mb_size = 8192, mb_sha256 = Some [], mb_extents = Some (0, [(0, 0, 8192)]), mb_space = None\<rparr>,
      \<lparr>mb_path = [], mb_kind = ''file'', mb_size = 8192, mb_sha256 = Some [],
       mb_extents = Some (0, [(0, 4096, 4096), (4096, 4096, 4096)]), mb_space = None\<rparr>]
     [[1], []]
     [[], [\<lparr>fd_backend = [], fd_claims = [\<lparr>cl_statement = [], cl_url = Some []\<rparr>], fd_coords = [], fd_archive = None\<rparr>]]
     (\<lambda>i p. Some (False, p)) 0
     \<lparr>pl_builds = [], pl_compress = [], pl_extracts = [], pl_pclusters = [], pl_tabled = {}, pl_literals = None, pl_root = 0\<rparr> True = None"
  by (rule repeated_chunk_panics [where c = 1 and cs = "[]" and space = 0 and runs = "[(0, 0, 8192)]"
        and cruns = "[(0, 4096, 4096), (4096, 4096, 4096)]" and l = 0 and a = 4096 and k = 4096 and l' = 4096 and b = 4096 and m = 4096])
    (simp_all add: own_space_def IDENTITY_MIN_BYTES_def rangeable_def direct_claimed_def runs_disjoint_def)

subsection \<open>Merging segments\<close>

text \<open>A segment merged into the build: at its own image offset, where the build holds the bytes it
  names in the source.\<close>

definition merged_seg :: "run list \<Rightarrow> seg list \<Rightarrow> seg \<Rightarrow> bool" where
  "merged_seg runs extra s \<longleftrightarrow> (\<exists>e \<in> set extra. seg_at s = seg_root e \<and> seg_len s = seg_len e \<and> \<not> is_gap s \<and>
     (\<exists>rlog roff rlen. (rlog, roff, rlen) \<in> set runs \<and> rlog \<le> seg_at s \<and> seg_at s + seg_len s \<le> rlog + rlen \<and>
        seg_root s = roff + (seg_at s - rlog)))"

lemma seg_tiles_bounds: "seg_tiles a ss b \<Longrightarrow> a \<le> b \<and> (\<forall>s \<in> set ss. a \<le> seg_at s \<and> seg_at s + seg_len s \<le> b)"
proof (induction ss arbitrary: a)
  case (Cons s ss)
  then have "seg_tiles (a + seg_len s) ss b" "seg_at s = a" by simp_all
  then show ?case using Cons.IH [of "a + seg_len s"] by fastforce
qed simp

lemma seg_tiles_apart: "seg_tiles a ss b \<Longrightarrow> sorted_wrt seg_apart ss"
proof (induction ss arbitrary: a)
  case (Cons s ss)
  then have t: "seg_tiles (a + seg_len s) ss b" "seg_at s = a" by simp_all
  then show ?case using Cons.IH [OF t(1)] seg_tiles_bounds [OF t(1)] by (auto simp: seg_apart_def)
qed simp

lemma merge_extra_ok:
  assumes "tiled n 0 runs" "\<forall>e \<in> set extra. is_gap e \<or> 0 < seg_len e" "set extra \<subseteq> set all"
    and "iv_rep taken segs" "sorted_wrt seg_apart segs" "\<forall>s \<in> set segs. 0 < seg_len s \<and> seg_at s + seg_len s \<le> ext_total runs"
    and "merge_extra runs extra (segs, taken) = (segs', taken')"
  shows "sorted_wrt seg_apart segs' \<and> (\<forall>s \<in> set segs'. 0 < seg_len s \<and> seg_at s + seg_len s \<le> ext_total runs) \<and>
    set segs \<subseteq> set segs' \<and> (\<forall>s \<in> set segs' - set segs. merged_seg runs all s)"
  using assms(2-7)
proof (induction extra arbitrary: segs taken)
  case (Cons e extra)
  have pre: "\<forall>e \<in> set extra. is_gap e \<or> 0 < seg_len e" "set extra \<subseteq> set all" using Cons.prems(1,2) by simp_all
  note keep = Cons.IH [OF pre Cons.prems(3-5)]
  show ?case
  proof (cases "merge_extra runs (e # extra) (segs, taken) = merge_extra runs extra (segs, taken)")
    case True
    then show ?thesis using keep Cons.prems(6) by simp
  next
    case False
    have kind: "\<not> is_gap e" "\<not> (\<exists>c f l a r. e = SChild c f l a r)" using False by (cases e; simp)+
    obtain rlog roff rlen where f: "List.find (\<lambda>(log, off, l). log \<le> seg_root e \<and> seg_root e + seg_len e \<le> log + l) runs = Some (rlog, roff, rlen)"
      using False by (cases e) (auto simp: Let_def split: option.splits)
    then have r: "(rlog, roff, rlen) \<in> set runs" "rlog \<le> seg_root e" "seg_root e + seg_len e \<le> rlog + rlen"
      by (auto simp: find_Some_iff) (metis nth_mem)
    have adm: "iv_admits taken (seg_root e) (seg_len e)" using False f by (cases e) (auto simp: Let_def split: if_splits)
    define s where "s = (case e of STabled idx f n _ _ \<Rightarrow> STabled idx f n (seg_root e) (roff + (seg_root e - rlog))
                         | SPcluster pc _ n _ \<Rightarrow> SPcluster pc (seg_root e) n (roff + (seg_root e - rlog)) | _ \<Rightarrow> e)"
    have s: "seg_at s = seg_root e" "seg_len s = seg_len e" "seg_root s = roff + (seg_root e - rlog)" "\<not> is_gap s"
      using kind by (cases e; simp add: s_def)+
    have step: "merge_extra runs (e # extra) (segs, taken)
        = merge_extra runs extra (segs @ [s], iv_insert (seg_at s) (seg_len s) taken)"
      unfolding s(1,2) using f adm kind by (cases e) (simp_all add: s_def)
    have pos: "0 < seg_len s" using Cons.prems(1) kind(1) s(2) by auto
    have apart: "\<forall>q \<in> set segs. seg_apart q s" using adm iv_rep_admits [OF Cons.prems(3) pos] s(1,2) by simp
    have rep: "iv_rep (iv_insert (seg_at s) (seg_len s) taken) (segs @ [s])"
      by (rule iv_rep_insert [OF Cons.prems(3) pos]) (use apart Cons.prems(5) in blast)
    have "e \<in> set all" using Cons.prems(2) by simp
    then have m: "merged_seg runs all s" unfolding merged_seg_def using s r by metis
    have "seg_at s + seg_len s \<le> ext_total runs" using tiled_apart [OF assms(1) r(1)] r(3) s by simp
    then have bounds: "\<forall>s \<in> set (segs @ [s]). 0 < seg_len s \<and> seg_at s + seg_len s \<le> ext_total runs"
      using Cons.prems(5) pos by simp
    have "sorted_wrt seg_apart (segs @ [s])" using Cons.prems(4) apart by (simp add: sorted_wrt_append)
    note ok = Cons.IH [OF pre rep this bounds Cons.prems(6) [unfolded step]]
    have "\<forall>t \<in> set segs' - set segs. merged_seg runs all t" using ok m by (metis Diff_iff Un_iff empty_iff insert_iff list.set set_append)
    moreover have "set segs \<subseteq> set segs'" using ok by simp
    ultimately show ?thesis using ok by blast
  qed
qed simp

text \<open>
  C30. Merging the segments of the two EROFS passes into an image's build never fails the tiling
  assertion, whatever the segments are: the build still tiles the image, keeps every segment it had,
  and each new one is a segment of the passes at its own image offset, with the source offset the
  runs give that offset. What overlaps, or straddles two runs, is left out.
\<close>

theorem splice_in_tiles:
  assumes "map_of (pl_builds plan) i = Some bd" "tiled n 0 (bd_runs bd)" "seg_tiles 0 (bd_segs bd) (ext_total (bd_runs bd))"
    and "\<forall>s \<in> set (bd_segs bd) \<union> set extra. is_gap s \<or> 0 < seg_len s"
  shows "\<exists>plan' bd'. splice_in i plan extra = Some (Some plan') \<and> map_of (pl_builds plan') i = Some bd' \<and>
    bd_runs bd' = bd_runs bd \<and> seg_tiles 0 (bd_segs bd') (ext_total (bd_runs bd)) \<and>
    {s \<in> set (bd_segs bd). \<not> is_gap s} \<subseteq> set (bd_segs bd') \<and>
    (\<forall>s \<in> set (bd_segs bd'). is_gap s \<or> s \<in> set (bd_segs bd) \<or> merged_seg (bd_runs bd) extra s)"
proof -
  define segs where "segs = filter (\<lambda>s. \<not> is_gap s) (bd_segs bd)"
  define taken where "taken = foldl (\<lambda>t s. iv_insert (seg_at s) (seg_len s) t) [] segs"
  obtain segs' taken' where m: "merge_extra (bd_runs bd) extra (segs, taken) = (segs', taken')" by fastforce
  have apart: "sorted_wrt seg_apart segs" unfolding segs_def by (rule sorted_wrt_filter [OF seg_tiles_apart [OF assms(3)]])
  have bounds: "\<forall>s \<in> set segs. 0 < seg_len s \<and> seg_at s + seg_len s \<le> ext_total (bd_runs bd)"
    using seg_tiles_bounds [OF assms(3)] assms(4) by (auto simp: segs_def)
  have "iv_rep taken segs" unfolding taken_def using iv_rep_insert_all [OF iv_rep_empty, of segs] apart bounds by simp
  note rep = this
  have "\<forall>e \<in> set extra. is_gap e \<or> 0 < seg_len e" using assms(4) by simp
  note ok = merge_extra_ok [OF assms(2) this order.refl rep apart bounds m]
  note ok' = conjunct1 [OF ok] conjunct1 [OF conjunct2 [OF ok]] conjunct1 [OF conjunct2 [OF conjunct2 [OF ok]]]
    conjunct2 [OF conjunct2 [OF conjunct2 [OF ok]]]
  from tile_sorted [OF ok'(1,2)] obtain ts where t: "tile_gaps (sort_key seg_at segs') (ext_total (bd_runs bd)) = Some ts"
      "seg_tiles 0 ts (ext_total (bd_runs bd))" "set segs' \<subseteq> set ts" "\<forall>s \<in> set ts - set segs'. is_gap s" by blast
  have "splice_in i plan extra = Some (Some (plan\<lparr>pl_builds := hm_insert i (bd\<lparr>bd_segs := ts\<rparr>) (pl_builds plan)\<rparr>))"
    using assms(1) m t(1) by (simp add: splice_in_def Let_def segs_def taken_def ext_total_def)
  moreover have "{s \<in> set (bd_segs bd). \<not> is_gap s} \<subseteq> set ts" using t(3) ok'(3) by (auto simp: segs_def)
  moreover have "is_gap s \<or> s \<in> set (bd_segs bd) \<or> merged_seg (bd_runs bd) extra s" if "s \<in> set ts" for s
  proof (cases "s \<in> set segs")
    case True
    then show ?thesis by (simp add: segs_def)
  qed (use that t(4) ok'(4) in blast)
  ultimately show ?thesis using t(2) by (intro exI conjI) (assumption | simp)+
qed

subsection \<open>Instances\<close>

definition plan_empty :: rplan where
  "plan_empty = \<lparr>pl_builds = [], pl_compress = [], pl_extracts = [], pl_pclusters = [], pl_tabled = {},
     pl_literals = None, pl_root = 0\<rparr>"

theorem plan_build_tiles_witness:
  "\<exists>b plan'. plan_build_inner
     [\<lparr>mb_path = [], mb_kind = ''tar'', mb_size = 64, mb_sha256 = Some [], mb_extents = Some (0, [(0, 0, 64)]), mb_space = None\<rparr>,
      \<lparr>mb_path = [], mb_kind = ''file'', mb_size = 32, mb_sha256 = Some [], mb_extents = Some (0, [(0, 16, 32)]), mb_space = None\<rparr>]
     [[1], []] [[], []] (\<lambda>c p. Some (False, p)) 0 plan_empty True = Some (b, plan')"
proof -
  let ?ms = "[\<lparr>mb_path = [], mb_kind = ''tar'', mb_size = 64, mb_sha256 = Some [], mb_extents = Some (0, [(0, 0, 64)]), mb_space = None\<rparr>,
      \<lparr>mb_path = [], mb_kind = ''file'', mb_size = 32, mb_sha256 = Some [], mb_extents = Some (0, [(0, 16, 32)]), mb_space = None\<rparr>] :: member list"
  have "own_space (?ms ! 0) = Some (0, [(0, 0, 64)])" by (simp add: own_space_def)
  moreover have "tiled (length (replicate 64 0 :: byte list)) 0 [(0, 0, 64)]" "ext_total [(0, 0, 64)] = mb_size (?ms ! 0)"
    by (simp_all add: ext_total_def)
  moreover have "\<forall>c \<in> set ([[1], []] ! 0). \<forall>cruns. rangeable ?ms 0 c = Some cruns \<longrightarrow> runs_disjoint cruns"
    by (simp add: rangeable_def runs_disjoint_def)
  ultimately show ?thesis
    using plan_build_tiles [of ?ms 0 0 "[(0, 0, 64)]" "replicate 64 0" "[[1], []]" "\<lambda>c p. Some (False, p)" "[[], []]" plan_empty True]
    by (metis option.distinct(1))
qed

theorem splice_in_tiles_witness:
  "\<exists>plan'. splice_in 0
     (plan_empty\<lparr>pl_builds := [(0, \<lparr>bd_segs = [SGap 0 512 None None], bd_dropped = 0, bd_space = 0, bd_runs = [(0, 4096, 512)]\<rparr>)]\<rparr>)
     [STabled 7 0 100 0 50, SPcluster 0 0 64 20, STabled 8 0 100 0 200] = Some (Some plan')"
proof -
  let ?bd = "\<lparr>bd_segs = [SGap 0 512 None None], bd_dropped = 0, bd_space = 0, bd_runs = [(0, 4096, 512)]\<rparr> :: build"
  have "map_of (pl_builds (plan_empty\<lparr>pl_builds := [(0, ?bd)]\<rparr>)) 0 = Some ?bd" by simp
  moreover have "tiled 5000 0 (bd_runs ?bd)" "seg_tiles 0 (bd_segs ?bd) (ext_total (bd_runs ?bd))" by (simp_all add: ext_total_def)
  moreover have "\<forall>s \<in> set (bd_segs ?bd) \<union> set [STabled 7 0 100 0 50, SPcluster 0 0 64 20, STabled 8 0 100 0 200]. is_gap s \<or> 0 < seg_len s"
    by simp
  ultimately show ?thesis
    using splice_in_tiles [of "plan_empty\<lparr>pl_builds := [(0, ?bd)]\<rparr>" 0 ?bd 5000
        "[STabled 7 0 100 0 50, SPcluster 0 0 64 20, STabled 8 0 100 0 200]"] by blast
qed

end
