(* ===== verification/Hdx_Verify.thy ===== *)
theory Hdx_Verify
  imports Hdx_Plan
begin

text \<open>
  \<open>src/src/recipe_cmd.rs\<close>, the verification pass of minting: a reference is read back and must
  reproduce its digest, a build is re-spliced from its segments and must reproduce its own, and the
  literal bytes of its gaps and pclusters are captured on the way, inline or in the residue. SHA-256
  is a parameter; the residue is the uncompressed bytes written, absent until the first write; fuel
  bounds the recursion over nested builds, whose outer \<open>None\<close> is running out of it.
\<close>

definition READ_BUF :: nat where "READ_BUF = 2 ^ 20"

datatype verify_error =
    ShortRead nat | ShortGap nat | NodeElsewhere nat nat | NotReproduced nat | NoLiteralSpool | SpoolTruncated
  | RefNotReproduced nat | VerifyPanic

record vstate =
  vs_plan :: rplan
  vs_residue :: "byte list option"
  vs_seen :: "nat set"

type_synonym spaces = "nat \<rightharpoonup> view"

subsection \<open>Reading ranges\<close>

text \<open>The chunks a range is read in.\<close>

function read_chunks :: "(nat \<Rightarrow> 'e) \<Rightarrow> view \<Rightarrow> nat \<Rightarrow> nat \<Rightarrow> 'e + byte list list" where
  "read_chunks err v pos fin =
     (if pos < fin then
        let want = min (fin - pos) READ_BUF; got = read_full_at v want pos in
        ensureR (length got = want) (err pos)
          (bindR (read_chunks err v (pos + want) fin) (\<lambda>cs. Inr (got # cs)))
      else Inr [])"
  by pat_completeness auto
termination by (relation "measure (\<lambda>(err, v, pos, fin). fin - pos)") (auto simp: READ_BUF_def)

declare read_chunks.simps [simp del]

definition hash_root_range :: "view \<Rightarrow> nat \<Rightarrow> nat \<Rightarrow> verify_error + byte list" where
  "hash_root_range v off len = bindR (read_chunks ShortRead v off (off + len)) (\<lambda>cs. Inr (concat cs))"

definition member_ranges :: "member \<Rightarrow> spaces \<Rightarrow> (view \<times> run list) option" where
  "member_ranges m spaces =
     (case mb_space m of
        Some (sid, v) \<Rightarrow> (case spaces sid of Some w \<Rightarrow> Some (w, [(0, 0, mb_size m)]) | None \<Rightarrow> None)
      | None \<Rightarrow>
          (case mb_extents m of
             Some (src, runs) \<Rightarrow> (case spaces src of Some w \<Rightarrow> Some (w, runs) | None \<Rightarrow> None)
           | None \<Rightarrow> None))"

definition member_view :: "member \<Rightarrow> spaces \<Rightarrow> view option" where
  "member_view m spaces =
     (case mb_space m of
        Some (sid, v) \<Rightarrow> Some v
      | None \<Rightarrow>
          (case mb_extents m of
             Some (src, runs) \<Rightarrow> map_option (\<lambda>w. view_slice w (map snd runs)) (spaces src)
           | None \<Rightarrow> None))"

fun hash_runs :: "view \<Rightarrow> run list \<Rightarrow> verify_error + byte list" where
  "hash_runs v [] = Inr []"
| "hash_runs v ((_, off, len) # runs) =
     bindR (hash_root_range v off len) (\<lambda>bs. bindR (hash_runs v runs) (\<lambda>rest. Inr (bs @ rest)))"

text \<open>The references, checked one after another.\<close>

fun verify_ref_list :: "(byte list \<Rightarrow> byte list) \<Rightarrow> spaces \<Rightarrow> member list \<Rightarrow> nat list \<Rightarrow> verify_error + unit" where
  "verify_ref_list sha spaces ms [] = Inr ()"
| "verify_ref_list sha spaces ms (i # is) =
     (case member_ranges (ms ! i) spaces of
        None \<Rightarrow> Inl VerifyPanic
      | Some (v, runs) \<Rightarrow>
          bindR (hash_runs v runs) (\<lambda>bs.
            case mb_sha256 (ms ! i) of
              None \<Rightarrow> Inl VerifyPanic
            | Some want \<Rightarrow> ensureR (sha bs = want) (RefNotReproduced i) (verify_ref_list sha spaces ms is)))"

definition verify_refs :: "(byte list \<Rightarrow> byte list) \<Rightarrow> spaces \<Rightarrow> member list \<Rightarrow> rplan \<Rightarrow> verify_error + unit" where
  "verify_refs sha spaces ms plan =
     verify_ref_list sha spaces ms (filter (referenced_as_leaf plan) [0..<length ms])"

subsection \<open>The residue\<close>

definition rw_bytes :: "byte list option \<Rightarrow> byte list" where
  "rw_bytes r = (case r of None \<Rightarrow> [] | Some b \<Rightarrow> b)"

definition rw_len :: "byte list option \<Rightarrow> nat" where
  "rw_len r = length (rw_bytes r)"

definition rw_write :: "byte list \<Rightarrow> byte list option \<Rightarrow> byte list option" where
  "rw_write bs r = Some (rw_bytes r @ bs)"

text \<open>A pcluster's literal inputs move from the spool to the residue.\<close>

fun spill_inputs :: "byte list option \<Rightarrow> pc_input list \<Rightarrow> byte list option \<Rightarrow> verify_error + pc_input list \<times> byte list option" where
  "spill_inputs spool [] rw = Inr ([], rw)"
| "spill_inputs spool (PcMember idx f len # inputs) rw =
     bindR (spill_inputs spool inputs rw) (\<lambda>(rest, rw). Inr (PcMember idx f len # rest, rw))"
| "spill_inputs spool (PcLiteral off len ro (Some b) # inputs) rw =
     bindR (spill_inputs spool inputs rw) (\<lambda>(rest, rw). Inr (PcLiteral off len ro (Some b) # rest, rw))"
| "spill_inputs spool (PcLiteral off len ro None # inputs) rw =
     (case spool of
        None \<Rightarrow> Inl NoLiteralSpool
      | Some sp \<Rightarrow>
          ensureR (len = 0 \<or> off + len \<le> length sp) SpoolTruncated
            (bindR (spill_inputs spool inputs (if len = 0 then rw else rw_write (window sp off len) rw))
              (\<lambda>(rest, rw'). Inr (PcLiteral off len (Some (rw_len rw)) None # rest, rw'))))"

definition spill_pcluster :: "nat \<Rightarrow> vstate \<Rightarrow> verify_error + vstate" where
  "spill_pcluster pc vs =
     (let plan = vs_plan vs; node = pl_pclusters plan ! pc in
      bindR (spill_inputs (pl_literals plan) (pn_inputs node) (vs_residue vs)) (\<lambda>(inputs, rw).
        Inr (vs\<lparr>vs_plan := plan\<lparr>pl_pclusters := (pl_pclusters plan)[pc := node\<lparr>pn_inputs := inputs\<rparr>]\<rparr>,
               vs_residue := rw\<rparr>)))"

text \<open>The bytes of a gap, range by range: what was hashed, and the residue after it.\<close>

fun gap_ranges :: "view \<Rightarrow> bool \<Rightarrow> (nat \<times> nat) list \<Rightarrow> byte list option \<Rightarrow> verify_error + byte list \<times> byte list option" where
  "gap_ranges v small [] rw = Inr ([], rw)"
| "gap_ranges v small ((off, l) # rs) rw =
     bindR (read_chunks ShortGap v off (off + l)) (\<lambda>cs.
       bindR (gap_ranges v small rs (if small then rw else foldl (\<lambda>rw c. rw_write c rw) rw cs)) (\<lambda>(rest, rw).
         Inr (concat cs @ rest, rw)))"

subsection \<open>Builds\<close>

type_synonym node_verifier = "nat \<Rightarrow> vstate \<Rightarrow> (verify_error + vstate) option"

text \<open>One segment: the bytes hashed, the segment with its capture, the state.\<close>

definition verify_seg ::
  "(byte list \<Rightarrow> byte list) \<Rightarrow> node_verifier \<Rightarrow> view \<Rightarrow> run list \<Rightarrow> nat \<Rightarrow> seg \<Rightarrow> vstate \<Rightarrow>
   (verify_error + byte list \<times> seg \<times> vstate) option" where
  "verify_seg sha vn v runs i s vs =
     (case s of
        STabled idx f len at root_off \<Rightarrow>
          Some (bindR (hash_root_range v root_off len) (\<lambda>bs. Inr (bs, s, vs)))
      | SChild idx f len at root_off \<Rightarrow>
          (case hash_root_range v root_off len of
             Inl e \<Rightarrow> Some (Inl e)
           | Inr bs \<Rightarrow>
               (let plan = vs_plan vs;
                    planned_build = (case map_of (pl_builds plan) idx of Some b \<Rightarrow> bd_segs b \<noteq> [] | None \<Rightarrow> False) in
                if planned_build \<or> map_of (pl_compress plan) idx \<noteq> None
                then map_option (\<lambda>r. bindR r (\<lambda>vs. Inr (bs, s, vs))) (vn idx vs)
                else Some (Inr (bs, s, vs))))
      | SPcluster pc at len root_off \<Rightarrow>
          Some (bindR (hash_root_range v root_off len) (\<lambda>bs.
            if length (pl_pclusters (vs_plan vs)) \<le> pc then Inl VerifyPanic
            else ensureR (sha bs = pn_sha256 (pl_pclusters (vs_plan vs) ! pc)) (NodeElsewhere i pc)
              (bindR (spill_pcluster pc vs) (\<lambda>vs. Inr (bs, s, vs)))))
      | SGap at len residue_off inline \<Rightarrow>
          (let small = (len \<le> INLINE_MAX) in
           Some (bindR (gap_ranges v small (map_range runs at len) (vs_residue vs)) (\<lambda>(bs, rw).
             Inr (bs, SGap at len (if small then residue_off else Some (rw_len (vs_residue vs)))
                        (if small then Some bs else inline),
                  vs\<lparr>vs_residue := rw\<rparr>)))))"

fun verify_segs ::
  "(byte list \<Rightarrow> byte list) \<Rightarrow> node_verifier \<Rightarrow> view \<Rightarrow> run list \<Rightarrow> nat \<Rightarrow> seg list \<Rightarrow> vstate \<Rightarrow>
   (verify_error + byte list \<times> seg list \<times> vstate) option" where
  "verify_segs sha vn v runs i [] vs = Some (Inr ([], [], vs))"
| "verify_segs sha vn v runs i (s # segs) vs =
     (case verify_seg sha vn v runs i s vs of
        None \<Rightarrow> None
      | Some (Inl e) \<Rightarrow> Some (Inl e)
      | Some (Inr (bs, s, vs)) \<Rightarrow>
          (case verify_segs sha vn v runs i segs vs of
             None \<Rightarrow> None
           | Some (Inl e) \<Rightarrow> Some (Inl e)
           | Some (Inr (rest, segs, vs)) \<Rightarrow> Some (Inr (bs @ rest, s # segs, vs))))"

definition set_segs :: "nat \<Rightarrow> seg list \<Rightarrow> vstate \<Rightarrow> vstate" where
  "set_segs i segs vs =
     (let plan = vs_plan vs in
      vs\<lparr>vs_plan := plan\<lparr>pl_builds := map (\<lambda>(k, b). (k, if k = i then b\<lparr>bd_segs := segs\<rparr> else b)) (pl_builds plan)\<rparr>\<rparr>)"

definition verify_build ::
  "(byte list \<Rightarrow> byte list) \<Rightarrow> spaces \<Rightarrow> member list \<Rightarrow> node_verifier \<Rightarrow> nat \<Rightarrow> vstate \<Rightarrow> (verify_error + vstate) option" where
  "verify_build sha spaces ms vn i vs =
     (if i \<in> vs_seen vs then Some (Inr vs)
      else let vs = vs\<lparr>vs_seen := insert i (vs_seen vs)\<rparr> in
        case map_of (pl_builds (vs_plan vs)) i of
          None \<Rightarrow> Some (Inl VerifyPanic)
        | Some b \<Rightarrow>
            (case spaces (bd_space b) of
               None \<Rightarrow> Some (Inl VerifyPanic)
             | Some v \<Rightarrow>
                 (case verify_segs sha vn v (bd_runs b) i (bd_segs b) (set_segs i [] vs) of
                    None \<Rightarrow> None
                  | Some (Inl e) \<Rightarrow> Some (Inl e)
                  | Some (Inr (bs, segs, vs)) \<Rightarrow>
                      (case mb_sha256 (ms ! i) of
                         None \<Rightarrow> Some (Inl VerifyPanic)
                       | Some want \<Rightarrow> Some (ensureR (sha bs = want) (NotReproduced i) (Inr (set_segs i segs vs)))))))"

fun verify_node ::
  "(byte list \<Rightarrow> byte list) \<Rightarrow> spaces \<Rightarrow> member list \<Rightarrow> nat \<Rightarrow> nat \<Rightarrow> vstate \<Rightarrow> (verify_error + vstate) option" where
  "verify_node sha spaces ms 0 i vs = None"
| "verify_node sha spaces ms (Suc d) i vs =
     (case map_of (pl_compress (vs_plan vs)) i of
        Some c \<Rightarrow>
          (let plan = vs_plan vs in
           if map_of (pl_builds plan) (cp_child c) \<noteq> None \<or> map_of (pl_compress plan) (cp_child c) \<noteq> None
           then verify_node sha spaces ms d (cp_child c) vs else Some (Inr vs))
      | None \<Rightarrow> verify_build sha spaces ms (verify_node sha spaces ms d) i vs)"

section \<open>Properties\<close>

subsection \<open>Ranges are read exactly or refused\<close>

lemma read_chunks_spec:
  "view_wf v \<Longrightarrow> read_chunks err v pos fin = Inr cs \<Longrightarrow>
     concat cs = window (view_bytes v) pos (fin - pos) \<and> (pos < fin \<longrightarrow> fin \<le> v_len v)"
proof (induction err v pos fin arbitrary: cs rule: read_chunks.induct)
  case (1 err v pos fin)
  show ?case
  proof (cases "pos < fin")
    case True
    let ?want = "min (fin - pos) READ_BUF"
    obtain cs' where c: "length (read_full_at v ?want pos) = ?want" "read_chunks err v (pos + ?want) fin = Inr cs'"
        "cs = read_full_at v ?want pos # cs'"
      using "1.prems"(2) True by (subst (asm) read_chunks.simps) (auto simp: Let_def result_simps)
    have IH: "concat cs' = window (view_bytes v) (pos + ?want) (fin - (pos + ?want)) \<and> (pos + ?want < fin \<longrightarrow> fin \<le> v_len v)"
      using "1.IH" [OF True refl refl c(1)] "1.prems"(1) c(2) by simp
    have w: "read_full_at v ?want pos = window (view_bytes v) pos ?want" by (rule read_full_at_window [OF "1.prems"(1)])
    have "?want + (fin - (pos + ?want)) = fin - pos" using True by simp
    then have "concat cs = window (view_bytes v) pos (fin - pos)"
      using IH window_append [of "view_bytes v" pos ?want "fin - (pos + ?want)"] by (simp add: c(3) w)
    moreover have "fin \<le> v_len v"
    proof (cases "pos + ?want < fin")
      case False
      have "?want \<le> length (view_bytes v) - pos" "0 < ?want"
        using c(1) w True by (auto simp: length_window READ_BUF_def)
      then have "pos + ?want \<le> v_len v" using length_view_bytes [OF "1.prems"(1)] by linarith
      then show ?thesis using False by linarith
    qed (use IH in simp)
    ultimately show ?thesis by simp
  next
    case False
    then show ?thesis using "1.prems"(2) by (subst (asm) read_chunks.simps) (auto simp: window_0_len)
  qed
qed

lemma read_chunks_ok: "view_wf v \<Longrightarrow> fin \<le> v_len v \<Longrightarrow> \<exists>cs. read_chunks err v pos fin = Inr cs"
proof (induction err v pos fin rule: read_chunks.induct)
  case (1 err v pos fin)
  show ?case
  proof (cases "pos < fin")
    case True
    let ?want = "min (fin - pos) READ_BUF"
    have len: "length (read_full_at v ?want pos) = ?want"
      using "1.prems" True length_view_bytes [OF "1.prems"(1)] by (simp add: read_full_at_window length_window)
    obtain cs where "read_chunks err v (pos + ?want) fin = Inr cs" using "1.IH" [OF True refl refl len] "1.prems" by blast
    then show ?thesis using True len by (subst read_chunks.simps) (simp add: Let_def)
  next
    case False
    then show ?thesis by (subst read_chunks.simps) simp
  qed
qed

lemma hash_root_range_spec:
  "view_wf v \<Longrightarrow> hash_root_range v off len = Inr bs \<Longrightarrow> bs = window (view_bytes v) off len \<and> (0 < len \<longrightarrow> off + len \<le> v_len v)"
  using read_chunks_spec [of v ShortRead off "off + len"] by (auto simp: hash_root_range_def bindR_eq_Inr)

lemma hash_root_range_ok:
  "view_wf v \<Longrightarrow> off + len \<le> v_len v \<Longrightarrow> hash_root_range v off len = Inr (window (view_bytes v) off len)"
  using read_chunks_ok [of v "off + len" ShortRead off] read_chunks_spec [of v ShortRead off "off + len"]
  by (auto simp: hash_root_range_def bindR_eq_Inr)

subsection \<open>The residue only grows\<close>

lemma rw_bytes_write [simp]: "rw_bytes (rw_write bs r) = rw_bytes r @ bs"
  by (simp add: rw_write_def rw_bytes_def)

lemma rw_writes: "rw_bytes (foldl (\<lambda>rw c. rw_write c rw) rw cs) = rw_bytes rw @ concat cs"
  by (induction cs arbitrary: rw) simp_all

lemma gap_ranges_writes:
  "gap_ranges v small rs rw = Inr (bs, rw') \<Longrightarrow> (if small then rw' = rw else rw_bytes rw' = rw_bytes rw @ bs)"
  by (induction rs arbitrary: rw bs) (auto simp: bindR_eq_Inr rw_writes split: if_splits)

lemma gap_ranges_bytes:
  assumes "view_wf v"
  shows "gap_ranges v small rs rw = Inr (bs, rw') \<Longrightarrow> bs = concat (map (\<lambda>(off, l). window (view_bytes v) off l) rs)"
proof (induction rs arbitrary: rw bs)
  case (Cons e rs)
  obtain off l where e: "e = (off, l)" by (cases e)
  then obtain cs rw1 rest where c: "read_chunks ShortGap v off (off + l) = Inr cs" "gap_ranges v small rs rw1 = Inr (rest, rw')"
      "bs = concat cs @ rest"
    using Cons.prems by (auto simp: bindR_eq_Inr)
  show ?case using read_chunks_spec [OF assms c(1)] Cons.IH [OF c(2)] c(3) e by simp
qed simp

lemma gap_ranges_ok:
  "view_wf v \<Longrightarrow> \<forall>(off, l) \<in> set rs. off + l \<le> v_len v \<Longrightarrow> \<exists>r. gap_ranges v small rs rw = Inr r"
proof (induction rs arbitrary: rw)
  case (Cons e rs)
  obtain off l where e: "e = (off, l)" by (cases e)
  obtain cs where "read_chunks ShortGap v off (off + l) = Inr cs"
    using read_chunks_ok [OF Cons.prems(1), of "off + l" ShortGap off] Cons.prems(2) e by auto
  moreover obtain r where "gap_ranges v small rs (if small then rw else foldl (\<lambda>rw c. rw_write c rw) rw cs) = Inr r"
    using Cons by fastforce
  ultimately show ?case by (cases r) (simp add: e)
qed simp

definition vs_grows :: "vstate \<Rightarrow> vstate \<Rightarrow> bool" where
  "vs_grows vs vs' \<longleftrightarrow> (\<exists>ext. rw_bytes (vs_residue vs') = rw_bytes (vs_residue vs) @ ext) \<and>
     map fst (pl_builds (vs_plan vs')) = map fst (pl_builds (vs_plan vs))"

lemma vs_grows_refl [simp]: "vs_grows vs vs"
  by (simp add: vs_grows_def)

lemma vs_grows_trans: "vs_grows a b \<Longrightarrow> vs_grows b c \<Longrightarrow> vs_grows a c"
  by (auto simp: vs_grows_def)

lemma spill_inputs_grows: "spill_inputs spool inputs rw = Inr (inputs', rw') \<Longrightarrow> \<exists>ext. rw_bytes rw' = rw_bytes rw @ ext"
  by (induction spool inputs rw arbitrary: inputs' rw' rule: spill_inputs.induct)
    (fastforce simp: result_simps split: option.splits if_splits)+

lemma spill_pcluster_grows: "spill_pcluster pc vs = Inr vs' \<Longrightarrow> vs_grows vs vs'"
  by (auto simp: spill_pcluster_def Let_def bindR_eq_Inr vs_grows_def dest: spill_inputs_grows)

definition vn_grows :: "node_verifier \<Rightarrow> bool" where
  "vn_grows vn \<longleftrightarrow> (\<forall>j vs vs'. vn j vs = Some (Inr vs') \<longrightarrow> vs_grows vs vs')"

lemma verify_seg_grows:
  assumes "vn_grows vn" "verify_seg sha vn v runs i s vs = Some (Inr (bs, s', vs'))"
  shows "vs_grows vs vs'"
proof (cases s)
  case (SChild idx f len at root_off)
  then show ?thesis using assms by (auto simp: verify_seg_def Let_def bindR_eq_Inr vn_grows_def split: sum.splits if_splits)
next
  case (STabled idx f len at root_off)
  then show ?thesis using assms(2) by (auto simp: verify_seg_def bindR_eq_Inr)
next
  case (SPcluster pc at len root_off)
  then show ?thesis using assms(2) by (auto simp: verify_seg_def result_simps spill_pcluster_grows split: if_splits)
next
  case (SGap at len ro inl)
  then obtain rw where "gap_ranges v (len \<le> INLINE_MAX) (map_range runs at len) (vs_residue vs) = Inr (bs, rw)" "vs' = vs\<lparr>vs_residue := rw\<rparr>"
    using assms(2) by (auto simp: verify_seg_def Let_def bindR_eq_Inr)
  then show ?thesis using gap_ranges_writes by (force simp: vs_grows_def split: if_splits)
qed

lemma verify_segs_grows:
  assumes "vn_grows vn"
  shows "verify_segs sha vn v runs i segs vs = Some (Inr (bs, segs', vs')) \<Longrightarrow> vs_grows vs vs'"
proof (induction segs arbitrary: vs bs segs')
  case (Cons s segs)
  then obtain b1 s1 vs1 b2 segs2 where "verify_seg sha vn v runs i s vs = Some (Inr (b1, s1, vs1))"
      "verify_segs sha vn v runs i segs vs1 = Some (Inr (b2, segs2, vs'))"
    by (auto split: option.splits sum.splits prod.splits)
  then show ?case using Cons.IH verify_seg_grows [OF assms] vs_grows_trans by blast
qed simp

lemma set_segs_grows [simp]: "vs_grows (set_segs i segs vs) vs' \<longleftrightarrow> vs_grows vs vs'" "vs_grows vs (set_segs i segs vs') \<longleftrightarrow> vs_grows vs vs'"
  by (simp_all add: vs_grows_def set_segs_def Let_def case_prod_unfold comp_def)

lemma verify_build_Inr:
  assumes r: "verify_build sha spaces ms vn i vs = Some (Inr vs')" and new: "i \<notin> vs_seen vs"
  obtains b v bs segs vs1 where "map_of (pl_builds (vs_plan vs)) i = Some b" "spaces (bd_space b) = Some v"
    "verify_segs sha vn v (bd_runs b) i (bd_segs b) (set_segs i [] (vs\<lparr>vs_seen := insert i (vs_seen vs)\<rparr>)) = Some (Inr (bs, segs, vs1))"
    "mb_sha256 (ms ! i) = Some (sha bs)" "vs' = set_segs i segs vs1"
proof -
  note r = r [unfolded verify_build_def Let_def]
  obtain b where b: "map_of (pl_builds (vs_plan vs)) i = Some b"
    using r new by (cases "map_of (pl_builds (vs_plan vs)) i") simp_all
  obtain v where v: "spaces (bd_space b) = Some v" using r new b by (cases "spaces (bd_space b)") simp_all
  obtain bs segs vs1 where s: "verify_segs sha vn v (bd_runs b) i (bd_segs b) (set_segs i [] (vs\<lparr>vs_seen := insert i (vs_seen vs)\<rparr>))
      = Some (Inr (bs, segs, vs1))"
  proof (cases "verify_segs sha vn v (bd_runs b) i (bd_segs b) (set_segs i [] (vs\<lparr>vs_seen := insert i (vs_seen vs)\<rparr>))")
    case (Some x)
    show thesis
    proof (cases x)
      case (Inr y)
      then show thesis using that Some by (cases y) auto
    qed (use r new b v Some in simp)
  qed (use r new b v in simp)
  have e: "Some (Inr vs') = (case mb_sha256 (ms ! i) of None \<Rightarrow> Some (Inl VerifyPanic)
      | Some want \<Rightarrow> Some (ensureR (sha bs = want) (NotReproduced i) (Inr (set_segs i segs vs1))))"
    using r new b v s by simp
  then have "mb_sha256 (ms ! i) = Some (sha bs)" "vs' = set_segs i segs vs1"
    by (cases "mb_sha256 (ms ! i)"; simp add: ensureR_def split: if_splits)+
  then show thesis by (rule that [OF b v s])
qed

lemma verify_build_grows:
  assumes "vn_grows vn" "verify_build sha spaces ms vn i vs = Some (Inr vs')"
  shows "vs_grows vs vs'"
proof (cases "i \<in> vs_seen vs")
  case False
  obtain b v bs segs vs1 where "map_of (pl_builds (vs_plan vs)) i = Some b" "spaces (bd_space b) = Some v"
    and s: "verify_segs sha vn v (bd_runs b) i (bd_segs b) (set_segs i [] (vs\<lparr>vs_seen := insert i (vs_seen vs)\<rparr>)) = Some (Inr (bs, segs, vs1))"
      "mb_sha256 (ms ! i) = Some (sha bs)" "vs' = set_segs i segs vs1"
    by (rule verify_build_Inr [OF assms(2) False])
  have "vs_grows (vs\<lparr>vs_seen := insert i (vs_seen vs)\<rparr>) vs1" using verify_segs_grows [OF assms(1) s(1)] by simp
  then have "vs_grows vs vs1" by (simp add: vs_grows_def)
  then show ?thesis using s(3) by simp
qed (use assms(2) in \<open>simp add: verify_build_def\<close>)

lemma verify_node_grows: "verify_node sha spaces ms d i vs = Some (Inr vs') \<Longrightarrow> vs_grows vs vs'"
proof (induction d arbitrary: i vs vs')
  case (Suc d)
  show ?case
  proof (cases "map_of (pl_compress (vs_plan vs)) i")
    case None
    then have "verify_build sha spaces ms (verify_node sha spaces ms d) i vs = Some (Inr vs')" using Suc.prems by simp
    moreover have "vn_grows (verify_node sha spaces ms d)" using Suc.IH by (simp add: vn_grows_def)
    ultimately show ?thesis using verify_build_grows by blast
  next
    case (Some c)
    then show ?thesis using Suc.prems Suc.IH by (auto simp: Let_def split: if_splits)
  qed
qed simp

subsection \<open>A verified build is the container\<close>

text \<open>The segment as it was planned, with its literal bytes \<open>C\<close> inline or in the residue \<open>R\<close>.\<close>

definition captured :: "byte list \<Rightarrow> byte list \<Rightarrow> seg \<Rightarrow> seg \<Rightarrow> bool" where
  "captured C R s s' =
     (case s of
        SGap at len ro inl \<Rightarrow>
          is_gap s' \<and> seg_at s' = at \<and> seg_len s' = len \<and>
          (if len \<le> INLINE_MAX then seg_inline s' = Some (window C at len)
           else \<exists>off. seg_residue s' = Some off \<and> window R off len = window C at len)
      | _ \<Rightarrow> s' = s)"

lemma captured_mono: "at_len = seg_at s + seg_len s \<Longrightarrow> at_len \<le> length C \<Longrightarrow> captured C R s s' \<Longrightarrow> captured C (R @ ext) s s'"
proof -
  assume le: "at_len = seg_at s + seg_len s" "at_len \<le> length C" and c: "captured C R s s'"
  have "window (R @ ext) off n = window C at n" if "window R off n = window C at n" "at + n \<le> length C" for off n at
  proof (cases "n = 0")
    case False
    have "length (window R off n) = n" using that by (simp add: length_window)
    then have "off + n \<le> length R" using False by (auto simp: length_window min_def split: if_splits)
    then show ?thesis using that(1) by (simp add: window_append_left)
  qed (simp add: window_0_len)
  then show ?thesis using c le by (cases s) (auto simp: captured_def split: if_splits)
qed

definition placed :: "byte list \<Rightarrow> byte list \<Rightarrow> seg \<Rightarrow> bool" where
  "placed S C s \<longleftrightarrow> is_gap s \<or> window S (seg_root s) (seg_len s) = window C (seg_at s) (seg_len s)"

lemma verify_seg_spec:
  assumes wf: "view_wf v" and t: "tiled (v_len v) 0 runs" and C: "C = ext_bytes (view_bytes v) runs"
    and r: "verify_seg sha vn v runs i s vs = Some (Inr (bs, s', vs'))"
    and p: "placed (view_bytes v) C s" "seg_at s + seg_len s \<le> length C"
  shows "bs = window C (seg_at s) (seg_len s) \<and> captured C (rw_bytes (vs_residue vs')) s s'"
proof (cases s)
  case (SChild idx f len at root_off)
  then have "hash_root_range v root_off len = Inr bs \<and> s' = s"
    using r by (auto simp: verify_seg_def Let_def bindR_eq_Inr split: sum.splits if_splits)
  then show ?thesis using hash_root_range_spec [OF wf] p SChild by (auto simp: placed_def captured_def)
next
  case (STabled idx f len at root_off)
  then have "hash_root_range v root_off len = Inr bs \<and> s' = s" using r by (auto simp: verify_seg_def bindR_eq_Inr)
  then show ?thesis using hash_root_range_spec [OF wf] p STabled by (auto simp: placed_def captured_def)
next
  case (SPcluster pc at len root_off)
  then have "hash_root_range v root_off len = Inr bs \<and> s' = s"
    using r by (auto simp: verify_seg_def result_simps split: if_splits)
  then show ?thesis using hash_root_range_spec [OF wf] p SPcluster by (auto simp: placed_def captured_def)
next
  case (SGap at len ro inl)
  then obtain rw where g: "gap_ranges v (len \<le> INLINE_MAX) (map_range runs at len) (vs_residue vs) = Inr (bs, rw)"
      "s' = SGap at len (if len \<le> INLINE_MAX then ro else Some (rw_len (vs_residue vs))) (if len \<le> INLINE_MAX then Some bs else inl)"
      "vs' = vs\<lparr>vs_residue := rw\<rparr>"
    using r by (auto simp: verify_seg_def Let_def bindR_eq_Inr)
  have "tiled (length (view_bytes v)) 0 runs" using t length_view_bytes [OF wf] by simp
  then have bs: "bs = window C at len" using gap_ranges_bytes [OF wf g(1)] map_range_bytes C by simp
  have "length bs = len" using p(2) SGap bs by (simp add: length_window)
  then have "window (rw_bytes (vs_residue vs) @ bs) (rw_len (vs_residue vs)) len = bs"
    by (simp add: window_def rw_len_def)
  then show ?thesis using gap_ranges_writes [OF g(1)] g(2,3) bs SGap by (auto simp: captured_def)
qed

lemma verify_segs_spec:
  assumes wf: "view_wf v" and t: "tiled (v_len v) 0 runs" and C: "C = ext_bytes (view_bytes v) runs" and vn: "vn_grows vn"
  shows "verify_segs sha vn v runs i segs vs = Some (Inr (bs, segs', vs')) \<Longrightarrow> seg_tiles a segs b \<Longrightarrow> b \<le> length C \<Longrightarrow>
    \<forall>s \<in> set segs. placed (view_bytes v) C s \<Longrightarrow>
    bs = window C a (b - a) \<and> list_all2 (captured C (rw_bytes (vs_residue vs'))) segs segs'"
proof (induction segs arbitrary: a vs bs segs')
  case (Cons s segs)
  obtain b1 s1 vs1 b2 segs2 where 1: "verify_seg sha vn v runs i s vs = Some (Inr (b1, s1, vs1))"
      "verify_segs sha vn v runs i segs vs1 = Some (Inr (b2, segs2, vs'))" "bs = b1 @ b2" "segs' = s1 # segs2"
    using Cons.prems(1) by (auto split: option.splits sum.splits prod.splits)
  have t': "seg_at s = a" "seg_tiles (a + seg_len s) segs b" using Cons.prems(2) by simp_all
  then have le: "a + seg_len s \<le> b" using seg_tiles_bounds by blast
  have head: "b1 = window C a (seg_len s)" "captured C (rw_bytes (vs_residue vs1)) s s1"
    using verify_seg_spec [OF wf t C 1(1)] Cons.prems(3,4) t'(1) le by simp_all
  have rest: "b2 = window C (a + seg_len s) (b - (a + seg_len s))" "list_all2 (captured C (rw_bytes (vs_residue vs'))) segs segs2"
    using Cons.IH [OF 1(2) t'(2) Cons.prems(3)] Cons.prems(4) by simp_all
  obtain ext where "rw_bytes (vs_residue vs') = rw_bytes (vs_residue vs1) @ ext"
    using verify_segs_grows [OF vn 1(2)] by (auto simp: vs_grows_def)
  then have "captured C (rw_bytes (vs_residue vs')) s s1"
    using captured_mono [OF refl _ head(2)] t'(1) le Cons.prems(3) by simp
  moreover have "bs = window C a (b - a)"
    using 1(3) head(1) rest(1) le window_append [of C a "seg_len s" "b - (a + seg_len s)"] by simp
  ultimately show ?case using rest(2) 1(4) by simp
qed (simp add: window_0_len)

lemma map_of_set_segs:
  "map_of (pl_builds (vs_plan (set_segs i segs vs))) i = map_option (\<lambda>b. b\<lparr>bd_segs := segs\<rparr>) (map_of (pl_builds (vs_plan vs)) i)"
proof -
  have "map_of (map (\<lambda>(k, b). (k, if k = i then b\<lparr>bd_segs := segs\<rparr> else b)) m) i
      = map_option (\<lambda>b. b\<lparr>bd_segs := segs\<rparr>) (map_of m i)" for m :: "(nat \<times> build) list"
    by (induction m) auto
  then show ?thesis by (simp add: set_segs_def Let_def)
qed

text \<open>A plan without nested nodes: gaps, member ranges, and children that are fetched.\<close>

definition flat_seg :: "rplan \<Rightarrow> seg \<Rightarrow> bool" where
  "flat_seg plan s =
     (case s of
        SChild idx _ _ _ _ \<Rightarrow> map_of (pl_builds plan) idx = None \<and> map_of (pl_compress plan) idx = None
      | STabled _ _ _ _ _ \<Rightarrow> True
      | SPcluster _ _ _ _ \<Rightarrow> False
      | SGap _ _ _ _ \<Rightarrow> True)"

lemma verify_segs_flat:
  assumes wf: "view_wf v" and t: "tiled (v_len v) 0 runs"
  shows "\<forall>s \<in> set segs. flat_seg (vs_plan vs) s \<and> (is_gap s \<or> seg_root s + seg_len s \<le> v_len v) \<Longrightarrow>
    \<exists>bs segs' vs'. verify_segs sha vn v runs i segs vs = Some (Inr (bs, segs', vs'))"
proof (induction segs arbitrary: vs)
  case (Cons s segs)
  have "\<exists>bs s' rw. verify_seg sha vn v runs i s vs = Some (Inr (bs, s', vs\<lparr>vs_residue := rw\<rparr>))"
  proof (cases s)
    case (SGap at len ro inl)
    have "\<forall>(off, l) \<in> set (map_range runs at len). off + l \<le> v_len v" using map_range_in_source [OF t] by blast
    then obtain bs rw where "gap_ranges v (len \<le> INLINE_MAX) (map_range runs at len) (vs_residue vs) = Inr (bs, rw)"
      using gap_ranges_ok [OF wf] by (metis surj_pair)
    then show ?thesis using SGap by (simp add: verify_seg_def Let_def) blast
  next
    case (SChild idx f len at root_off)
    then have "verify_seg sha vn v runs i s vs = Some (Inr (window (view_bytes v) root_off len, s, vs\<lparr>vs_residue := vs_residue vs\<rparr>))"
      using Cons.prems hash_root_range_ok [OF wf] by (simp add: verify_seg_def flat_seg_def)
    then show ?thesis by blast
  next
    case (STabled idx f len at root_off)
    then have "verify_seg sha vn v runs i s vs = Some (Inr (window (view_bytes v) root_off len, s, vs\<lparr>vs_residue := vs_residue vs\<rparr>))"
      using Cons.prems hash_root_range_ok [OF wf] by (simp add: verify_seg_def)
    then show ?thesis by blast
  next
    case (SPcluster pc at len root_off)
    then show ?thesis using Cons.prems by (simp add: flat_seg_def)
  qed
  then obtain bs s' rw where s: "verify_seg sha vn v runs i s vs = Some (Inr (bs, s', vs\<lparr>vs_residue := rw\<rparr>))" by blast
  obtain rest segs' vs' where "verify_segs sha vn v runs i segs (vs\<lparr>vs_residue := rw\<rparr>) = Some (Inr (rest, segs', vs'))"
    using Cons.IH [of "vs\<lparr>vs_residue := rw\<rparr>"] Cons.prems by auto
  then show ?case using s by simp
qed simp

text \<open>
  C31. Verification proves the build: when the verification of a container's tiled build succeeds, the
  container's bytes have the recorded digest, the plan keeps every segment, and the literal bytes of
  every gap are recorded, inline up to 64 bytes and in the residue at the recorded offset beyond,
  whatever nested nodes were verified in between. And it does succeed, at once, for a build of gaps
  and fetched members inside an unchanged source whose digest is the container's.
\<close>

theorem verify_build_proves:
  assumes "map_of (pl_compress (vs_plan vs)) i = None" "map_of (pl_builds (vs_plan vs)) i = Some bd" "i \<notin> vs_seen vs"
    and "spaces (bd_space bd) = Some v" "view_wf v" "tiled (v_len v) 0 (bd_runs bd)"
    and "C = ext_bytes (view_bytes v) (bd_runs bd)" "seg_tiles 0 (bd_segs bd) (length C)"
    and "\<forall>s \<in> set (bd_segs bd). placed (view_bytes v) C s"
  shows "(verify_node sha spaces ms d i vs = Some (Inr vs') \<longrightarrow>
      mb_sha256 (ms ! i) = Some (sha C) \<and>
      (\<exists>bd'. map_of (pl_builds (vs_plan vs')) i = Some bd' \<and>
         list_all2 (captured C (rw_bytes (vs_residue vs'))) (bd_segs bd) (bd_segs bd'))) \<and>
    ((\<forall>s \<in> set (bd_segs bd). flat_seg (vs_plan vs) s \<and> (is_gap s \<or> seg_root s + seg_len s \<le> v_len v)) \<and>
      mb_sha256 (ms ! i) = Some (sha C) \<longrightarrow>
      (\<exists>vs'. verify_node sha spaces ms (Suc d) i vs = Some (Inr vs')))"
proof (intro conjI impI)
  have len: "length C = ext_total (bd_runs bd)" using assms(5-7) length_view_bytes length_ext_bytes by metis
  let ?vs0 = "set_segs i [] (vs\<lparr>vs_seen := insert i (vs_seen vs)\<rparr>)"
  have spec: "bs = C \<and> list_all2 (captured C (rw_bytes (vs_residue vs1))) (bd_segs bd) segs"
    if "vn_grows vn" "verify_segs sha vn v (bd_runs bd) i (bd_segs bd) ?vs0 = Some (Inr (bs, segs, vs1))" for vn bs segs vs1
    using verify_segs_spec [OF assms(5-7) that assms(8)] assms(9) by (simp add: window_whole)
  {
    assume r: "verify_node sha spaces ms d i vs = Some (Inr vs')"
    then obtain k where k: "verify_build sha spaces ms (verify_node sha spaces ms k) i vs = Some (Inr vs')"
      using assms(1) by (cases d) auto
    have vn: "vn_grows (verify_node sha spaces ms k)" using verify_node_grows by (auto simp: vn_grows_def)
    obtain b w bs segs vs1 where b: "map_of (pl_builds (vs_plan vs)) i = Some b" "spaces (bd_space b) = Some w"
      "verify_segs sha (verify_node sha spaces ms k) w (bd_runs b) i (bd_segs b) ?vs0 = Some (Inr (bs, segs, vs1))"
      "mb_sha256 (ms ! i) = Some (sha bs)" "vs' = set_segs i segs vs1"
      by (rule verify_build_Inr [OF k assms(3)])
    have s: "bs = C \<and> list_all2 (captured C (rw_bytes (vs_residue vs1))) (bd_segs bd) segs"
      by (rule spec [OF vn]) (use b(1-3) assms(2,4) in simp)
    have "map fst (pl_builds (vs_plan vs1)) = map fst (pl_builds (vs_plan vs))"
    proof -
      have "vs_grows (vs\<lparr>vs_seen := insert i (vs_seen vs)\<rparr>) vs1" using verify_segs_grows [OF vn b(3)] by simp
      then show ?thesis by (simp add: vs_grows_def)
    qed
    then have "map_of (pl_builds (vs_plan vs1)) i \<noteq> None" using assms(2) by (metis map_of_eq_None_iff list.set_map option.distinct(1))
    then have "\<exists>bd'. map_of (pl_builds (vs_plan vs')) i = Some bd' \<and> bd_segs bd' = segs"
      unfolding b(5) map_of_set_segs by auto
    then show "mb_sha256 (ms ! i) = Some (sha C)"
      "\<exists>bd'. map_of (pl_builds (vs_plan vs')) i = Some bd' \<and> list_all2 (captured C (rw_bytes (vs_residue vs'))) (bd_segs bd) (bd_segs bd')"
      using s b(4,5) by (auto simp: set_segs_def Let_def)
  }
  assume f: "(\<forall>s \<in> set (bd_segs bd). flat_seg (vs_plan vs) s \<and> (is_gap s \<or> seg_root s + seg_len s \<le> v_len v)) \<and>
      mb_sha256 (ms ! i) = Some (sha C)"
  have "map_of (pl_builds (vs_plan ?vs0)) j = None" if "map_of (pl_builds (vs_plan vs)) j = None" for j
    using that by (simp add: set_segs_def Let_def map_of_eq_None_iff case_prod_unfold image_image)
  moreover have "pl_compress (vs_plan ?vs0) = pl_compress (vs_plan vs)" by (simp add: set_segs_def Let_def)
  ultimately have "flat_seg (vs_plan vs) s \<Longrightarrow> flat_seg (vs_plan ?vs0) s" for s by (cases s) (simp_all add: flat_seg_def)
  then obtain bs segs vs1 where s: "verify_segs sha (verify_node sha spaces ms d) v (bd_runs bd) i (bd_segs bd) ?vs0 = Some (Inr (bs, segs, vs1))"
    using verify_segs_flat [OF assms(5,6), of "bd_segs bd" ?vs0] f by blast
  have "vn_grows (verify_node sha spaces ms d)" using verify_node_grows by (auto simp: vn_grows_def)
  then have "bs = C" using spec s by blast
  then show "\<exists>vs'. verify_node sha spaces ms (Suc d) i vs = Some (Inr vs')"
    using s f assms(1-4) by (simp add: verify_build_def Let_def)
qed

theorem verify_build_proves_witness:
  "\<exists>vs'. verify_node (\<lambda>b. b) [0 \<mapsto> view_new (PMem (replicate 64 7)) [(0, 64)]]
     [\<lparr>mb_path = [], mb_kind = ''tar'', mb_size = 64, mb_sha256 = Some (replicate 64 7), mb_extents = Some (0, [(0, 0, 64)]), mb_space = None\<rparr>]
     1 0 \<lparr>vs_plan = plan_empty\<lparr>pl_builds := [(0, \<lparr>bd_segs = [SChild 1 0 40 0 0, SGap 40 24 None None],
        bd_dropped = 0, bd_space = 0, bd_runs = [(0, 0, 64)]\<rparr>)]\<rparr>, vs_residue = None, vs_seen = {}\<rparr> = Some (Inr vs')"
proof -
  let ?v = "view_new (PMem (replicate 64 7)) [(0, 64)]" and ?C = "replicate 64 7 :: byte list"
  let ?bd = "\<lparr>bd_segs = [SChild 1 0 40 0 0, SGap 40 24 None None], bd_dropped = 0, bd_space = 0, bd_runs = [(0, 0, 64)]\<rparr> :: build"
  let ?vs = "\<lparr>vs_plan = plan_empty\<lparr>pl_builds := [(0, ?bd)]\<rparr>, vs_residue = None, vs_seen = {}\<rparr> :: vstate"
  let ?ms = "[\<lparr>mb_path = [], mb_kind = ''tar'', mb_size = 64, mb_sha256 = Some ?C, mb_extents = Some (0, [(0, 0, 64)]), mb_space = None\<rparr>] :: member list"
  have wf: "view_wf ?v" by (rule view_new_wf) simp
  have bytes: "view_bytes ?v = ?C" using window_whole [of ?C] by (simp add: view_new_bytes)
  have len: "v_len ?v = 64" by (simp add: view_new_def)
  have C: "?C = ext_bytes (view_bytes ?v) (bd_runs ?bd)" using window_whole [of ?C] bytes by simp
  have t: "tiled (v_len ?v) 0 (bd_runs ?bd)" "seg_tiles 0 (bd_segs ?bd) (length ?C)" by (simp_all add: len)
  have p: "\<forall>s \<in> set (bd_segs ?bd). placed (view_bytes ?v) ?C s" by (simp add: placed_def bytes)
  have f: "\<forall>s \<in> set (bd_segs ?bd). flat_seg (vs_plan ?vs) s \<and> (is_gap s \<or> seg_root s + seg_len s \<le> v_len ?v)"
    by (simp add: flat_seg_def plan_empty_def len)
  show ?thesis
    using verify_build_proves [of ?vs 0 ?bd "[0 \<mapsto> ?v]" ?v ?C "\<lambda>b. b" ?ms 0, OF _ _ _ _ wf t(1) C t(2) p] f
    by (simp add: plan_empty_def)
qed

end
