(* ===== verification/Hdx_Archive.thy ===== *)
theory Hdx_Archive
  imports Hdx_Prelude Hdx_Text
begin

text \<open>
  The record formats \<open>src/src/peek_walk.rs\<close> reads itself, and the extraction of one member from an
  rpm in \<open>src/src/recipe_cmd.rs\<close>: rpm headers, the cpio "newc" format, ISO 9660 directory records
  with their Rock Ridge names, and the zip central directory. A reader is the list of the bytes
  still to come; the payload decompressors are parameters, as the bytes they give before they end
  or fail (either ends a read short).
\<close>

datatype arch_error =
    ShortArchive | BadHeaderMagic | BadCpioField | BadCpioMagic | NotAnRpm | UnknownPayload | NoSuchPath | TruncatedMember

definition take_exact :: "nat \<Rightarrow> byte list \<Rightarrow> arch_error + byte list \<times> byte list" where
  "take_exact n r = (if n \<le> length r then Inr (take n r, drop n r) else Inl ShortArchive)"

definition skip_n :: "nat \<Rightarrow> byte list \<Rightarrow> arch_error + byte list" where
  "skip_n n r = (if n \<le> length r then Inr (drop n r) else Inl ShortArchive)"

fun be_nat :: "byte list \<Rightarrow> nat" where
  "be_nat bs = le_nat (rev bs)"

subsection \<open>rpm\<close>

fun skip_rpm_loop :: "bool list \<Rightarrow> byte list \<Rightarrow> arch_error + byte list" where
  "skip_rpm_loop [] r = Inr r"
| "skip_rpm_loop (pad # pads) r =
     bindR (take_exact 16 r) (\<lambda>(intro, r).
       ensureR (take 3 intro = [0x8e, 0xad, 0xe8]) BadHeaderMagic
         (let nindex = be_nat (window intro 8 4); hsize = be_nat (window intro 12 4); body = nindex * 16 + hsize in
          bindR (skip_n body r) (\<lambda>r.
            bindR (if pad then skip_n ((8 - body mod 8) mod 8) r else Inr r) (skip_rpm_loop pads))))"

definition skip_rpm_headers :: "byte list \<Rightarrow> arch_error + byte list" where
  "skip_rpm_headers r = bindR (skip_n 96 r) (skip_rpm_loop [True, False])"

subsection \<open>cpio\<close>

definition ascii :: "string \<Rightarrow> byte list" where
  "ascii s = map (\<lambda>c. of_char c) s"

definition hex_value :: "byte \<Rightarrow> nat option" where
  "hex_value b =
     (let n = unat b in
      if 48 \<le> n \<and> n \<le> 57 then Some (n - 48)
      else if 65 \<le> n \<and> n \<le> 70 then Some (n - 55)
      else if 97 \<le> n \<and> n \<le> 102 then Some (n - 87)
      else None)"

fun hex_digits :: "nat \<Rightarrow> byte list \<Rightarrow> nat option" where
  "hex_digits acc [] = Some acc"
| "hex_digits acc (b # bs) = (case hex_value b of Some d \<Rightarrow> hex_digits (acc * 16 + d) bs | None \<Rightarrow> None)"

text \<open>\<open>u64::from_str_radix(f, 16)\<close>: one leading plus sign is accepted. Eight digits do not overflow.\<close>

definition from_hex :: "byte list \<Rightarrow> nat option" where
  "from_hex f =
     (let ds = (case f of b # bs \<Rightarrow> if b = 43 \<and> bs \<noteq> [] then bs else f | [] \<Rightarrow> f) in
      if ds = [] then None else hex_digits 0 ds)"

definition hexfield :: "byte list \<Rightarrow> nat \<Rightarrow> arch_error + nat" where
  "hexfield h i = (case from_hex (window h (6 + i * 8) 8) of Some n \<Rightarrow> Inr n | None \<Rightarrow> Inl BadCpioField)"

fun trim_start_matches :: "'a list \<Rightarrow> 'a list \<Rightarrow> 'a list" where
  "trim_start_matches p [] = []"
| "trim_start_matches p (x # xs) =
     (if p \<noteq> [] \<and> take (length p) (x # xs) = p then trim_start_matches p (drop (length p - 1) xs) else x # xs)"

text \<open>The outer \<open>None\<close> of the result is a bad magic; the name is pulled from the reader.\<close>

definition cpio_header :: "byte list \<Rightarrow> byte list \<Rightarrow> arch_error + (nat \<times> nat \<times> ustring) option \<times> byte list" where
  "cpio_header hdr r =
     (if take 6 hdr \<noteq> ascii ''070701'' \<and> take 6 hdr \<noteq> ascii ''070702'' then Inr (None, r)
      else
        bindR (hexfield hdr 1) (\<lambda>mode.
        bindR (hexfield hdr 6) (\<lambda>filesize.
        bindR (hexfield hdr 11) (\<lambda>namesize.
          let name_padded = div_ceil (110 + namesize) 4 * 4 - 110 in
          bindR (take_exact name_padded r) (\<lambda>(name_raw, r).
            Inr (Some (mode, filesize, trim_start_matches [46, 47] (utf8_lossy (take (namesize - 1) name_raw))), r))))))"

text \<open>The trailer's name.\<close>

definition cpio_trailer :: ustring where
  "cpio_trailer = [84, 82, 65, 73, 76, 69, 82, 33, 33, 33]"

text \<open>The loop over the payload's entries: each takes 110 bytes at least.\<close>

function cpio_find :: "ustring \<Rightarrow> byte list \<Rightarrow> arch_error + byte list" where
  "cpio_find want r =
     (if length r < 110 then Inl ShortArchive
      else
        bindR (cpio_header (take 110 r) (drop 110 r)) (\<lambda>(h, r').
          case h of
            None \<Rightarrow> Inl BadCpioMagic
          | Some (mode, filesize, name) \<Rightarrow>
              if name = cpio_trailer then Inl NoSuchPath
              else if trim_start_matches [47] name = want
              then (if filesize \<le> length r' then Inr (take filesize r') else Inl TruncatedMember)
              else let skip = filesize + (4 - filesize mod 4) mod 4 in
                if skip \<le> length r' \<and> length r' < length r then cpio_find want (drop skip r') else Inl TruncatedMember))"
  by pat_completeness auto
termination by (relation "measure (\<lambda>(want, r). length r)") auto

declare cpio_find.simps [simp del]

text \<open>What each decompressor makes of the payload.\<close>

record payload_codecs =
  pd_gzip :: "byte list \<Rightarrow> byte list"
  pd_xz :: "byte list \<Rightarrow> byte list"
  pd_zstd :: "byte list \<Rightarrow> byte list"
  pd_bzip2 :: "byte list \<Rightarrow> byte list"

definition payload_of :: "payload_codecs \<Rightarrow> byte list \<Rightarrow> arch_error + byte list" where
  "payload_of pd src =
     (let head = take 6 src in
      if take 2 head = [0x1f, 0x8b] then Inr (pd_gzip pd src)
      else if head = [0xfd, 0x37, 0x7a, 0x58, 0x5a, 0] then Inr (pd_xz pd src)
      else if take 4 head = [0x28, 0xb5, 0x2f, 0xfd] then Inr (pd_zstd pd src)
      else if take 3 head = ascii ''BZh'' then Inr (pd_bzip2 pd src)
      else if head = ascii ''070701'' \<or> head = ascii ''070702'' then Inr src
      else Inl UnknownPayload)"

definition archive_extract :: "payload_codecs \<Rightarrow> byte list \<Rightarrow> ustring \<Rightarrow> arch_error + byte list" where
  "archive_extract pd arch path =
     bindR (take_exact 4 arch) (\<lambda>(magic, _).
       ensureR (magic = [0xed, 0xab, 0xee, 0xdb]) NotAnRpm
         (bindR (skip_rpm_headers arch) (\<lambda>r.
            bindR (take_exact 6 r) (\<lambda>_.
              bindR (payload_of pd r) (cpio_find (trim_start_matches [47] path))))))"

subsection \<open>ISO 9660 directory records\<close>

record iso_record =
  ir_lba :: nat
  ir_size :: nat
  ir_is_dir :: bool
  ir_more_extents :: bool
  ir_name :: ustring

text \<open>The Rock Ridge entries of the system use area, whose \<open>NM\<close> entries make up the name.\<close>

function rock_ridge :: "byte list \<Rightarrow> nat \<Rightarrow> nat \<Rightarrow> ustring \<Rightarrow> ustring" where
  "rock_ridge rec len su acc =
     (if su + 4 \<le> len then
        let entry_len = unat (rec ! (su + 2)) in
        if entry_len < 4 \<or> len < su + entry_len then acc
        else rock_ridge rec len (su + entry_len)
               (if window rec su 2 = ascii ''NM'' \<and> 5 < entry_len
                then acc @ utf8_lossy (window rec (su + 5) (entry_len - 5)) else acc)
      else acc)"
  by pat_completeness auto
termination by (relation "measure (\<lambda>(rec, len, su, acc). len - su)") auto

declare rock_ridge.simps [simp del]

fun trim_end_matches :: "'a \<Rightarrow> 'a list \<Rightarrow> 'a list" where
  "trim_end_matches c xs = rev (dropWhile (\<lambda>x. x = c) (rev xs))"

definition parse_iso_record :: "byte list \<Rightarrow> iso_record option" where
  "parse_iso_record rec =
     (let len = unat (rec ! 0) in
      if len < 34 \<or> length rec < len then None
      else let flags = unat (rec ! 25); name_len = unat (rec ! 32) in
        if len < 33 + name_len then None
        else let raw = window rec 33 name_len in
          if raw = [0] \<or> raw = [1] then None
          else
            let name = trim_end_matches 46 (hd (split_on 59 (utf8_lossy raw)));
                rr = rock_ridge rec len (33 + name_len + (1 - name_len mod 2)) [] in
            Some \<lparr>ir_lba = le32 rec 2, ir_size = le32 rec 10, ir_is_dir = odd (flags div 2),
                   ir_more_extents = odd (flags div 128),
                   ir_name = (if rr \<noteq> [] \<and> rr \<noteq> [46] \<and> rr \<noteq> [46, 46] then rr else name)\<rparr>)"

subsection \<open>The zip central directory\<close>

definition SIG_CENTRAL :: nat where "SIG_CENTRAL = 0x02014b50"
definition SIG_EOCD :: nat where "SIG_EOCD = 0x06054b50"
definition SIG_EOCD64 :: nat where "SIG_EOCD64 = 0x06064b50"
definition SIG_LOCATOR :: nat where "SIG_LOCATOR = 0x07064b50"

text \<open>\<open>None\<close> is a signature that is neither a record nor an end. The first record's signature has been
  consumed by the caller.\<close>

function central_loop :: "bool \<Rightarrow> byte list \<Rightarrow> (ustring \<times> nat) list \<Rightarrow> arch_error + (ustring \<times> nat) list option" where
  "central_loop first r cd =
     bindR (if first then Inr (SIG_CENTRAL, r)
            else bindR (take_exact 4 r) (\<lambda>(sig, r). Inr (le_nat sig, r))) (\<lambda>(sig, r1).
       if sig = SIG_EOCD \<or> sig = SIG_EOCD64 \<or> sig = SIG_LOCATOR then Inr (Some cd)
       else if sig \<noteq> SIG_CENTRAL then Inr None
       else
         bindR (take_exact 42 r1) (\<lambda>(rec, r2).
           bindR (take_exact (le16 rec 24) r2) (\<lambda>(name_raw, r3).
             bindR (skip_n (le16 rec 26 + le16 rec 28) r3) (\<lambda>r4.
               let name = utf8_lossy name_raw in
               if length r4 < length r
               then central_loop False r4 (if name \<noteq> [] \<and> last name = 47 then cd else cd @ [(name, le32 rec 12)])
               else Inl ShortArchive))))"
  by pat_completeness auto
termination by (relation "measure (\<lambda>(first, r, cd). length r)") auto

declare central_loop.simps [simp del]

definition reconcile_central_dir :: "byte list \<Rightarrow> (ustring \<times> nat) list \<Rightarrow> arch_error + bool" where
  "reconcile_central_dir r streamed =
     bindR (central_loop True r []) (\<lambda>cd. Inr (case cd of Some cd \<Rightarrow> cd = streamed | None \<Rightarrow> False))"

subsection \<open>Reading back what was laid out\<close>

text \<open>How an rpm is laid out: the lead, the padded signature header, the header, and the payload, whose
  entries are the thirteen fields of eight digits, the name with its terminator, and the data, both
  padded to four bytes.\<close>

definition hex_ascii :: "nat \<Rightarrow> byte" where
  "hex_ascii d = of_nat (if d < 10 then d + 48 else d + 87)"

fun hex_field :: "nat \<Rightarrow> nat \<Rightarrow> byte list" where
  "hex_field 0 n = []"
| "hex_field (Suc k) n = hex_field k (n div 16) @ [hex_ascii (n mod 16)]"

definition pad4 :: "nat \<Rightarrow> byte list" where
  "pad4 n = replicate ((4 - n mod 4) mod 4) 0"

definition newc_entry :: "nat list \<Rightarrow> byte list \<Rightarrow> byte list \<Rightarrow> byte list" where
  "newc_entry fs name data =
     ascii ''070701'' @
     concat (map (hex_field 8) (fs[6 := length data, 11 := Suc (length name)])) @
     (name @ 0 # pad4 (111 + length name)) @ data @ pad4 (length data)"

definition rpm_index :: "byte list \<Rightarrow> byte list list \<Rightarrow> byte list \<Rightarrow> byte list" where
  "rpm_index ver idx store =
     [0x8e, 0xad, 0xe8] @ ver @ rev (nat_le 4 (length idx)) @ rev (nat_le 4 (length store)) @ concat idx @ store"

definition rpm_file :: "byte list \<Rightarrow> byte list \<Rightarrow> byte list \<Rightarrow> byte list \<Rightarrow> byte list \<Rightarrow> byte list" where
  "rpm_file lead sig pad hdr payload = [0xed, 0xab, 0xee, 0xdb] @ lead @ sig @ pad @ hdr @ payload"

text \<open>A well-formed index header, and a well-formed cpio entry.\<close>

definition index_ok :: "byte list \<Rightarrow> byte list list \<Rightarrow> byte list \<Rightarrow> bool" where
  "index_ok ver idx store \<longleftrightarrow>
     length ver = 5 \<and> list_all (\<lambda>e. length e = 16) idx \<and> length idx < 2 ^ 32 \<and> length store < 2 ^ 32"

definition newc_ok :: "nat list \<times> byte list \<times> byte list \<Rightarrow> bool" where
  "newc_ok e = (case e of (fs, name, data) \<Rightarrow>
     length fs = 13 \<and> list_all (\<lambda>f. f < 2 ^ 32) fs \<and> length data < 2 ^ 32 \<and> Suc (length name) < 2 ^ 32)"

fun entry_name :: "nat list \<times> byte list \<times> byte list \<Rightarrow> ustring" where
  "entry_name (fs, name, data) = trim_start_matches [46, 47] (utf8_lossy name)"

lemma length_hex_field [simp]: "length (hex_field k n) = k"
  by (induction k arbitrary: n) simp_all

lemma hex_value_ascii: "d < 16 \<Longrightarrow> hex_value (hex_ascii d) = Some d"
  by (auto simp: hex_value_def hex_ascii_def Let_def unat_of_nat)

lemma hex_digits_append:
  "hex_digits acc (xs @ ys) = (case hex_digits acc xs of Some a \<Rightarrow> hex_digits a ys | None \<Rightarrow> None)"
  by (induction xs arbitrary: acc) (auto split: option.splits)

lemma hex_digits_field: "hex_digits 0 (hex_field k n) = Some (n mod 16 ^ k)"
proof (induction k arbitrary: n)
  case (Suc k)
  have "n mod 16 ^ Suc k = 16 * (n div 16 mod 16 ^ k) + n mod 16"
    by (simp add: mod_mult2_eq)
  then show ?case
    using Suc by (simp add: hex_digits_append hex_value_ascii)
qed simp

lemma hex_field_no_plus: "43 \<notin> set (hex_field k n)"
proof (induction k arbitrary: n)
  case (Suc k)
  have "hex_ascii (n mod 16) \<noteq> 43"
  proof
    assume "hex_ascii (n mod 16) = 43"
    then have "hex_value 43 = Some (n mod 16)" using hex_value_ascii [of "n mod 16"] by simp
    then show False by (simp add: hex_value_def Let_def)
  qed
  then show ?case using Suc by simp
qed simp

lemma from_hex_field: "n < 2 ^ 32 \<Longrightarrow> from_hex (hex_field 8 n) = Some n"
proof -
  assume n: "n < 2 ^ 32"
  obtain b bs where f: "hex_field 8 n = b # bs" by (cases "hex_field 8 n") (auto dest: arg_cong [where f = length])
  have "b \<noteq> 43" using hex_field_no_plus [of 8 n] unfolding f by auto
  moreover have "hex_digits 0 (hex_field 8 n) = Some n" using n by (simp only: hex_digits_field) simp
  ultimately show ?thesis using f by (simp add: from_hex_def Let_def)
qed

lemma ascii_magic [simp]: "length (ascii s) = length s"
  by (simp add: ascii_def)

text \<open>Field \<open>i\<close> of a header is the \<open>i\<close>-th number written.\<close>

lemma hexfield_entry:
  assumes l: "length m = 6" and i: "i < length fs" and n: "fs ! i < 2 ^ 32"
  shows "hexfield (m @ concat (map (hex_field 8) fs)) i = Inr (fs ! i)"
proof -
  have "sum_list (map length (take i (map (hex_field 8) fs))) = i * 8"
    using i by (simp add: take_map o_def sum_list_triv)
  then have "window (concat (map (hex_field 8) fs)) (i * 8) 8 = hex_field 8 (fs ! i)"
    using window_concat_nth [of i "map (hex_field 8) fs"] i by simp
  then have "window (m @ concat (map (hex_field 8) fs)) (6 + i * 8) 8 = hex_field 8 (fs ! i)"
    using l by (simp add: window_append_right)
  then show ?thesis using from_hex_field [OF n] by (simp add: hexfield_def)
qed

lemma length_hex_fields [simp]: "length (concat (map (hex_field k) fs)) = length fs * k"
  by (induction fs) simp_all

lemma pad4_div_ceil: "div_ceil n 4 * 4 = n + length (pad4 n)"
proof -
  have "n mod 4 = 0 \<or> n mod 4 = 1 \<or> n mod 4 = 2 \<or> n mod 4 = 3" by linarith
  moreover have "n mod 4 = 0 \<Longrightarrow> (n + 3) div 4 * 4 = n" "n mod 4 = 1 \<Longrightarrow> (n + 3) div 4 * 4 = n + 3"
    "n mod 4 = 2 \<Longrightarrow> (n + 3) div 4 * 4 = n + 2" "n mod 4 = 3 \<Longrightarrow> (n + 3) div 4 * 4 = n + 1"
    by presburger+
  ultimately have "(n + 3) div 4 * 4 = n + (4 - n mod 4) mod 4" by (elim disjE) simp_all
  then show ?thesis by (simp add: div_ceil_def pad4_def add.commute)
qed

lemma cpio_header_entry:
  assumes ok: "newc_ok (fs, name, data)"
  shows "cpio_header (take 110 (newc_entry fs name data @ rest)) (drop 110 (newc_entry fs name data @ rest)) =
           Inr (Some (fs ! 1, length data, entry_name (fs, name, data)), data @ pad4 (length data) @ rest)"
proof -
  let ?fs = "fs[6 := length data, 11 := Suc (length name)]"
  let ?hdr = "ascii ''070701'' @ concat (map (hex_field 8) ?fs)"
  let ?nm = "name @ 0 # pad4 (111 + length name)"
  have len: "length fs = 13" using ok by (simp add: newc_ok_def)
  have split: "newc_entry fs name data @ rest = ?hdr @ ?nm @ data @ pad4 (length data) @ rest"
    by (simp add: newc_entry_def)
  have h110: "length ?hdr = 110"
    by (simp only: length_append length_hex_fields ascii_magic length_list_update len) simp
  have vals: "?fs ! 1 = fs ! 1" "?fs ! 6 = length data" "?fs ! 11 = Suc (length name)"
    using len by simp_all
  have bounds: "?fs ! 1 < 2 ^ 32" "?fs ! 6 < 2 ^ 32" "?fs ! 11 < 2 ^ 32"
    unfolding vals using ok by (simp_all add: newc_ok_def list_all_length)
  have f: "hexfield ?hdr 1 = Inr (fs ! 1)" "hexfield ?hdr 6 = Inr (length data)" "hexfield ?hdr 11 = Inr (Suc (length name))"
    using hexfield_entry [of "ascii ''070701''" _ ?fs] len bounds vals by simp_all
  have "div_ceil (110 + Suc (length name)) 4 * 4 = 111 + length name + length (pad4 (111 + length name))"
    by (simp add: pad4_div_ceil)
  then have np: "div_ceil (110 + Suc (length name)) 4 * 4 - 110 = length ?nm" by simp
  have magic: "take 6 ?hdr = ascii ''070701''" by simp
  have "cpio_header ?hdr (?nm @ data @ pad4 (length data) @ rest) =
     Inr (Some (fs ! 1, length data, entry_name (fs, name, data)), data @ pad4 (length data) @ rest)"
    unfolding cpio_header_def f magic bindR_simps Let_def np take_exact_def by simp
  then show ?thesis
    unfolding split using h110 by simp
qed

lemma length_newc_entry: "newc_ok (fs, name, data) \<Longrightarrow> 110 \<le> length (newc_entry fs name data)"
  by (simp add: newc_entry_def newc_ok_def)

text \<open>One turn of the search over an entry that was laid out.\<close>

lemma cpio_find_entry:
  assumes ok: "newc_ok (fs, name, data)"
  shows "cpio_find want (newc_entry fs name data @ rest) =
           (if entry_name (fs, name, data) = cpio_trailer then Inl NoSuchPath
            else if trim_start_matches [47] (entry_name (fs, name, data)) = want then Inr data
            else cpio_find want rest)"
proof -
  let ?r = "newc_entry fs name data @ rest"
  have len: "\<not> length ?r < 110" using length_newc_entry [OF ok] by simp
  have shorter: "length (data @ pad4 (length data) @ rest) < length ?r"
    using ok by (simp add: newc_entry_def newc_ok_def)
  have skip: "length data + (4 - length data mod 4) mod 4 = length (data @ pad4 (length data))"
    by (simp add: pad4_def)
  have fits: "length (data @ pad4 (length data)) \<le> length (data @ pad4 (length data) @ rest)" by simp
  have rest: "drop (length (data @ pad4 (length data))) (data @ pad4 (length data) @ rest) = rest" by simp
  have hit: "length data \<le> length (data @ pad4 (length data) @ rest)" "take (length data) (data @ pad4 (length data) @ rest) = data"
    by simp_all
  show ?thesis
    by (subst cpio_find.simps)
      (simp only: len if_False cpio_header_entry [OF ok] bindR_simps case_prod_conv option.case Let_def skip fits shorter
        simp_thms if_True rest hit)
qed

lemma be_nat_field: "n < 2 ^ 32 \<Longrightarrow> be_nat (rev (nat_le 4 n)) = n"
  by (simp add: le_nat_nat_le)

lemma skip_rpm_index:
  assumes ok: "index_ok ver idx store"
    and pad: "length pad = (if b then (8 - (length idx * 16 + length store) mod 8) mod 8 else 0)"
  shows "skip_rpm_loop (b # bs) (rpm_index ver idx store @ pad @ rest) = skip_rpm_loop bs rest"
proof -
  let ?intro = "[0x8e, 0xad, 0xe8] @ ver @ rev (nat_le 4 (length idx)) @ rev (nat_le 4 (length store))"
  have v: "length ver = 5" and i: "length idx < 2 ^ 32" and s: "length store < 2 ^ 32"
    and e: "length (concat idx) = length idx * 16"
    using ok by (simp_all add: index_ok_def length_concat list_all_iff cong: map_cong) (simp add: sum_list_triv)
  have l: "length ?intro = 16" using v by simp
  have split: "rpm_index ver idx store @ pad @ rest = ?intro @ (concat idx @ store) @ pad @ rest"
    by (simp add: rpm_index_def)
  have w: "window ?intro 8 4 = rev (nat_le 4 (length idx))" "window ?intro 12 4 = rev (nat_le 4 (length store))"
    using v by (simp_all add: window_append_right window_append_left window_def)
  have take: "take_exact 16 (?intro @ (concat idx @ store) @ pad @ rest) = Inr (?intro, (concat idx @ store) @ pad @ rest)"
    using l by (simp add: take_exact_def)
  have body: "length idx * 16 + length store = length (concat idx @ store)" using e by simp
  have skip: "skip_n (length idx * 16 + length store) ((concat idx @ store) @ pad @ rest) = Inr (pad @ rest)"
    unfolding body skip_n_def by simp
  have spad: "(if b then skip_n ((8 - (length idx * 16 + length store) mod 8) mod 8) (pad @ rest) else Inr (pad @ rest)) = Inr rest"
    using pad by (cases b) (simp_all add: skip_n_def)
  have m: "take 3 ?intro = [0x8e, 0xad, 0xe8]" by simp
  show ?thesis
    unfolding split skip_rpm_loop.simps take bindR_simps case_prod_conv m ensureR_def Let_def w be_nat_field [OF i] be_nat_field [OF s] skip spad
    by simp
qed

lemma cpio_find_entries:
  assumes "list_all newc_ok es" and "list_all (\<lambda>e. entry_name e \<noteq> cpio_trailer) es"
  shows "cpio_find want (concat (map (\<lambda>(fs, name, data). newc_entry fs name data) es) @ rest) =
           (case find (\<lambda>e. trim_start_matches [47] (entry_name e) = want) es of
              Some (fs, name, data) \<Rightarrow> Inr data | None \<Rightarrow> cpio_find want rest)"
  using assms
proof (induction es)
  case (Cons e es)
  obtain fs name data where e: "e = (fs, name, data)" by (cases e)
  show ?case using Cons by (simp add: e cpio_find_entry)
qed simp

lemma trailer_name: "entry_name (fs, ascii ''TRAILER!!!'', data) = cpio_trailer"
  by (simp only: entry_name.simps) code_simp

text \<open>C40. Extracting a path from an rpm gives the data of the first cpio entry whose name is that path,
  leading slashes aside, and the missing-path error when there is none, whatever the headers hold
  and however the payload is compressed.\<close>

theorem rpm_extract_first:
  assumes lead: "length lead = 92" and sig: "index_ok v1 i1 s1" and hdr: "index_ok v2 i2 s2"
    and pad: "length pad = (8 - (length i1 * 16 + length s1) mod 8) mod 8"
    and es: "list_all newc_ok es" "list_all (\<lambda>e. entry_name e \<noteq> cpio_trailer) es"
    and trailer: "newc_ok (tf, ascii ''TRAILER!!!'', [])"
    and payload: "6 \<le> length payload"
      "payload_of pd payload = Inr (concat (map (\<lambda>(fs, name, data). newc_entry fs name data) es) @
                                    newc_entry tf (ascii ''TRAILER!!!'') [] @ slack)"
  shows "archive_extract pd (rpm_file lead (rpm_index v1 i1 s1) pad (rpm_index v2 i2 s2) payload) path =
           (case find (\<lambda>e. trim_start_matches [47] (entry_name e) = trim_start_matches [47] path) es of
              Some (fs, name, data) \<Rightarrow> Inr data
            | None \<Rightarrow> Inl NoSuchPath)"
proof -
  let ?f = "rpm_file lead (rpm_index v1 i1 s1) pad (rpm_index v2 i2 s2) payload"
  have lead96: "skip_n 96 ?f = Inr (rpm_index v1 i1 s1 @ pad @ rpm_index v2 i2 s2 @ [] @ payload)"
    using lead by (simp add: skip_n_def rpm_file_def)
  have headers: "skip_rpm_headers ?f = Inr payload"
  proof -
    have one: "skip_rpm_loop [True, False] (rpm_index v1 i1 s1 @ pad @ r) = skip_rpm_loop [False] r" for r
      by (rule skip_rpm_index [OF sig]) (simp add: pad)
    have two: "skip_rpm_loop [False] (rpm_index v2 i2 s2 @ [] @ payload) = skip_rpm_loop [] payload"
      by (rule skip_rpm_index [OF hdr]) simp
    show ?thesis unfolding skip_rpm_headers_def lead96 bindR_simps one two by simp
  qed
  have magic: "take_exact 4 ?f = Inr ([0xed, 0xab, 0xee, 0xdb], drop 4 ?f)"
    by (simp add: take_exact_def rpm_file_def)
  have six: "take_exact 6 payload = Inr (take 6 payload, drop 6 payload)"
    using payload(1) by (simp add: take_exact_def)
  have found: "cpio_find want (newc_entry tf (ascii ''TRAILER!!!'') [] @ slack) = Inl NoSuchPath" for want
    by (simp only: cpio_find_entry [OF trailer] trailer_name if_True simp_thms)
  show ?thesis
    unfolding archive_extract_def magic bindR_simps case_prod_conv ensureR_simps headers six payload(2)
      cpio_find_entries [OF es] found
    by (simp only: simp_thms ensureR_simps)
qed

definition plain_codecs :: payload_codecs where
  "plain_codecs = \<lparr>pd_gzip = (\<lambda>b. b), pd_xz = (\<lambda>b. b), pd_zstd = (\<lambda>b. b), pd_bzip2 = (\<lambda>b. b)\<rparr>"

definition sample_entries :: "(nat list \<times> byte list \<times> byte list) list" where
  "sample_entries = [(replicate 13 0, ascii ''./a'', [1]), (replicate 13 0, ascii ''/b'', [2, 3])]"

definition sample_payload :: "byte list" where
  "sample_payload =
     concat (map (\<lambda>(fs, name, data). newc_entry fs name data) sample_entries) @
     newc_entry (replicate 13 0) (ascii ''TRAILER!!!'') []"

lemma rpm_extract_first_witness:
  "archive_extract plain_codecs
     (rpm_file (replicate 92 0) (rpm_index (replicate 5 0) [replicate 16 7] [1, 2, 3]) (replicate 5 0)
       (rpm_index (replicate 5 0) [] [9]) sample_payload) (map of_char ''/b'') = Inr [2, 3]"
proof -
  have p: "6 \<le> length sample_payload"
    "payload_of plain_codecs sample_payload =
       Inr (concat (map (\<lambda>(fs, name, data). newc_entry fs name data) sample_entries) @
            newc_entry (replicate 13 0) (ascii ''TRAILER!!!'') [] @ [])"
    by code_simp+
  have names: "list_all (\<lambda>e. entry_name e \<noteq> cpio_trailer) sample_entries" by code_simp
  have es: "list_all newc_ok sample_entries" "newc_ok (replicate 13 0, ascii ''TRAILER!!!'', [])"
    "index_ok (replicate 5 0) [replicate 16 7] [1, 2, 3]" "index_ok (replicate 5 0) [] [9]"
    by (simp_all add: sample_entries_def newc_ok_def index_ok_def list_all_iff)
  have lens: "length (replicate 92 (0 :: byte)) = 92"
    "length (replicate 5 (0 :: byte)) = (8 - (length [replicate 16 (7 :: byte)] * 16 + length [1, 2, 3 :: byte]) mod 8) mod 8"
    by simp_all
  have f: "(case find (\<lambda>e. trim_start_matches [47] (entry_name e) = trim_start_matches [47] (map of_char ''/b''))
        sample_entries of
      Some (fs, name, data) \<Rightarrow> Inr data | None \<Rightarrow> Inl NoSuchPath) = Inr [2, 3]"
    by code_simp
  show ?thesis
    by (rule trans [OF rpm_extract_first [OF lens(1) es(3,4) lens(2) es(1) names es(2) p] f])
qed

subsection \<open>The central directory, laid out\<close>

text \<open>A record without its signature: the fixed fields, the name, the extra field and comment.\<close>

type_synonym central_entry = "byte list \<times> byte list \<times> byte list"

fun central_ok :: "central_entry \<Rightarrow> bool" where
  "central_ok (rec, name, extra) \<longleftrightarrow>
     length rec = 42 \<and> le16 rec 24 = length name \<and> le16 rec 26 + le16 rec 28 = length extra"

fun central_body :: "central_entry \<Rightarrow> byte list" where
  "central_body (rec, name, extra) = rec @ name @ extra"

fun central_item :: "central_entry \<Rightarrow> (ustring \<times> nat) list" where
  "central_item (rec, name, extra) =
     (let n = utf8_lossy name in if n \<noteq> [] \<and> last n = 47 then [] else [(n, le32 rec 12)])"

lemma sig_field: "n < 2 ^ 32 \<Longrightarrow> take_exact 4 (nat_le 4 n @ r) = Inr (nat_le 4 n, r)" "n < 2 ^ 32 \<Longrightarrow> le_nat (nat_le 4 n) = n"
  by (simp_all add: take_exact_def le_nat_nat_le)

lemma central_loop_record:
  assumes ok: "central_ok e" and sig: "sig = (if first then [] else nat_le 4 SIG_CENTRAL)"
  shows "central_loop first (sig @ central_body e @ r) cd = central_loop False r (cd @ central_item e)"
proof -
  obtain rec name extra where e: "e = (rec, name, extra)" by (cases e) auto
  have l: "length rec = 42" "le16 rec 24 = length name" "le16 rec 26 + le16 rec 28 = length extra"
    using ok by (simp_all add: e)
  have head: "(if first then Inr (SIG_CENTRAL, sig @ central_body e @ r)
      else bindR (take_exact 4 (sig @ central_body e @ r)) (\<lambda>(sig, r). Inr (le_nat sig, r))) =
      Inr (SIG_CENTRAL, central_body e @ r)"
    using sig_field(1) [of SIG_CENTRAL "central_body e @ r"] sig_field(2) [of SIG_CENTRAL]
    by (simp add: sig SIG_CENTRAL_def del: nat_le.simps)
  have no_end: "\<not> (SIG_CENTRAL = SIG_EOCD \<or> SIG_CENTRAL = SIG_EOCD64 \<or> SIG_CENTRAL = SIG_LOCATOR)"
    by (simp add: SIG_CENTRAL_def SIG_EOCD_def SIG_EOCD64_def SIG_LOCATOR_def)
  have takes: "take_exact 42 (central_body e @ r) = Inr (rec, name @ extra @ r)"
    "take_exact (length name) (name @ extra @ r) = Inr (name, extra @ r)"
    "skip_n (length extra) (extra @ r) = Inr r"
    using l by (simp_all add: e take_exact_def skip_n_def)
  have shorter: "length r < length (sig @ central_body e @ r)" using l by (simp add: e)
  show ?thesis
    unfolding e
    by (subst central_loop.simps)
      (simp only: head [unfolded e] bindR_simps case_prod_conv no_end if_False if_True simp_thms takes [unfolded e] l Let_def shorter [unfolded e] central_item.simps
        append_Nil2 if_distrib [of "\<lambda>x. cd @ x"])
qed

lemma central_loop_end:
  assumes "sig = SIG_EOCD \<or> sig = SIG_EOCD64 \<or> sig = SIG_LOCATOR"
  shows "central_loop False (nat_le 4 sig @ r) cd = Inr (Some cd)"
proof -
  have n: "sig < 2 ^ 32" using assms by (auto simp: SIG_EOCD_def SIG_EOCD64_def SIG_LOCATOR_def)
  show ?thesis
    by (subst central_loop.simps) (simp only: if_False sig_field [OF n] bindR_simps case_prod_conv assms if_True)
qed

lemma central_loop_records:
  assumes "list_all central_ok es" and "sig = SIG_EOCD \<or> sig = SIG_EOCD64 \<or> sig = SIG_LOCATOR"
  shows "central_loop False (concat (map (\<lambda>e. nat_le 4 SIG_CENTRAL @ central_body e) es) @ nat_le 4 sig @ r) cd =
           Inr (Some (cd @ concat (map central_item es)))"
  using assms
proof (induction es arbitrary: cd)
  case Nil
  then show ?case by (simp add: central_loop_end)
next
  case (Cons e es)
  then show ?case
    using central_loop_record [of e "nat_le 4 SIG_CENTRAL" False] by (simp del: nat_le.simps)
qed

text \<open>A directory of at least one record, read from behind its first signature, is accepted exactly when
  it lists, directories aside, the names and checksums the stream yielded.\<close>

lemma central_dir_reconciled:
  assumes "list_all central_ok (e # es)" and "sig = SIG_EOCD \<or> sig = SIG_EOCD64 \<or> sig = SIG_LOCATOR"
  shows "reconcile_central_dir
           (central_body e @ concat (map (\<lambda>e. nat_le 4 SIG_CENTRAL @ central_body e) es) @ nat_le 4 sig @ r) streamed =
           Inr (concat (map central_item (e # es)) = streamed)"
  using central_loop_record [of e "[]" True] central_loop_records [of es sig] assms
  by (simp add: reconcile_central_dir_def del: nat_le.simps)

end
