(* ===== verification/Hdx_Check.thy ===== *)
theory Hdx_Check
  imports Hdx_Archive Hdx_Pcluster Hdx_Coord
begin

unbundle bit_operations_syntax

text \<open>
  \<open>src/src/recipe_cmd.rs\<close>, the check of a recipe: a document is followed through its sources table,
  what it needs is looked for among the local blobs, and its nodes are assembled, each verified
  against the digest it states. A document is the JSON value \<open>serde_json\<close> parses; a string is its
  UTF-8 bytes as characters. The document is untrusted, so the recursion over it is bounded by fuel,
  one unit per nested call: the outer \<open>None\<close> of a result is running out of it. Sums on \<open>u64\<close> wrap, as
  in the release profile.
\<close>

subsection \<open>Documents\<close>

datatype json =
    JNull | JBool bool | JNum int | JFloat string | JStr string | JArr "json list" | JObj "(string \<times> json) list"

fun jget :: "json \<Rightarrow> string \<Rightarrow> json" where
  "jget (JObj kvs) k = (case map_of kvs k of Some v \<Rightarrow> v | None \<Rightarrow> JNull)"
| "jget _ k = JNull"

fun is_object :: "json \<Rightarrow> bool" where
  "is_object (JObj _) = True"
| "is_object _ = False"

fun json_str :: "json \<Rightarrow> string option" where
  "json_str (JStr s) = Some s"
| "json_str _ = None"

fun as_array :: "json \<Rightarrow> json list option" where
  "as_array (JArr xs) = Some xs"
| "as_array _ = None"

fun as_u64 :: "json \<Rightarrow> nat option" where
  "as_u64 (JNum i) = (if 0 \<le> i \<and> i < 2 ^ 64 then Some (nat i) else None)"
| "as_u64 _ = None"

fun as_i64 :: "json \<Rightarrow> int option" where
  "as_i64 (JNum i) = (if - (2 ^ 63) \<le> i \<and> i < 2 ^ 63 then Some i else None)"
| "as_i64 _ = None"

definition or_else :: "'a option \<Rightarrow> 'a option \<Rightarrow> 'a option" where
  "or_else a b = (case a of Some x \<Rightarrow> Some x | None \<Rightarrow> b)"

definition unwrap_or :: "'a \<Rightarrow> 'a option \<Rightarrow> 'a" where
  "unwrap_or d a = (case a of Some x \<Rightarrow> x | None \<Rightarrow> d)"

datatype check_error =
    SourceLoop | SourceOutOfRange nat | SliceOutOfRange | Absent string | BadHex | NoResidue | NotANode
  | MissingBlob string | MissingArchive string | Unreadable string | ChangedBlob string | Unextracted string arch_error
  | WrongDigest string string | WrongSize string nat nat | UnknownBuilder string string | UnknownCompressor string
  | NotOneInput | CompressorFailed string | CompressorAborted string | ImplausiblePcluster string
  | PclusterInputs string | ReencodeFailed string pc_error | UnknownNode | CheckPanic
  | NotARecipe | ResidueMissing | ResidueMismatch | ResidueCorrupt | MissingMembers "(string \<times> string \<times> string list) list"

definition needed :: "string \<Rightarrow> 'a option \<Rightarrow> check_error + 'a" where
  "needed what a = (case a of Some x \<Rightarrow> Inr x | None \<Rightarrow> Inl (Absent what))"

definition add64 :: "nat \<Rightarrow> nat \<Rightarrow> nat" where
  "add64 a b = (a + b) mod 2 ^ 64"

definition CHECK_SPOOL_MAX :: nat where "CHECK_SPOOL_MAX = 64 * 2 ^ 20"

subsection \<open>Spools\<close>

datatype spool = SpMem "byte list" | SpFile "byte list"

fun spool_bytes :: "spool \<Rightarrow> byte list" where
  "spool_bytes (SpMem v) = v"
| "spool_bytes (SpFile f) = f"

text \<open>The loop over a file stops at once when the end has wrapped below the start.\<close>

function file_range :: "byte list \<Rightarrow> nat \<Rightarrow> nat \<Rightarrow> check_error + byte list" where
  "file_range f pos fin =
     (if pos < fin then
        let got = window f pos (min (fin - pos) (2 ^ 20)) in
        if got = [] then Inl SliceOutOfRange
        else bindR (file_range f (pos + length got) fin) (\<lambda>rest. Inr (got @ rest))
      else Inr [])"
  by pat_completeness auto
termination by (relation "measure (\<lambda>(f, pos, fin). fin - pos)") (auto intro: diff_less_mono2)

declare file_range.simps [simp del]

fun spool_range :: "spool \<Rightarrow> nat \<Rightarrow> nat \<Rightarrow> check_error + byte list" where
  "spool_range (SpMem v) start len =
     (let lo = min start (length v); hi = min (add64 start len) (length v) in
      if (hi + 2 ^ 64 - lo) mod 2 ^ 64 \<noteq> len then Inl SliceOutOfRange
      else if hi < lo then Inl CheckPanic
      else Inr (window v lo (hi - lo)))"
| "spool_range (SpFile f) start len = file_range f start (add64 start len)"

subsection \<open>The document's nodes\<close>

fun resolve_loop :: "nat \<Rightarrow> json \<Rightarrow> json list \<Rightarrow> check_error + json" where
  "resolve_loop 0 n sources = Inl SourceLoop"
| "resolve_loop (Suc k) n sources =
     (case as_u64 (jget n ''source'') of
        None \<Rightarrow> Inr n
      | Some i \<Rightarrow> if i < length sources then resolve_loop k (sources ! i) sources else Inl (SourceOutOfRange i))"

definition resolve_source :: "json \<Rightarrow> json list \<Rightarrow> check_error + json" where
  "resolve_source node sources = resolve_loop (Suc (length sources)) node sources"

definition node_sha256 :: "json \<Rightarrow> check_error + string" where
  "node_sha256 node =
     (if is_object (jget node ''ref'')
      then needed ''ref without sha256'' (json_str (jget (jget (jget node ''ref'') ''digests'') ''sha256''))
      else if is_object (jget node ''build'')
      then needed ''build without output sha256'' (json_str (jget (jget (jget node ''build'') ''output'') ''sha256''))
      else if is_object (jget node ''extract'')
      then needed ''extract without output sha256'' (json_str (jget (jget (jget node ''extract'') ''output'') ''sha256''))
      else Inl NotANode)"

definition node_name :: "json \<Rightarrow> string" where
  "node_name node =
     unwrap_or ''?''
       (or_else (json_str (jget (jget node ''ref'') ''name''))
         (or_else (json_str (jget (jget node ''build'') ''name'')) (json_str (jget (jget node ''extract'') ''name''))))"

text \<open>Fuelled results in sequence; the errors are those of the component.\<close>

type_synonym 'a fuelled = "(check_error + 'a) option"

definition bindF :: "('e + 'a) option \<Rightarrow> ('a \<Rightarrow> ('e + 'b) option) \<Rightarrow> ('e + 'b) option" where
  "bindF m f = (case m of None \<Rightarrow> None | Some (Inl e) \<Rightarrow> Some (Inl e) | Some (Inr x) \<Rightarrow> f x)"

definition okF :: "'a \<Rightarrow> ('e + 'a) option" where
  "okF x = Some (Inr x)"

definition failF :: "'e \<Rightarrow> ('e + 'a) option" where
  "failF e = Some (Inl e)"

definition checkF :: "bool \<Rightarrow> 'e \<Rightarrow> ('e + 'a) option \<Rightarrow> ('e + 'a) option" where
  "checkF c e k = (if c then k else failF e)"

subsection \<open>What is missing\<close>

type_synonym missing = "(string \<times> string \<times> string list) list"

definition claim_urls :: "json \<Rightarrow> string list" where
  "claim_urls r =
     (case as_array (jget r ''claims'') of
        None \<Rightarrow> []
      | Some cs \<Rightarrow> List.map_filter (\<lambda>c. json_str (jget c ''url'')) cs)"

definition missing_ref :: "(string \<rightharpoonup> 'p) \<Rightarrow> json \<Rightarrow> missing \<Rightarrow> missing" where
  "missing_ref blobs r missing =
     (let sha = unwrap_or [] (json_str (jget (jget r ''digests'') ''sha256'')) in
      if blobs sha \<noteq> None \<or> list_ex (\<lambda>(_, s, _). s = sha) missing then missing
      else missing @ [(unwrap_or ''?'' (json_str (jget r ''name'')), sha, claim_urls r)])"

text \<open>Whether the node's stated output is among the blobs.\<close>

definition output_present :: "(string \<rightharpoonup> 'p) \<Rightarrow> json \<Rightarrow> bool" where
  "output_present blobs b =
     (case json_str (jget (jget b ''output'') ''sha256'') of None \<Rightarrow> False | Some sha \<Rightarrow> blobs sha \<noteq> None)"

fun collect_inputs ::
  "(json \<Rightarrow> missing \<Rightarrow> missing fuelled) \<Rightarrow> json list \<Rightarrow> json list \<Rightarrow> missing \<Rightarrow> missing fuelled" where
  "collect_inputs rec sources [] missing = okF missing"
| "collect_inputs rec sources (input # inputs) missing =
     (let sl = jget input ''slice'' in
      bindF (if is_object sl
             then if is_object (jget sl ''of'') then okF (jget sl ''of'') else Some (resolve_source sl sources)
             else okF input) (\<lambda>inner.
        bindF (if is_object (jget inner ''literal'') then okF missing else rec inner missing)
          (collect_inputs rec sources inputs)))"

definition collect_node ::
  "(json \<Rightarrow> missing \<Rightarrow> missing fuelled) \<Rightarrow> json list \<Rightarrow> (string \<rightharpoonup> 'p) \<Rightarrow> json \<Rightarrow> missing \<Rightarrow> missing fuelled" where
  "collect_node rec sources blobs node missing =
     bindF (Some (resolve_source node sources)) (\<lambda>node.
       if is_object (jget node ''ref'') then okF (missing_ref blobs (jget node ''ref'') missing)
       else if is_object (jget node ''extract'')
       then if output_present blobs (jget node ''extract'') then okF missing
            else rec (jget (jget node ''extract'') ''archive'') missing
       else if is_object (jget node ''build'')
       then if output_present blobs (jget node ''build'') then okF missing
            else collect_inputs rec sources (unwrap_or [] (as_array (jget (jget node ''build'') ''inputs''))) missing
       else okF missing)"

primrec collect_missing :: "nat \<Rightarrow> json list \<Rightarrow> (string \<rightharpoonup> 'p) \<Rightarrow> json \<Rightarrow> missing \<Rightarrow> missing fuelled" where
  "collect_missing 0 sources blobs node missing = None"
| "collect_missing (Suc d) sources blobs node missing =
     collect_node (collect_missing d sources blobs) sources blobs node missing"

subsection \<open>Assembling\<close>

text \<open>
  What the check runs on: SHA-256, the index of the blob directory and what its files hold when they
  are opened, the sources table, the residue, and the external coders. A compressor is what it
  writes, chunk by chunk, and whether it succeeds.
\<close>

record check_env =
  ce_sha :: "byte list \<Rightarrow> byte list"
  ce_blobs :: "string \<rightharpoonup> string"
  ce_file :: "string \<Rightarrow> byte list option"
  ce_sources :: "json list"
  ce_residue :: "spool option"
  ce_codecs :: payload_codecs
  ce_gzip :: "gnu_gzip \<Rightarrow> byte list \<Rightarrow> byte list list \<times> bool"
  ce_zstd :: "zstd \<Rightarrow> byte list \<Rightarrow> byte list list \<times> bool"
  ce_lzma :: lzma_encoder

type_synonym built = "string \<rightharpoonup> spool"

text \<open>What is fed, the count that is returned, and the spools built on the way.\<close>

type_synonym assembled = "(byte list \<times> nat) \<times> built"
type_synonym assembler = "json \<Rightarrow> built \<Rightarrow> assembled fuelled"

definition hex_sha :: "check_env \<Rightarrow> byte list \<Rightarrow> string" where
  "hex_sha env bs = hex_lower (ce_sha env bs)"

definition is_hexlower :: "char \<Rightarrow> bool" where
  "is_hexlower c \<longleftrightarrow> (let n = of_char c :: nat in (48 \<le> n \<and> n \<le> 57) \<or> (97 \<le> n \<and> n \<le> 102))"

definition hexlower_decode :: "string \<Rightarrow> check_error + byte list" where
  "hexlower_decode s = (if even (length s) \<and> list_all is_hexlower s then Inr (hex_pairs s) else Inl BadHex)"

definition opened :: "check_env \<Rightarrow> string \<Rightarrow> check_error + byte list" where
  "opened env path = (case ce_file env path of None \<Rightarrow> Inl (Unreadable path) | Some bs \<Rightarrow> Inr bs)"

text \<open>The node that stands for a blob in place of the subtree it is the output of.\<close>

definition as_ref :: "string \<Rightarrow> json \<Rightarrow> json" where
  "as_ref sha name = JObj [(''ref'', JObj [(''digests'', JObj [(''sha256'', JStr sha)]), (''name'', name)])]"

definition materialize :: "assembler \<Rightarrow> check_env \<Rightarrow> json \<Rightarrow> built \<Rightarrow> (spool \<times> built) fuelled" where
  "materialize rec env node built =
     bindF (Some (resolve_source node (ce_sources env))) (\<lambda>node.
       let sz = unwrap_or 0
             (or_else (as_u64 (jget (jget (jget node ''build'') ''output'') ''size''))
               (or_else (as_u64 (jget (jget node ''ref'') ''size''))
                 (as_u64 (jget (jget (jget node ''extract'') ''output'') ''size'')))) in
       bindF (rec node built) (\<lambda>((bs, n), built).
         okF (if CHECK_SPOOL_MAX < sz then SpFile bs else SpMem bs, built)))"

definition assemble_literal :: "check_env \<Rightarrow> json \<Rightarrow> check_error + byte list \<times> nat" where
  "assemble_literal env l =
     (case json_str (jget l ''inline_hex'') of
        Some hexs \<Rightarrow> bindR (hexlower_decode hexs) (\<lambda>bs. Inr (bs, length bs))
      | None \<Rightarrow>
          bindR (needed ''literal offset'' (as_u64 (jget l ''residue_offset''))) (\<lambda>off.
          bindR (needed ''literal len'' (as_u64 (jget l ''len''))) (\<lambda>len.
          case ce_residue env of
            None \<Rightarrow> Inl NoResidue
          | Some res \<Rightarrow> bindR (spool_range res off len) (\<lambda>bs. Inr (bs, len)))))"

definition assemble_slice :: "assembler \<Rightarrow> check_env \<Rightarrow> json \<Rightarrow> built \<Rightarrow> assembled fuelled" where
  "assemble_slice rec env sl built =
     bindF (if is_object (jget sl ''of'') then okF (jget sl ''of'') else Some (resolve_source sl (ce_sources env))) (\<lambda>target.
     bindF (Some (needed ''slice from'' (as_u64 (jget sl ''from'')))) (\<lambda>start.
     bindF (Some (needed ''slice len'' (as_u64 (jget sl ''len'')))) (\<lambda>len.
     bindF (Some (node_sha256 target)) (\<lambda>sha.
       case ce_blobs env sha of
         Some p \<Rightarrow>
           bindF (Some (opened env p)) (\<lambda>content.
           bindF (Some (spool_range (SpFile content) start len)) (\<lambda>bs. okF ((bs, len), built)))
       | None \<Rightarrow>
           bindF (if built sha = None
                  then bindF (materialize rec env target built) (\<lambda>(spool, built). okF (spool, built(sha \<mapsto> spool)))
                  else okF (the (built sha), built)) (\<lambda>(spool, built).
           bindF (Some (spool_range spool start len)) (\<lambda>bs. okF ((bs, len), built)))))))"

definition assemble_extract :: "assembler \<Rightarrow> check_env \<Rightarrow> json \<Rightarrow> built \<Rightarrow> assembled fuelled" where
  "assemble_extract rec env node built =
     (let e = jget node ''extract''; name = node_name node in
      bindF (Some (needed ''extract sha256'' (json_str (jget (jget e ''output'') ''sha256'')))) (\<lambda>want.
      bindF (Some (needed ''extract size'' (as_u64 (jget (jget e ''output'') ''size'')))) (\<lambda>sz.
        if ce_blobs env want \<noteq> None then rec (as_ref want (jget e ''name'')) built
        else
          bindF (Some (resolve_source (jget e ''archive'') (ce_sources env))) (\<lambda>archive.
          bindF (Some (node_sha256 archive)) (\<lambda>asha.
            case ce_blobs env asha of
              None \<Rightarrow> failF (MissingArchive name)
            | Some apath \<Rightarrow>
                bindF (Some (needed ''extract path'' (json_str (jget e ''path'')))) (\<lambda>path.
                bindF (Some (opened env apath)) (\<lambda>content.
                  case archive_extract (ce_codecs env) content (utf8_lossy (ascii path)) of
                    Inl err \<Rightarrow> failF (Unextracted name err)
                  | Inr bs \<Rightarrow>
                      checkF (hex_sha env bs = want) (WrongDigest name (hex_sha env bs))
                      (checkF (length bs = sz) (WrongSize name (length bs) sz)
                        (okF ((bs, length bs), built))))))))))"

definition assemble_ref :: "check_env \<Rightarrow> json \<Rightarrow> built \<Rightarrow> assembled fuelled" where
  "assemble_ref env node built =
     bindF (Some (needed ''ref sha256'' (json_str (jget (jget (jget node ''ref'') ''digests'') ''sha256'')))) (\<lambda>sha.
       case ce_blobs env sha of
         None \<Rightarrow> failF (MissingBlob (node_name node))
       | Some p \<Rightarrow>
           bindF (Some (opened env p)) (\<lambda>bs.
             checkF (hex_sha env bs = sha) (ChangedBlob p) (okF ((bs, length bs), built))))"

text \<open>The digest and, where it is stated, the size of what a build gave.\<close>

definition verify_output :: "check_env \<Rightarrow> string \<Rightarrow> json \<Rightarrow> string \<Rightarrow> byte list \<Rightarrow> nat \<Rightarrow> built \<Rightarrow> assembled fuelled" where
  "verify_output env name b sha bs n built =
     checkF (hex_sha env bs = sha) (WrongDigest name (hex_sha env bs))
       (case as_u64 (jget (jget b ''output'') ''size'') of
          None \<Rightarrow> okF ((bs, n), built)
        | Some sz \<Rightarrow> checkF (n = sz) (WrongSize name n sz) (okF ((bs, n), built)))"

definition build_name :: "json \<Rightarrow> string" where
  "build_name b = unwrap_or ''?'' (json_str (jget b ''name''))"

fun sole :: "json list \<Rightarrow> check_error + json" where
  "sole [x] = Inr x"
| "sole _ = Inl NotOneInput"

text \<open>The sink of both compressors takes everything.\<close>

definition take_all :: "(byte list, check_error) sink" where
  "take_all s b = (s @ b, Inr True)"

definition assemble_gzip :: "assembler \<Rightarrow> check_env \<Rightarrow> json \<Rightarrow> string \<Rightarrow> built \<Rightarrow> assembled fuelled" where
  "assemble_gzip rec env b sha built =
     (let name = build_name b; params = jget b ''params'' in
      bindF (Some (needed ''gzip@0 compressor name'' (json_str (jget params ''compressor'')))) (\<lambda>cname.
        case gnu_parse cname of
          None \<Rightarrow> failF (UnknownCompressor cname)
        | Some gz \<Rightarrow>
            bindF (Some (needed ''gzip@0 header_hex'' (json_str (jget params ''header_hex'')))) (\<lambda>hexs.
            bindF (Some (hexlower_decode hexs)) (\<lambda>header.
            bindF (Some (needed ''build inputs'' (as_array (jget b ''inputs'')))) (\<lambda>inputs.
            bindF (Some (sole inputs)) (\<lambda>input.
            bindF (materialize rec env input built) (\<lambda>(spool, built).
              let (chunks, ok) = ce_gzip env gz (spool_bytes spool) in
              case gzip_body take_all chunks ok header of
                (bs, Inl e) \<Rightarrow> failF (CompressorFailed name)
              | (bs, Inr complete) \<Rightarrow>
                  checkF complete (CompressorAborted name) (verify_output env name b sha bs (length bs) built))))))))"

definition zstd_params :: "json \<Rightarrow> check_error + zstd" where
  "zstd_params p =
     bindR (needed ''zstd@0 level'' (as_i64 (jget p ''level''))) (\<lambda>level.
       Inr \<lparr>zs_level = signed_take_bit 31 level, zs_single_thread = (jget p ''single_thread'' = JBool True),
            zs_checksum = (jget p ''checksum'' \<noteq> JBool False), zs_content_size = (jget p ''content_size'' = JBool True)\<rparr>)"

definition assemble_zstd :: "assembler \<Rightarrow> check_env \<Rightarrow> json \<Rightarrow> string \<Rightarrow> built \<Rightarrow> assembled fuelled" where
  "assemble_zstd rec env b sha built =
     (let name = build_name b in
      bindF (Some (zstd_params (jget b ''params''))) (\<lambda>zs.
      bindF (Some (needed ''build inputs'' (as_array (jget b ''inputs'')))) (\<lambda>inputs.
      bindF (Some (sole inputs)) (\<lambda>input.
      bindF (materialize rec env input built) (\<lambda>(spool, built).
        let (chunks, ok) = ce_zstd env zs (spool_bytes spool) in
        case zstd_body take_all chunks ok [] of
          (bs, Inl e) \<Rightarrow> failF (CompressorFailed name)
        | (bs, Inr complete) \<Rightarrow>
            checkF complete (CompressorAborted name) (verify_output env name b sha bs (length bs) built))))))"

fun pcluster_inputs :: "assembler \<Rightarrow> string \<Rightarrow> json list \<Rightarrow> byte list \<Rightarrow> built \<Rightarrow> (byte list \<times> built) fuelled" where
  "pcluster_inputs rec name [] acc built = okF (acc, built)"
| "pcluster_inputs rec name (i # is) acc built =
     bindF (rec i built) (\<lambda>((bs, n), built).
       checkF (length (acc @ bs) \<le> PCLUSTER_MAX_DSIZE + ENCODE_MARGIN) (PclusterInputs name)
         (pcluster_inputs rec name is (acc @ bs) built))"

definition assemble_microlzma :: "assembler \<Rightarrow> check_env \<Rightarrow> json \<Rightarrow> string \<Rightarrow> built \<Rightarrow> assembled fuelled" where
  "assemble_microlzma rec env b sha built =
     (let name = build_name b; p = jget b ''params'' in
      bindF (Some (needed ''microlzma@0 preset'' (as_u64 (jget p ''preset'')))) (\<lambda>pre.
      bindF (Some (needed ''microlzma@0 dict_size'' (as_u64 (jget p ''dict_size'')))) (\<lambda>dict.
      bindF (Some (needed ''microlzma@0 output size'' (as_u64 (jget (jget b ''output'') ''size'')))) (\<lambda>sz.
        let preset = (pre mod 2 ^ 32) OR (if jget p ''extreme'' = JBool True then LZMA_PRESET_EXTREME else 0);
            pad = unwrap_or 0 (as_u64 (jget p ''pad'')) in
        checkF (pad < sz \<and> sz \<le> PCLUSTER_MAX_SIZE) (ImplausiblePcluster name)
          (bindF (Some (needed ''build inputs'' (as_array (jget b ''inputs'')))) (\<lambda>inputs.
           bindF (pcluster_inputs rec name inputs [] built) (\<lambda>(input, built).
             case rebuild_pcluster (ce_lzma env) sz pad preset (dict mod 2 ^ 32) input of
               Inl e \<Rightarrow> failF (ReencodeFailed name e)
             | Inr bs \<Rightarrow>
                 checkF (hex_sha env bs = sha) (WrongDigest name (hex_sha env bs)) (okF ((bs, sz), built)))))))))"

fun splice_inputs :: "assembler \<Rightarrow> json list \<Rightarrow> byte list \<Rightarrow> nat \<Rightarrow> built \<Rightarrow> assembled fuelled" where
  "splice_inputs rec [] acc n built = okF ((acc, n), built)"
| "splice_inputs rec (i # is) acc n built =
     bindF (rec i built) (\<lambda>((bs, k), built). splice_inputs rec is (acc @ bs) (add64 n k) built)"

definition assemble_build :: "assembler \<Rightarrow> check_env \<Rightarrow> json \<Rightarrow> built \<Rightarrow> assembled fuelled" where
  "assemble_build rec env node built =
     (let b = jget node ''build'' in
      bindF (Some (node_sha256 node)) (\<lambda>sha.
        if ce_blobs env sha \<noteq> None then rec (as_ref sha (jget b ''name'')) built
        else
          let builder = unwrap_or ''splice@0'' (json_str (jget b ''builder'')) in
          if builder = ''splice@0''
          then bindF (Some (needed ''build inputs'' (as_array (jget b ''inputs'')))) (\<lambda>inputs.
               bindF (splice_inputs rec inputs [] 0 built) (\<lambda>((bs, n), built).
                 verify_output env (node_name node) b sha bs n built))
          else if builder = ''gzip@0'' then assemble_gzip rec env b sha built
          else if builder = ''zstd@0'' then assemble_zstd rec env b sha built
          else if builder = ''microlzma@0'' then assemble_microlzma rec env b sha built
          else failF (UnknownBuilder (node_name node) builder)))"

definition assemble_node :: "assembler \<Rightarrow> check_env \<Rightarrow> json \<Rightarrow> built \<Rightarrow> assembled fuelled" where
  "assemble_node rec env node built =
     bindF (Some (resolve_source node (ce_sources env))) (\<lambda>node.
       if is_object (jget node ''literal'')
       then bindF (Some (assemble_literal env (jget node ''literal''))) (\<lambda>r. okF (r, built))
       else if is_object (jget node ''slice'') then assemble_slice rec env (jget node ''slice'') built
       else if is_object (jget node ''extract'') then assemble_extract rec env node built
       else if is_object (jget node ''ref'') then assemble_ref env node built
       else if is_object (jget node ''build'') then assemble_build rec env node built
       else failF UnknownNode)"

primrec assemble :: "nat \<Rightarrow> check_env \<Rightarrow> json \<Rightarrow> built \<Rightarrow> assembled fuelled" where
  "assemble 0 env node built = None"
| "assemble (Suc d) env node built = assemble_node (assemble d env) env node built"

subsection \<open>The check\<close>

text \<open>The index of the blob directory, its files in the order the threads insert them.\<close>

definition index_blobs :: "(byte list \<Rightarrow> byte list) \<Rightarrow> (string \<times> byte list) list \<Rightarrow> (string \<rightharpoonup> string)" where
  "index_blobs sha files = foldl (\<lambda>m (p, content). m(hex_lower (sha content) \<mapsto> p)) Map.empty files"

text \<open>The sidecar next to the document, and what zstd decodes it to.\<close>

definition open_residue ::
  "(byte list \<Rightarrow> byte list) \<Rightarrow> (byte list \<Rightarrow> byte list option) \<Rightarrow> byte list option \<Rightarrow> json \<Rightarrow> check_error + spool option" where
  "open_residue sha unzstd sidecar doc =
     (let r = jget doc ''residue'' in
      if \<not> is_object r then Inr None
      else
        bindR (needed ''residue sha256'' (json_str (jget r ''sha256''))) (\<lambda>want.
          case sidecar of
            None \<Rightarrow> Inl ResidueMissing
          | Some bs \<Rightarrow>
              ensureR (hex_lower (sha bs) = want) ResidueMismatch
                (let raw_len = unwrap_or (length bs) (as_u64 (jget r ''uncompressed_size'')) in
                 if jget r ''compression'' = JStr ''zstd''
                 then (case unzstd bs of
                         None \<Rightarrow> Inl ResidueCorrupt
                       | Some raw \<Rightarrow> Inr (Some (if raw_len \<le> CHECK_SPOOL_MAX then SpMem raw else SpFile raw)))
                 else Inr (Some (SpMem bs)))))"

text \<open>\<open>env\<close> holds the coders and the blob directory; the document gives its sources and residue.\<close>

definition check ::
  "nat \<Rightarrow> check_env \<Rightarrow> (byte list \<Rightarrow> byte list option) \<Rightarrow> byte list option \<Rightarrow> json \<Rightarrow> (byte list \<times> nat) fuelled" where
  "check d env unzstd sidecar doc =
     checkF (jget doc ''hdx_recipe'' = JStr ''0'' \<or> jget doc ''hdx_recipe'' = JStr ''1'') NotARecipe
       (let sources = unwrap_or [] (as_array (jget doc ''sources'')); root = jget doc ''root'' in
        bindF (Some (open_residue (ce_sha env) unzstd sidecar doc)) (\<lambda>residue.
        bindF (collect_missing d sources (ce_blobs env) root []) (\<lambda>missing.
        checkF (missing = []) (MissingMembers missing)
          (let env = env\<lparr>ce_sources := sources, ce_residue := residue\<rparr> in
           bindF (assemble d env root Map.empty) (\<lambda>((bs, n), built).
           bindF (Some (node_sha256 root)) (\<lambda>want.
             checkF (hex_sha env bs = want) (WrongDigest ''rebuild'' (hex_sha env bs)) (okF (bs, n))))))))"

end
