(* ===== verification/Hdx_Checked.thy ===== *)
theory Hdx_Checked
  imports Hdx_Check
begin

text \<open>
  What the check of a recipe guarantees: source indirections are followed exactly, an assembled node
  has the digest it states, and spools cached on the way are keyed by their own digests.
\<close>

named_theorems fuelled_simps \<open>results of the fuelled operations\<close>

lemma bindF_Inr [fuelled_simps]: "bindF m f = Some (Inr y) \<longleftrightarrow> (\<exists>x. m = Some (Inr x) \<and> f x = Some (Inr y))"
  by (auto simp: bindF_def split: option.splits sum.splits)

lemma bindF_Inl [fuelled_simps]:
  "bindF m f = Some (Inl e) \<longleftrightarrow> m = Some (Inl e) \<or> (\<exists>x. m = Some (Inr x) \<and> f x = Some (Inl e))"
  by (auto simp: bindF_def split: option.splits sum.splits)

lemma bindF_None [fuelled_simps]: "bindF m f = None \<longleftrightarrow> m = None \<or> (\<exists>x. m = Some (Inr x) \<and> f x = None)"
  by (auto simp: bindF_def split: option.splits sum.splits)

lemma bindF_simps [simp]:
  "bindF None f = None" "bindF (Some (Inl e)) f = Some (Inl e)" "bindF (Some (Inr x)) f = f x" "bindF (okF x) f = f x"
  by (simp_all add: bindF_def okF_def)

lemma okF_simps [fuelled_simps]: "okF x = Some (Inr y) \<longleftrightarrow> x = y" "okF x \<noteq> Some (Inl e)" "okF x \<noteq> None"
  by (simp_all add: okF_def)

lemma failF_simps [fuelled_simps]: "failF e \<noteq> Some (Inr y)" "failF e = Some (Inl e') \<longleftrightarrow> e = e'" "failF e \<noteq> None"
  by (simp_all add: failF_def)

lemma checkF_simps [fuelled_simps]:
  "checkF c e k = Some (Inr y) \<longleftrightarrow> c \<and> k = Some (Inr y)"
  "checkF c e k = Some (Inl e') \<longleftrightarrow> (\<not> c \<and> e = e') \<or> (c \<and> k = Some (Inl e'))"
  "checkF c e k = None \<longleftrightarrow> c \<and> k = None"
  by (auto simp: checkF_def failF_def)

lemma caseF_simps [fuelled_simps]:
  "(case r of Inl e \<Rightarrow> failF (h e) | Inr x \<Rightarrow> f x) = Some (Inr y) \<longleftrightarrow> (\<exists>x. r = Inr x \<and> f x = Some (Inr y))"
  "(case a of None \<Rightarrow> failF k | Some x \<Rightarrow> g x) = Some (Inr y) \<longleftrightarrow> (\<exists>x. a = Some x \<and> g x = Some (Inr y))"
  by (auto simp: failF_def split: sum.splits option.splits)

lemma needed_simps [fuelled_simps]:
  "needed w a = Inr x \<longleftrightarrow> a = Some x" "needed w a = Inl e \<longleftrightarrow> a = None \<and> e = Absent w"
  by (auto simp: needed_def split: option.splits)

subsection \<open>Ranges of a spool\<close>

lemma file_range_exact:
  "pos \<le> fin \<Longrightarrow> file_range f pos fin =
     (if fin \<le> length f \<or> fin = pos then Inr (window f pos (fin - pos)) else Inl SliceOutOfRange)"
proof (induction f pos fin rule: file_range.induct)
  case (1 f pos fin)
  let ?w = "min (fin - pos) (2 ^ 20)"
  let ?got = "window f pos ?w"
  show ?case
  proof (cases "pos < fin")
    case False
    then have "pos = fin" using 1(2) by simp
    then show ?thesis by (simp add: file_range.simps [of f fin fin] window_0_len)
  next
    case pos: True
    show ?thesis
    proof (cases "?got = []")
      case True
      then have "length f \<le> pos" using pos by (auto simp: window_def min_def split: if_splits)
      then show ?thesis using pos True by (simp add: file_range.simps [of f pos] Let_def)
    next
      case False
      have at: "pos < length f" using False by (auto simp: window_def)
      have l: "length ?got = min ?w (length f - pos)" by (simp add: length_window)
      have le: "pos + length ?got \<le> fin" using l pos by (auto simp: min_def)
      note ih = 1(1) [OF pos refl False le]
      have split: "window f pos (fin - pos) = ?got @ window f (pos + length ?got) (fin - (pos + length ?got))"
        if "fin \<le> length f"
      proof -
        have e: "length ?got = ?w" using that l pos by simp
        have w: "?w + (fin - pos - ?w) = fin - pos" by simp
        show ?thesis
          using window_append [of f pos ?w "fin - pos - ?w"] unfolding e w by (simp only: diff_diff_left)
      qed
      have out: "file_range f pos fin = bindR (file_range f (pos + length ?got) fin) (\<lambda>rest. Inr (?got @ rest))"
        using pos False by (simp add: file_range.simps [of f pos] Let_def)
      show ?thesis
      proof (cases "fin \<le> length f")
        case True
        then show ?thesis using out ih split by simp
      next
        case False
        then have "pos + length ?got \<noteq> fin" using l at pos by (auto simp: min_def split: if_splits)
        then show ?thesis using False out ih pos by simp
      qed
    qed
  qed
qed

lemma wrap_diff: "(a :: nat) \<le> b \<Longrightarrow> b - a < m \<Longrightarrow> (b + m - a) mod m = b - a"
proof -
  assume ab: "a \<le> b" "b - a < m"
  then have "b + m - a = (b - a) + m" by simp
  then show ?thesis using ab(2) by (simp only: mod_add_self2 mod_less)
qed

lemma spool_range_exact:
  assumes "start + len < 2 ^ 64"
  shows "spool_range sp start len =
           (if start + len \<le> length (spool_bytes sp) \<or> len = 0 then Inr (window (spool_bytes sp) start len)
            else Inl SliceOutOfRange)"
proof (cases sp)
  case (SpFile f)
  then show ?thesis using assms file_range_exact [of start "start + len" f] by (simp add: add64_def)
next
  case (SpMem v)
  let ?lo = "min start (length v)" and ?hi = "min (start + len) (length v)"
  have le: "?lo \<le> ?hi" "?hi - ?lo < 2 ^ 64" using assms by simp_all
  note m = wrap_diff [OF le]
  have a: "add64 start len = start + len" using assms by (simp add: add64_def)
  have "spool_range sp start len =
      (if ?hi - ?lo \<noteq> len then Inl SliceOutOfRange else Inr (window v ?lo (?hi - ?lo)))"
  proof -
    have nl: "\<not> ?hi < ?lo" using le(1) by simp
    show ?thesis unfolding SpMem spool_range.simps Let_def a m by (simp only: nl if_False)
  qed
  moreover have "window v ?lo len = window v start len" if "?hi - ?lo = len"
    using that by (cases "start \<le> length v") (auto simp: window_def min_def split: if_splits)
  ultimately show ?thesis using SpMem by (auto simp: min_def)
qed

lemma spool_range_length:
  "start + len < 2 ^ 64 \<Longrightarrow> spool_range sp start len = Inr bs \<Longrightarrow> length bs = len"
  by (auto simp: spool_range_exact length_window window_0_len split: if_splits)

subsection \<open>Following sources\<close>

text \<open>One step of indirection, and the chain of them.\<close>

definition indirect :: "json list \<Rightarrow> json \<Rightarrow> json option" where
  "indirect sources n = (case as_u64 (jget n ''source'') of
     Some i \<Rightarrow> if i < length sources then Some (sources ! i) else None | None \<Rightarrow> None)"

fun chain :: "json list \<Rightarrow> nat \<Rightarrow> json \<Rightarrow> json option" where
  "chain sources 0 n = Some n"
| "chain sources (Suc k) n = (case indirect sources n of Some m \<Rightarrow> chain sources k m | None \<Rightarrow> None)"

lemma chain_add: "chain sources (a + b) n = (case chain sources a n of Some m \<Rightarrow> chain sources b m | None \<Rightarrow> None)"
  by (induction a arbitrary: n) (auto split: option.splits)

lemma resolve_loop_stops:
  "j \<le> k \<Longrightarrow> chain sources j n = Some m \<Longrightarrow> indirect sources m = None \<Longrightarrow>
     resolve_loop (Suc k) n sources =
       (case as_u64 (jget m ''source'') of None \<Rightarrow> Inr m | Some i \<Rightarrow> Inl (SourceOutOfRange i))"
proof (induction j arbitrary: n k)
  case 0
  then show ?case by (auto simp: indirect_def split: option.splits if_splits)
next
  case (Suc j)
  then obtain k' where k: "k = Suc k'" by (cases k) auto
  obtain i where i: "as_u64 (jget n ''source'') = Some i" "i < length sources" "chain sources j (sources ! i) = Some m"
    using Suc.prems(2) by (auto simp: indirect_def split: option.splits if_splits)
  have "resolve_loop (Suc k) n sources = resolve_loop (Suc k') (sources ! i) sources" using i k by simp
  then show ?case using Suc.IH [of k' "sources ! i"] i(3) Suc.prems k by simp
qed

lemma resolve_loop_goes_on:
  "(\<And>j m. j \<le> k \<Longrightarrow> chain sources j n = Some m \<Longrightarrow> indirect sources m \<noteq> None) \<Longrightarrow>
     resolve_loop (Suc k) n sources = Inl SourceLoop"
proof (induction k arbitrary: n)
  case 0
  from 0 [of 0 n] show ?case by (auto simp: indirect_def split: option.splits if_splits)
next
  case (Suc k)
  from Suc.prems [of 0 n] obtain i where i: "as_u64 (jget n ''source'') = Some i" "i < length sources"
    by (auto simp: indirect_def split: option.splits if_splits)
  have "resolve_loop (Suc k) (sources ! i) sources = Inl SourceLoop"
    by (rule Suc.IH) (use Suc.prems [of "Suc j" for j] i in \<open>simp add: indirect_def\<close>)
  then show ?case using i by simp
qed

text \<open>An entry that comes up twice comes up forever, so a chain that stops does so within the table's length.\<close>

lemma chain_bound:
  assumes stop: "chain sources k n = Some m" "indirect sources m = None"
  shows "\<exists>j \<le> length sources. chain sources j n = Some m"
proof -
  let ?P = "\<lambda>k. chain sources k n = Some m"
  define l where "l = (LEAST k. ?P k)"
  have l: "?P l" unfolding l_def by (rule LeastI [of ?P, OF stop(1)])
  have least: "l \<le> j" if "?P j" for j unfolding l_def by (rule Least_le [of ?P, OF that])
  have defined: "\<exists>x. chain sources j n = Some x \<and> chain sources (l - j) x = Some m" if "j \<le> l" for j
    using chain_add [of sources j "l - j" n] l that by (cases "chain sources j n") auto
  have "l \<le> length sources"
  proof (rule ccontr)
    assume long: "\<not> l \<le> length sources"
    let ?f = "\<lambda>j. the (chain sources j n)"
    have range: "?f j \<in> set sources" if "j \<in> {1..l}" for j
    proof -
      have jl: "1 \<le> j" "j \<le> l" using that by simp_all
      obtain j' where j: "j = j' + 1" using jl(1) by (cases j) auto
      obtain x where "chain sources j n = Some x" using defined [OF jl(2)] by auto
      then show ?thesis
        using chain_add [of sources j' 1 n] j
        by (auto simp: indirect_def split: option.splits if_splits)
    qed
    have "card (?f ` {1..l}) \<le> card (set sources)" using range by (intro card_mono) auto
    also have "\<dots> \<le> length sources" by (rule card_length)
    finally have "\<not> inj_on ?f {1..l}" using long card_image [of ?f "{1..l}"] by auto
    then obtain a b where ab: "a < b" "b \<le> l" "?f a = ?f b"
      unfolding inj_on_def by (metis atLeastAtMost_iff linorder_neqE_nat)
    obtain x where x: "chain sources a n = Some x" using defined [of a] ab by auto
    obtain y where y: "chain sources b n = Some y" "chain sources (l - b) y = Some m" using defined [of b] ab by auto
    have "x = y" using x y ab(3) by simp
    then have "?P (a + (l - b))" using chain_add [of sources a "l - b" n] x y(2) by simp
    then show False using least ab by fastforce
  qed
  then show ?thesis using l by auto
qed

text \<open>C39. Indirections through the sources table are followed exactly: the result is the entry at which the
  chain ends, an index outside the table is reported when the chain leads to one, and a loop is
  reported when, and only when, the chain never ends.\<close>

theorem resolve_source_exact:
  "(resolve_source n sources = Inr m \<longleftrightarrow>
      (\<exists>k. chain sources k n = Some m \<and> as_u64 (jget m ''source'') = None)) \<and>
   (resolve_source n sources = Inl (SourceOutOfRange i) \<longleftrightarrow>
      (\<exists>k x. chain sources k n = Some x \<and> as_u64 (jget x ''source'') = Some i \<and> length sources \<le> i)) \<and>
   (resolve_source n sources = Inl SourceLoop \<longleftrightarrow> (\<forall>k. chain sources k n \<noteq> None))"
proof (cases "\<exists>k x. chain sources k n = Some x \<and> indirect sources x = None")
  case True
  then obtain k x where x: "chain sources k n = Some x" "indirect sources x = None" by blast
  obtain j where j: "j \<le> length sources" "chain sources j n = Some x" using chain_bound [OF x] by auto
  have r: "resolve_source n sources =
      (case as_u64 (jget x ''source'') of None \<Rightarrow> Inr x | Some i \<Rightarrow> Inl (SourceOutOfRange i))"
    unfolding resolve_source_def by (rule resolve_loop_stops [OF j x(2)])
  have unique: "y = x" if "chain sources l n = Some y" "indirect sources y = None" for l y
  proof (rule ccontr)
    assume ne: "y \<noteq> x"
    have "l \<noteq> k" using ne that x by auto
    then consider d where "l = k + Suc d" | d where "k = l + Suc d"
      by (metis less_imp_Suc_add add_Suc_right linorder_neqE_nat)
    moreover have "chain sources (k + Suc d) n = None" "chain sources (l + Suc d) n = None" for d
      using chain_add [of sources k "Suc d" n] chain_add [of sources l "Suc d" n] that x by (simp_all del: add_Suc_right)
    ultimately show False using that x by (metis option.distinct(1))
  qed
  have ends: "chain sources (Suc k) n = None" using chain_add [of sources k 1 n] x by simp
  have stuck: "as_u64 (jget y ''source'') = None \<Longrightarrow> indirect sources y = None"
    "as_u64 (jget y ''source'') = Some i \<Longrightarrow> length sources \<le> i \<Longrightarrow> indirect sources y = None" for y i
    by (simp_all add: indirect_def)
  show ?thesis
  proof (cases "as_u64 (jget x ''source'')")
    case None
    then have "resolve_source n sources = Inr x" using r by simp
    then show ?thesis using None x ends unique stuck
      by (metis (no_types, lifting) Inl_Inr_False Inr_inject option.distinct(1))
  next
    case (Some i')
    then have "resolve_source n sources = Inl (SourceOutOfRange i')" "length sources \<le> i'"
      using r x(2) by (auto simp: indirect_def split: if_splits)
    then show ?thesis using Some x ends unique stuck
      by (metis (no_types, lifting) Inl_Inr_False Inl_inject option.distinct(1) option.inject check_error.distinct(1)
        check_error.inject(1))
  qed
next
  case False
  have go: "indirect sources x \<noteq> None" if "chain sources k n = Some x" for k x using False that by auto
  have "resolve_source n sources = Inl SourceLoop"
    unfolding resolve_source_def by (rule resolve_loop_goes_on) (rule go)
  moreover have "chain sources k n \<noteq> None" for k
  proof (induction k)
    case (Suc k)
    then obtain y where y: "chain sources k n = Some y" by auto
    with go [OF y] chain_add [of sources k "Suc 0" n] show ?case by (auto split: option.splits)
  qed simp
  moreover have idx: "\<exists>i < length sources. as_u64 (jget x ''source'') = Some i" if "chain sources k n = Some x" for k x
    using go [OF that] by (auto simp: indirect_def split: option.splits if_splits)
  moreover have "\<not> (\<exists>k. chain sources k n = Some m \<and> as_u64 (jget m ''source'') = None)"
    using idx by fastforce
  moreover have "\<not> (\<exists>k x. chain sources k n = Some x \<and> as_u64 (jget x ''source'') = Some i \<and> length sources \<le> i)"
    using idx by fastforce
  ultimately show ?thesis by (simp del: chain.simps not_None_eq)
qed

subsection \<open>What an assembled node is\<close>

text \<open>A condition that holds of every value inside a document.\<close>

fun everywhere :: "(json \<Rightarrow> bool) \<Rightarrow> json \<Rightarrow> bool" where
  "everywhere P (JArr xs) \<longleftrightarrow> P (JArr xs) \<and> list_all (everywhere P) xs"
| "everywhere P (JObj kvs) \<longleftrightarrow> P (JObj kvs) \<and> list_all (\<lambda>(k, v). everywhere P v) kvs"
| "everywhere P j \<longleftrightarrow> P j"

text \<open>A node is of one kind only, an indirection of none, and no range of it wraps.\<close>

definition node_kinds :: "string list" where
  "node_kinds = [''literal'', ''slice'', ''extract'', ''ref'', ''build'']"

definition one_kind :: "json \<Rightarrow> bool" where
  "one_kind n \<longleftrightarrow>
     (let ks = filter (\<lambda>k. is_object (jget n k)) node_kinds in
      length ks \<le> 1 \<and> (as_u64 (jget n ''source'') \<noteq> None \<longrightarrow> ks = []))"

definition no_wrap :: "json \<Rightarrow> bool" where
  "no_wrap n \<longleftrightarrow>
     list_all (\<lambda>k. unwrap_or 0 (as_u64 (jget n k)) + unwrap_or 0 (as_u64 (jget n ''len'')) < 2 ^ 64)
       [''from'', ''residue_offset'']"

definition sane :: "json \<Rightarrow> bool" where
  "sane n \<longleftrightarrow> one_kind n \<and> no_wrap n"

lemma everywhere_self: "everywhere P j \<Longrightarrow> P j"
  by (cases j) simp_all

lemma everywhere_jget: "everywhere P j \<Longrightarrow> P JNull \<Longrightarrow> everywhere P (jget j k)"
  by (cases j) (auto simp: list_all_iff dest: map_of_SomeD split: option.splits)

lemma everywhere_array: "everywhere P j \<Longrightarrow> as_array j = Some xs \<Longrightarrow> x \<in> set xs \<Longrightarrow> everywhere P x"
  by (cases j) (simp_all add: list_all_iff)

lemma everywhere_chain:
  "chain sources k n = Some m \<Longrightarrow> everywhere P n \<Longrightarrow> list_all (everywhere P) sources \<Longrightarrow> everywhere P m"
  by (induction k arbitrary: n)
    (auto simp: indirect_def list_all_iff split: option.splits if_splits)

lemma sane_null: "sane JNull"
  by (simp add: sane_def one_kind_def no_wrap_def node_kinds_def unwrap_or_def)

lemma one_kind_exclusive:
  assumes "one_kind n"
  shows "is_object (jget n ''ref'') \<Longrightarrow> \<not> is_object (jget n ''build'') \<and> \<not> is_object (jget n ''extract'') \<and>
           \<not> is_object (jget n ''slice'') \<and> \<not> is_object (jget n ''literal'')"
    and "is_object (jget n ''build'') \<Longrightarrow> \<not> is_object (jget n ''ref'') \<and> \<not> is_object (jget n ''extract'') \<and>
           \<not> is_object (jget n ''slice'') \<and> \<not> is_object (jget n ''literal'')"
    and "is_object (jget n ''extract'') \<Longrightarrow> \<not> is_object (jget n ''ref'') \<and> \<not> is_object (jget n ''build'') \<and>
           \<not> is_object (jget n ''slice'') \<and> \<not> is_object (jget n ''literal'')"
    and "is_object (jget n ''slice'') \<Longrightarrow> \<not> is_object (jget n ''ref'') \<and> \<not> is_object (jget n ''build'') \<and>
           \<not> is_object (jget n ''extract'') \<and> \<not> is_object (jget n ''literal'')"
    and "is_object (jget n ''literal'') \<Longrightarrow> \<not> is_object (jget n ''ref'') \<and> \<not> is_object (jget n ''build'') \<and>
           \<not> is_object (jget n ''extract'') \<and> \<not> is_object (jget n ''slice'')"
    and "k \<in> set node_kinds \<Longrightarrow> is_object (jget n k) \<Longrightarrow> as_u64 (jget n ''source'') = None"
  using assms by (auto simp: one_kind_def node_kinds_def split: if_splits)

lemma node_sha256_sourceless: "one_kind t \<Longrightarrow> node_sha256 t = Inr sha \<Longrightarrow> as_u64 (jget t ''source'') = None"
proof -
  assume t: "one_kind t" "node_sha256 t = Inr sha"
  then have "is_object (jget t ''ref'') \<or> is_object (jget t ''build'') \<or> is_object (jget t ''extract'')"
    by (simp add: node_sha256_def split: if_split_asm)
  then show "as_u64 (jget t ''source'') = None"
    by (elim disjE; intro one_kind_exclusive(6) [OF t(1)]) (simp_all add: node_kinds_def)
qed

lemma resolve_loop_chain:
  "resolve_loop k n sources = Inr m \<Longrightarrow> (\<exists>j. chain sources j n = Some m) \<and> as_u64 (jget m ''source'') = None"
proof (induction k arbitrary: n)
  case (Suc k)
  show ?case
  proof (cases "as_u64 (jget n ''source'')")
    case None
    then show ?thesis using Suc.prems by (auto intro: exI [of _ 0])
  next
    case (Some i)
    then have i: "i < length sources" "resolve_loop k (sources ! i) sources = Inr m"
      using Suc.prems by (auto split: if_splits)
    obtain j where "chain sources j (sources ! i) = Some m" using Suc.IH [OF i(2)] by blast
    then have "chain sources (Suc j) n = Some m" using Some i(1) by (simp add: indirect_def)
    then show ?thesis using Suc.IH [OF i(2)] by blast
  qed
qed simp

lemma resolved_everywhere:
  "resolve_source n sources = Inr m \<Longrightarrow> everywhere P n \<Longrightarrow> list_all (everywhere P) sources \<Longrightarrow> everywhere P m"
  unfolding resolve_source_def using resolve_loop_chain everywhere_chain by metis

lemma resolved_sourceless: "resolve_source n sources = Inr m \<Longrightarrow> as_u64 (jget m ''source'') = None"
  unfolding resolve_source_def using resolve_loop_chain by metis

lemma resolve_sourceless: "as_u64 (jget m ''source'') = None \<Longrightarrow> resolve_source m sources = Inr m"
  by (simp add: resolve_source_def)

definition built_ok :: "check_env \<Rightarrow> built \<Rightarrow> bool" where
  "built_ok env built \<longleftrightarrow> (\<forall>sha sp. built sha = Some sp \<longrightarrow> hex_sha env (spool_bytes sp) = sha)"

definition stated :: "check_env \<Rightarrow> json \<Rightarrow> byte list \<Rightarrow> bool" where
  "stated env node bs \<longleftrightarrow>
     (\<forall>m sha. resolve_source node (ce_sources env) = Inr m \<longrightarrow> node_sha256 m = Inr sha \<longrightarrow> hex_sha env bs = sha)"

definition asm_ok :: "check_env \<Rightarrow> assembler \<Rightarrow> bool" where
  "asm_ok env rec \<longleftrightarrow>
     (\<forall>node built bs n built'. everywhere sane node \<longrightarrow> built_ok env built \<longrightarrow>
        rec node built = Some (Inr ((bs, n), built')) \<longrightarrow>
        built_ok env built' \<and> stated env node bs \<and> n mod 2 ^ 64 = length bs mod 2 ^ 64)"

lemma asm_okD:
  assumes "asm_ok env rec" "everywhere sane node" "built_ok env built" "rec node built = Some (Inr ((bs, n), built'))"
  shows "built_ok env built'" "stated env node bs" "n mod 2 ^ 64 = length bs mod 2 ^ 64"
  using assms unfolding asm_ok_def by blast+

lemma stated_resolved: "resolve_source node (ce_sources env) = Inr m \<Longrightarrow> stated env m bs \<Longrightarrow> stated env node bs"
  using resolved_sourceless resolve_sourceless by (auto simp: stated_def)

lemma materialize_ok:
  assumes rec: "asm_ok env rec" and src: "list_all (everywhere sane) (ce_sources env)"
    and node: "everywhere sane node" and built: "built_ok env built"
    and run: "materialize rec env node built = Some (Inr (sp, built'))"
  shows "built_ok env built'" "stated env node (spool_bytes sp)"
proof -
  obtain m bs n where m: "resolve_source node (ce_sources env) = Inr m" "rec m built = Some (Inr ((bs, n), built'))"
    "spool_bytes sp = bs"
    using run by (auto simp: materialize_def fuelled_simps Let_def split: if_splits)
  note ok = asm_okD [OF rec resolved_everywhere [OF m(1) node src] built m(2)]
  show "built_ok env built'" by (rule ok(1))
  show "stated env node (spool_bytes sp)" unfolding m(3) by (rule stated_resolved [OF m(1) ok(2)])
qed

lemma everywhere_sane_get: "everywhere sane j \<Longrightarrow> everywhere sane (jget j k)"
  by (rule everywhere_jget) (auto intro: sane_null)

lemma sane_range:
  "sane l \<Longrightarrow> as_u64 (jget l k) = Some a \<Longrightarrow> as_u64 (jget l ''len'') = Some b \<Longrightarrow> k \<in> {''from'', ''residue_offset''} \<Longrightarrow>
     a + b < 2 ^ 64"
  by (auto simp: sane_def no_wrap_def unwrap_or_def)

lemma sane_one_kind: "everywhere sane j \<Longrightarrow> one_kind j"
  using everywhere_self [of sane j] by (simp add: sane_def)

lemma assemble_literal_count:
  "everywhere sane l \<Longrightarrow> assemble_literal env l = Inr (bs, n) \<Longrightarrow> n = length bs"
  by (auto simp: assemble_literal_def bindR_eq_Inr fuelled_simps split: option.splits
      dest!: everywhere_self dest: sane_range spool_range_length)

lemma assemble_slice_ok:
  assumes rec: "asm_ok env rec" and src: "list_all (everywhere sane) (ce_sources env)"
    and sl: "everywhere sane sl" and built: "built_ok env built"
    and run: "assemble_slice rec env sl built = Some (Inr ((bs, n), built'))"
  shows "built_ok env built' \<and> n = length bs"
proof -
  obtain t start len sha where
    t: "(if is_object (jget sl ''of'') then okF (jget sl ''of'') else Some (resolve_source sl (ce_sources env))) = Some (Inr t)"
    and r: "as_u64 (jget sl ''from'') = Some start" "as_u64 (jget sl ''len'') = Some len" "node_sha256 t = Inr sha"
    and run': "(case ce_blobs env sha of
         Some p \<Rightarrow>
           bindF (Some (opened env p)) (\<lambda>content.
           bindF (Some (spool_range (SpFile content) start len)) (\<lambda>bs. okF ((bs, len), built)))
       | None \<Rightarrow>
           bindF (if built sha = None
                  then bindF (materialize rec env t built) (\<lambda>(spool, built). okF (spool, built(sha \<mapsto> spool)))
                  else okF (the (built sha), built)) (\<lambda>(spool, built).
           bindF (Some (spool_range spool start len)) (\<lambda>bs. okF ((bs, len), built)))) = Some (Inr ((bs, n), built'))"
    using run unfolding assemble_slice_def fuelled_simps option.inject by blast
  have fit: "start + len < 2 ^ 64" using sane_range [OF everywhere_self [OF sl]] r by auto
  have te: "everywhere sane t"
    using t sl src resolved_everywhere everywhere_sane_get by (auto simp: fuelled_simps split: if_splits)
  have tr: "resolve_source t (ce_sources env) = Inr t"
    by (rule resolve_sourceless) (rule node_sha256_sourceless [OF sane_one_kind [OF te] r(3)])
  show ?thesis
  proof (cases "ce_blobs env sha")
    case (Some p)
    then obtain content where "spool_range (SpFile content) start len = Inr bs" "n = len" "built' = built"
      using run' by (auto simp: fuelled_simps simp del: spool_range.simps)
    then show ?thesis using spool_range_length [OF fit] built by (simp del: spool_range.simps)
  next
    case None
    then obtain sp where sp: "spool_range sp start len = Inr bs" "n = len"
      "(if built sha = None
        then bindF (materialize rec env t built) (\<lambda>(spool, built). okF (spool, built(sha \<mapsto> spool)))
        else okF (the (built sha), built)) = Some (Inr (sp, built'))"
      using run' by (auto simp: fuelled_simps)
    have "built_ok env built'"
    proof (cases "built sha = None")
      case True
      then obtain b1 where b1: "materialize rec env t built = Some (Inr (sp, b1))" "built' = b1(sha \<mapsto> sp)"
        using sp(3) by (auto simp: fuelled_simps)
      note ok = materialize_ok [OF rec src te built b1(1)]
      have "hex_sha env (spool_bytes sp) = sha" using ok(2) tr r(3) by (simp add: stated_def)
      then show ?thesis using ok(1) b1(2) by (simp add: built_ok_def)
    next
      case False
      then show ?thesis using sp(3) built by (auto simp: fuelled_simps)
    qed
    then show ?thesis using spool_range_length [OF fit sp(1)] sp(2) by simp
  qed
qed

lemma as_ref_sane: "everywhere sane name \<Longrightarrow> everywhere sane (as_ref sha name)"
  by (simp add: as_ref_def sane_def one_kind_def no_wrap_def node_kinds_def unwrap_or_def)

lemma as_ref_plain [simp]:
  "resolve_source (as_ref sha name) sources = Inr (as_ref sha name)" "node_sha256 (as_ref sha name) = Inr sha"
  by (simp_all add: as_ref_def resolve_source_def node_sha256_def needed_def)

lemma stated_as_ref: "stated env (as_ref sha name) bs \<longleftrightarrow> hex_sha env bs = sha"
  by (simp add: stated_def)

lemma verify_output_ok:
  "verify_output env name b sha bs n built = Some (Inr ((bs', n'), built')) \<Longrightarrow>
     bs' = bs \<and> n' = n \<and> built' = built \<and> hex_sha env bs = sha"
  by (auto simp: verify_output_def fuelled_simps split: option.splits)

text \<open>What each kind of node that states a digest gives.\<close>

definition gives :: "check_env \<Rightarrow> string \<Rightarrow> built \<Rightarrow> byte list \<Rightarrow> nat \<Rightarrow> bool" where
  "gives env sha built' bs n \<longleftrightarrow> built_ok env built' \<and> hex_sha env bs = sha \<and> n mod 2 ^ 64 = length bs mod 2 ^ 64"

lemma gives_as_ref:
  assumes "asm_ok env rec" "everywhere sane name" "built_ok env built" "rec (as_ref sha name) built = Some (Inr ((bs, n), built'))"
  shows "gives env sha built' bs n"
  using asm_okD [OF assms(1) as_ref_sane [OF assms(2)] assms(3,4)] by (simp add: gives_def stated_as_ref)

lemma assemble_extract_ok:
  assumes rec: "asm_ok env rec" and node: "everywhere sane node" and built: "built_ok env built"
    and run: "assemble_extract rec env node built = Some (Inr ((bs, n), built'))"
  shows "\<exists>sha. json_str (jget (jget (jget node ''extract'') ''output'') ''sha256'') = Some sha \<and> gives env sha built' bs n"
proof -
  let ?e = "jget node ''extract''"
  obtain want sz where w: "json_str (jget (jget ?e ''output'') ''sha256'') = Some want" "as_u64 (jget (jget ?e ''output'') ''size'') = Some sz"
    using run by (auto simp: assemble_extract_def Let_def fuelled_simps)
  have "gives env want built' bs n"
  proof (cases "ce_blobs env want")
    case (Some p)
    then have "rec (as_ref want (jget ?e ''name'')) built = Some (Inr ((bs, n), built'))"
      using run w by (simp add: assemble_extract_def Let_def needed_def)
    then show ?thesis by (rule gives_as_ref [OF rec everywhere_sane_get [OF everywhere_sane_get [OF node]] built])
  next
    case None
    then show ?thesis
      using run w built
      by (auto simp: assemble_extract_def Let_def needed_def gives_def fuelled_simps)
  qed
  then show ?thesis using w(1) by blast
qed

lemma assemble_ref_ok:
  assumes "built_ok env built" "assemble_ref env node built = Some (Inr ((bs, n), built'))"
  shows "\<exists>sha. json_str (jget (jget (jget node ''ref'') ''digests'') ''sha256'') = Some sha \<and> gives env sha built' bs n"
  using assms by (auto simp: assemble_ref_def gives_def fuelled_simps split: option.splits)

lemma assemble_gzip_ok:
  assumes rec: "asm_ok env rec" and src: "list_all (everywhere sane) (ce_sources env)"
    and b: "everywhere sane b" and built: "built_ok env built"
    and run: "assemble_gzip rec env b sha built = Some (Inr ((bs, n), built'))"
  shows "gives env sha built' bs n"
proof -
  obtain inputs input sp b1 nm w where
    i: "as_array (jget b ''inputs'') = Some inputs" "inputs = [input]" "materialize rec env input built = Some (Inr (sp, b1))"
    and out: "verify_output env nm b sha w (length w) b1 = Some (Inr ((bs, n), built'))"
    using run by (auto simp: assemble_gzip_def Let_def case_prod_beta fuelled_simps elim!: sole.elims)
  have "everywhere sane input" using everywhere_array [OF everywhere_sane_get [OF b] i(1)] i(2) by simp
  from materialize_ok [OF rec src this built i(3)] verify_output_ok [OF out] show ?thesis by (simp add: gives_def)
qed

lemma assemble_zstd_ok:
  assumes rec: "asm_ok env rec" and src: "list_all (everywhere sane) (ce_sources env)"
    and b: "everywhere sane b" and built: "built_ok env built"
    and run: "assemble_zstd rec env b sha built = Some (Inr ((bs, n), built'))"
  shows "gives env sha built' bs n"
proof -
  obtain inputs input sp b1 nm w where
    i: "as_array (jget b ''inputs'') = Some inputs" "inputs = [input]" "materialize rec env input built = Some (Inr (sp, b1))"
    and out: "verify_output env nm b sha w (length w) b1 = Some (Inr ((bs, n), built'))"
    using run by (auto simp: assemble_zstd_def Let_def case_prod_beta fuelled_simps elim!: sole.elims)
  have "everywhere sane input" using everywhere_array [OF everywhere_sane_get [OF b] i(1)] i(2) by simp
  from materialize_ok [OF rec src this built i(3)] verify_output_ok [OF out] show ?thesis by (simp add: gives_def)
qed

lemma pcluster_inputs_ok:
  assumes rec: "asm_ok env rec"
  shows "list_all (everywhere sane) is \<Longrightarrow> built_ok env built \<Longrightarrow>
    pcluster_inputs rec name is acc built = Some (Inr (out, built')) \<Longrightarrow> built_ok env built'"
proof (induction "is" arbitrary: acc built)
  case (Cons i "is")
  then obtain bs n b1 where "rec i built = Some (Inr ((bs, n), b1))"
    "pcluster_inputs rec name is (acc @ bs) b1 = Some (Inr (out, built'))"
    by (auto simp: fuelled_simps)
  note r = this
  have i: "everywhere sane i" using Cons.prems by simp
  show ?case using Cons.IH [OF _ asm_okD(1) [OF rec i Cons.prems(2) r(1)] r(2)] Cons.prems(1) by simp
qed (simp add: fuelled_simps)

lemma splice_inputs_ok:
  assumes rec: "asm_ok env rec"
  shows "list_all (everywhere sane) is \<Longrightarrow> built_ok env built \<Longrightarrow> m mod 2 ^ 64 = length acc mod 2 ^ 64 \<Longrightarrow>
    splice_inputs rec is acc m built = Some (Inr ((bs, n), built')) \<Longrightarrow> built_ok env built' \<and> n mod 2 ^ 64 = length bs mod 2 ^ 64"
proof (induction "is" arbitrary: acc built m)
  case (Cons i "is")
  then obtain c k b1 where r: "rec i built = Some (Inr ((c, k), b1))"
    "splice_inputs rec is (acc @ c) (add64 m k) b1 = Some (Inr ((bs, n), built'))"
    by (auto simp: fuelled_simps)
  have i: "everywhere sane i" using Cons.prems by simp
  note ok = asm_okD [OF rec i Cons.prems(2) r(1)]
  have "add64 m k mod 2 ^ 64 = length (acc @ c) mod 2 ^ 64"
    unfolding add64_def using ok(3) Cons.prems(3) by (metis length_append mod_add_cong mod_mod_trivial)
  then show ?case using Cons.IH [OF _ ok(1) _ r(2)] Cons.prems(1) by simp
qed (simp add: fuelled_simps)

lemma rebuild_length: "rebuild_pcluster le sz pad preset dict input = Inr out \<Longrightarrow> length out = sz"
  by (auto simp: rebuild_pcluster_def bindR_eq_Inr vec_resize_def)

lemma inputs_sane:
  "everywhere sane b \<Longrightarrow> as_array (jget b ''inputs'') = Some inputs \<Longrightarrow> list_all (everywhere sane) inputs"
  using everywhere_array [OF everywhere_sane_get] by (auto simp: list_all_iff)

lemma assemble_microlzma_ok:
  assumes rec: "asm_ok env rec" and b: "everywhere sane b" and built: "built_ok env built"
    and run: "assemble_microlzma rec env b sha built = Some (Inr ((bs, n), built'))"
  shows "gives env sha built' bs n"
proof -
  obtain inputs nm out where i: "as_array (jget b ''inputs'') = Some inputs"
    "pcluster_inputs rec nm inputs [] built = Some (Inr (out, built'))" "hex_sha env bs = sha" "length bs = n"
    using run
    by (auto simp: assemble_microlzma_def Let_def fuelled_simps dest!: rebuild_length split: sum.splits)
  from pcluster_inputs_ok [OF rec inputs_sane [OF b i(1)] built i(2)] i(3,4) show ?thesis by (simp add: gives_def)
qed

lemma assemble_build_ok:
  assumes rec: "asm_ok env rec" and src: "list_all (everywhere sane) (ce_sources env)"
    and node: "everywhere sane node" and built: "built_ok env built"
    and run: "assemble_build rec env node built = Some (Inr ((bs, n), built'))"
  shows "\<exists>sha. node_sha256 node = Inr sha \<and> gives env sha built' bs n"
proof -
  let ?b = "jget node ''build''"
  let ?builder = "unwrap_or ''splice@0'' (json_str (jget ?b ''builder''))"
  have b: "everywhere sane ?b" by (rule everywhere_sane_get [OF node])
  obtain sha where sha: "node_sha256 node = Inr sha"
    using run by (auto simp: assemble_build_def Let_def fuelled_simps)
  have "gives env sha built' bs n"
  proof (cases "ce_blobs env sha = None")
    case False
    then have "rec (as_ref sha (jget ?b ''name'')) built = Some (Inr ((bs, n), built'))"
      using run sha by (simp add: assemble_build_def Let_def)
    then show ?thesis by (rule gives_as_ref [OF rec everywhere_sane_get [OF b] built])
  next
    case True
    note run' = run [unfolded assemble_build_def Let_def sha True bindF_simps simp_thms if_False]
    consider "?builder = ''splice@0''" | "?builder = ''gzip@0''" | "?builder = ''zstd@0''" | "?builder = ''microlzma@0''"
      using run' by (auto simp: fuelled_simps split: if_splits)
    then show ?thesis
    proof cases
      case 1
      then obtain inputs out m b1 where i: "as_array (jget ?b ''inputs'') = Some inputs"
        "splice_inputs rec inputs [] 0 built = Some (Inr ((out, m), b1))"
        "verify_output env (node_name node) ?b sha out m b1 = Some (Inr ((bs, n), built'))"
        using run' by (auto simp: fuelled_simps)
      show ?thesis
        using splice_inputs_ok [OF rec inputs_sane [OF b i(1)] built _ i(2)] verify_output_ok [OF i(3)]
        by (simp add: gives_def)
    next
      case 2
      then show ?thesis using run' assemble_gzip_ok [OF rec src b built] by simp
    next
      case 3
      then show ?thesis using run' assemble_zstd_ok [OF rec src b built] by simp
    next
      case 4
      then show ?thesis using run' assemble_microlzma_ok [OF rec b built] by simp
    qed
  qed
  then show ?thesis using sha by blast
qed

lemma assemble_node_ok:
  assumes rec: "asm_ok env rec" and src: "list_all (everywhere sane) (ce_sources env)"
  shows "asm_ok env (assemble_node rec env)"
  unfolding asm_ok_def
proof (intro allI impI)
  fix node built bs n built'
  assume node: "everywhere sane node" and built: "built_ok env built"
    and run: "assemble_node rec env node built = Some (Inr ((bs, n), built'))"
  obtain m where m: "resolve_source node (ce_sources env) = Inr m"
    using run by (auto simp: assemble_node_def fuelled_simps)
  have me: "everywhere sane m" by (rule resolved_everywhere [OF m node src])
  note run' = run [unfolded assemble_node_def m bindF_simps]
  note kind = one_kind_exclusive [OF sane_one_kind [OF me]]
  have nodigest: "node_sha256 m \<noteq> Inr sha"
    if "is_object (jget m ''literal'') \<or> is_object (jget m ''slice'')" for sha
    using that by (elim disjE) (simp_all add: node_sha256_def kind(4,5))
  consider (literal) "is_object (jget m ''literal'')"
    | (slice) "\<not> is_object (jget m ''literal'')" "is_object (jget m ''slice'')"
    | (ext) "\<not> is_object (jget m ''literal'')" "\<not> is_object (jget m ''slice'')" "is_object (jget m ''extract'')"
    | (ref) "\<not> is_object (jget m ''literal'')" "\<not> is_object (jget m ''slice'')" "\<not> is_object (jget m ''extract'')" "is_object (jget m ''ref'')"
    | (bld) "\<not> is_object (jget m ''literal'')" "\<not> is_object (jget m ''slice'')" "\<not> is_object (jget m ''extract'')" "\<not> is_object (jget m ''ref'')" "is_object (jget m ''build'')"
    using run' by (auto simp: fuelled_simps split: if_splits)
  then have "built_ok env built' \<and> stated env m bs \<and> n mod 2 ^ 64 = length bs mod 2 ^ 64"
  proof cases
    case literal
    then have "assemble_literal env (jget m ''literal'') = Inr (bs, n)" "built' = built"
      using run' by (auto simp: fuelled_simps)
    then show ?thesis
      using assemble_literal_count [OF everywhere_sane_get [OF me]] built nodigest [OF disjI1 [OF literal]]
        resolve_sourceless [OF resolved_sourceless [OF m]]
      by (simp add: stated_def)
  next
    case slice
    then have "assemble_slice rec env (jget m ''slice'') built = Some (Inr ((bs, n), built'))" using run' by simp
    from assemble_slice_ok [OF rec src everywhere_sane_get [OF me] built this] show ?thesis
      using nodigest [OF disjI2 [OF slice(2)]] resolve_sourceless [OF resolved_sourceless [OF m]] by (simp add: stated_def)
  next
    case ext
    then have "assemble_extract rec env m built = Some (Inr ((bs, n), built'))" using run' by simp
    from assemble_extract_ok [OF rec me built this] show ?thesis
      using ext kind(3) resolve_sourceless [OF resolved_sourceless [OF m]]
      by (auto simp: stated_def gives_def node_sha256_def needed_def)
  next
    case ref
    then have "assemble_ref env m built = Some (Inr ((bs, n), built'))" using run' by simp
    from assemble_ref_ok [OF built this] show ?thesis
      using ref resolve_sourceless [OF resolved_sourceless [OF m]]
      by (auto simp: stated_def gives_def node_sha256_def needed_def)
  next
    case bld
    then have "assemble_build rec env m built = Some (Inr ((bs, n), built'))" using run' by simp
    from assemble_build_ok [OF rec src me built this] show ?thesis
      using resolve_sourceless [OF resolved_sourceless [OF m]] by (auto simp: stated_def gives_def)
  qed
  then show "built_ok env built' \<and> stated env node bs \<and> n mod 2 ^ 64 = length bs mod 2 ^ 64"
    using stated_resolved [OF m] by blast
qed

lemma assemble_ok: "list_all (everywhere sane) (ce_sources env) \<Longrightarrow> asm_ok env (assemble d env)"
proof (induction d)
  case 0
  then show ?case by (simp add: asm_ok_def)
next
  case (Suc d)
  then have "asm_ok env (assemble_node (assemble d env) env)" by (intro assemble_node_ok) simp_all
  then show ?case by (simp add: asm_ok_def)
qed

text \<open>C34. In a document whose nodes are each of one kind and whose ranges do not wrap, a node that is
  assembled from verified spools has the digest its resolved form states, the spools it leaves
  behind are keyed by their own digests, and the count it returns is the number of bytes it gave.\<close>

theorem assemble_verified:
  assumes "list_all (everywhere sane) (ce_sources env)" and "everywhere sane node" and "built_ok env built"
    and "assemble d env node built = Some (Inr ((bs, n), built'))"
  shows "(\<forall>m sha. resolve_source node (ce_sources env) = Inr m \<longrightarrow> node_sha256 m = Inr sha \<longrightarrow> hex_sha env bs = sha) \<and>
         (\<forall>sha sp. built' sha = Some sp \<longrightarrow> hex_sha env (spool_bytes sp) = sha) \<and>
         n mod 2 ^ 64 = length bs mod 2 ^ 64"
  using asm_okD [OF assemble_ok [OF assms(1)] assms(2,3,4)] by (simp add: stated_def built_ok_def)

text \<open>Two one-byte blobs, and the identity for a digest.\<close>

definition sample_env :: check_env where
  "sample_env =
     \<lparr>ce_sha = (\<lambda>bs. bs), ce_blobs = [''aa'' \<mapsto> ''a'', ''bb'' \<mapsto> ''b''], ce_file = [''a'' \<mapsto> [0xaa], ''b'' \<mapsto> [0xbb]],
      ce_sources = [], ce_residue = None,
      ce_codecs = \<lparr>pd_gzip = (\<lambda>b. b), pd_xz = (\<lambda>b. b), pd_zstd = (\<lambda>b. b), pd_bzip2 = (\<lambda>b. b)\<rparr>,
      ce_gzip = (\<lambda>_ b. ([b], True)), ce_zstd = (\<lambda>_ b. ([b], True)),
      ce_lzma = \<lparr>le_preset_ok = (\<lambda>_. True), le_encode = (\<lambda>i c _ _. Some (take c i, min c (length i)))\<rparr>\<rparr>"

definition sample_build :: json where
  "sample_build = JObj [(''build'', JObj
     [(''output'', JObj [(''sha256'', JStr ''aabb'')]),
      (''inputs'', JArr [JObj [(''ref'', JObj [(''digests'', JObj [(''sha256'', JStr ''aa'')])])],
                         JObj [(''ref'', JObj [(''digests'', JObj [(''sha256'', JStr ''bb'')])])]])])]"

lemma sample_hex: "hex_lower [0xaa] = ''aa''" "hex_lower [0xbb] = ''bb''" "hex_lower [0xaa, 0xbb] = ''aabb''"
  by code_simp+

lemma sample_assembles: "assemble 2 sample_env sample_build Map.empty = Some (Inr (([0xaa, 0xbb], 2), Map.empty))"
proof -
  have two: "(2 :: nat) = Suc (Suc 0)" by simp
  show ?thesis
    unfolding two
    by (simp add: assemble_node_def assemble_build_def assemble_ref_def sample_build_def sample_env_def resolve_source_def
        node_sha256_def needed_def unwrap_or_def opened_def checkF_def okF_def verify_output_def hex_sha_def sample_hex add64_def)
qed

lemma assemble_verified_witness:
  "hex_sha sample_env [0xaa, 0xbb] = ''aabb'' \<and> (2 :: nat) mod 2 ^ 64 = length [0xaa, 0xbb :: byte] mod 2 ^ 64"
proof -
  have sane: "list_all (everywhere sane) (ce_sources sample_env)" "everywhere sane sample_build" "built_ok sample_env Map.empty"
    by (simp_all add: sample_env_def sample_build_def sane_def one_kind_def no_wrap_def node_kinds_def unwrap_or_def built_ok_def)
  have "resolve_source sample_build (ce_sources sample_env) = Inr sample_build" "node_sha256 sample_build = Inr ''aabb''"
    by (simp_all add: resolve_source_def sample_build_def node_sha256_def needed_def)
  with assemble_verified [OF sane sample_assembles] show ?thesis by blast
qed

end
