(* ===== verification/Hdx_Check_Total.thy ===== *)
theory Hdx_Check_Total
  imports Hdx_Checked
begin

text \<open>
  How deep the check of a recipe recurses: a document whose table entries refer to earlier entries
  only is checked within a depth its size bounds, and one whose entry slices itself is not checked
  at any depth.
\<close>

subsection \<open>The size of a document\<close>

fun weight :: "json \<Rightarrow> nat" where
  "weight (JArr xs) = Suc (sum_list (map weight xs))"
| "weight (JObj kvs) = Suc (sum_list (map (\<lambda>(k, v). weight v) kvs))"
| "weight _ = 0"

text \<open>Every index into the table, wherever it stands, is below the bound.\<close>

definition source_below :: "nat \<Rightarrow> json \<Rightarrow> bool" where
  "source_below i n \<longleftrightarrow> (case as_u64 (jget n ''source'') of None \<Rightarrow> True | Some k \<Rightarrow> k < i)"

definition backward :: "json list \<Rightarrow> bool" where
  "backward sources \<longleftrightarrow> list_all (\<lambda>i. everywhere (source_below i) (sources ! i)) [0..<length sources]"

definition doc_weight :: "json list \<Rightarrow> json \<Rightarrow> nat" where
  "doc_weight sources node = weight node + sum_list (map weight sources)"

text \<open>What is left to descend into below a value that only refers to the first \<open>i\<close> entries.\<close>

definition cost_ok :: "json list \<Rightarrow> nat \<Rightarrow> json \<Rightarrow> bool" where
  "cost_ok sources c n \<longleftrightarrow>
     (\<exists>i. everywhere (source_below i) n \<and> weight n + sum_list (map weight (take i sources)) \<le> c)"

lemma source_below_null: "source_below i JNull"
  by (simp add: source_below_def)

lemma cost_ok_null: "cost_ok sources c JNull"
  unfolding cost_ok_def by (rule exI [of _ 0]) (simp add: source_below_null)

lemma cost_ok_mono: "cost_ok sources c n \<Longrightarrow> c \<le> c' \<Longrightarrow> cost_ok sources c' n"
  unfolding cost_ok_def by (meson le_trans)

lemma member_le_sum: "x \<in> set xs \<Longrightarrow> (f x :: nat) \<le> sum_list (map f xs)"
  by (induction xs) auto

lemma weight_jget: "jget n k = JNull \<or> weight (jget n k) < weight n"
proof (cases n)
  case (JObj kvs)
  show ?thesis
  proof (cases "map_of kvs k")
    case (Some v)
    then have "weight v \<le> sum_list (map (\<lambda>(k, v). weight v) kvs)"
      using member_le_sum [of "(k, v)" kvs "\<lambda>(k, v). weight v"] map_of_SomeD by fastforce
    then show ?thesis using JObj Some by simp
  qed (simp add: JObj)
qed simp_all

lemma weight_array: "as_array j = Some xs \<Longrightarrow> x \<in> set xs \<Longrightarrow> weight x < weight j"
  using member_le_sum [of x xs weight] by (cases j) auto

lemma cost_ok_less:
  assumes "cost_ok sources c n" "weight x < weight n" "\<And>i. everywhere (source_below i) n \<Longrightarrow> everywhere (source_below i) x"
  shows "cost_ok sources (c - 1) x"
proof -
  obtain i where "everywhere (source_below i) n" "weight n + sum_list (map weight (take i sources)) \<le> c"
    using assms(1) by (auto simp: cost_ok_def)
  then show ?thesis using assms(2,3) unfolding cost_ok_def by (intro exI [of _ i]) auto
qed

lemma below_jget: "everywhere (source_below i) n \<Longrightarrow> everywhere (source_below i) (jget n k)"
  by (erule everywhere_jget) (rule source_below_null)

lemma cost_ok_jget: "cost_ok sources c n \<Longrightarrow> cost_ok sources (c - 1) (jget n k)"
  using weight_jget [of n k] cost_ok_less [of sources c n "jget n k", OF _ _ below_jget] by (auto simp: cost_ok_null)

lemma cost_ok_jget_same: "cost_ok sources c n \<Longrightarrow> cost_ok sources c (jget n k)"
  using cost_ok_mono [OF cost_ok_jget] by simp

lemma cost_ok_array: "cost_ok sources c n \<Longrightarrow> as_array n = Some xs \<Longrightarrow> x \<in> set xs \<Longrightarrow> cost_ok sources c x"
  using cost_ok_mono [OF cost_ok_less] weight_array everywhere_array by (metis diff_le_self)

lemma cost_ok_object: "cost_ok sources c n \<Longrightarrow> is_object (jget n k) \<Longrightarrow> 0 < c"
  using weight_jget [of n k] by (auto simp: cost_ok_def)

lemma cost_ok_indirect:
  assumes "backward sources" "cost_ok sources c n" "indirect sources n = Some m"
  shows "cost_ok sources c m"
proof -
  obtain i where i: "everywhere (source_below i) n" "weight n + sum_list (map weight (take i sources)) \<le> c"
    using assms(2) by (auto simp: cost_ok_def)
  obtain k where k: "k < length sources" "m = sources ! k" "k < i"
    using assms(3) everywhere_self [OF i(1)] by (auto simp: indirect_def source_below_def split: option.splits if_splits)
  have "take (Suc k) sources = take k sources @ [sources ! k]" by (rule take_Suc_conv_app_nth [OF k(1)])
  then have "weight m + sum_list (map weight (take k sources)) = sum_list (map weight (take (Suc k) sources))"
    using k(2) by simp
  also have "\<dots> \<le> sum_list (map weight (take i sources))"
  proof -
    have "take i sources = take (Suc k) sources @ drop (Suc k) (take i sources)"
      using k(3) by (metis Suc_leI append_take_drop_id min.absorb1 take_take)
    then show ?thesis by (metis le_add1 map_append sum_list_append)
  qed
  finally have "weight m + sum_list (map weight (take k sources)) \<le> c" using i(2) by simp
  moreover have "everywhere (source_below k) m" using assms(1) k by (simp add: backward_def list_all_iff)
  ultimately show ?thesis unfolding cost_ok_def by blast
qed

lemma cost_ok_resolve:
  assumes "backward sources" "cost_ok sources c n" "resolve_source n sources = Inr m"
  shows "cost_ok sources c m"
proof -
  obtain k where "chain sources k n = Some m"
    using assms(3) resolve_loop_chain unfolding resolve_source_def by blast
  then show ?thesis
    using assms(2) by (induction k arbitrary: n) (auto split: option.splits dest: cost_ok_indirect [OF assms(1)])
qed

lemma everywhere_all: "(\<And>x. P x) \<Longrightarrow> everywhere P j"
  by (induction P j rule: everywhere.induct) (auto simp: list_all_iff)

lemma cost_ok_root: "cost_ok sources (doc_weight sources n) n"
proof -
  have below: "source_below (2 ^ 64) x" for x
  proof (cases "jget x ''source''")
    case (JNum i)
    then show ?thesis by (simp add: source_below_def nat_less_iff)
  qed (simp_all add: source_below_def)
  have "everywhere (source_below (2 ^ 64)) j" for j by (rule everywhere_all) (rule below)
  moreover have "sum_list (map weight (take i sources)) \<le> sum_list (map weight sources)" for i
    by (metis append_take_drop_id le_add1 map_append sum_list_append)
  ultimately show ?thesis unfolding cost_ok_def doc_weight_def by (meson add_left_mono)
qed

subsection \<open>Enough fuel\<close>

lemma caseF_None [fuelled_simps]:
  "(case r of Inl e \<Rightarrow> failF (h e) | Inr x \<Rightarrow> f x) = None \<longleftrightarrow> (\<exists>x. r = Inr x \<and> f x = None)"
  "(case a of None \<Rightarrow> failF k | Some x \<Rightarrow> g x) = None \<longleftrightarrow> (\<exists>x. a = Some x \<and> g x = None)"
  by (auto simp: failF_def split: sum.splits option.splits)

text \<open>A traversal that ends on everything of at most a cost, and on the stand-in for a blob.\<close>

definition ends_on :: "json list \<Rightarrow> nat \<Rightarrow> (json \<Rightarrow> 's \<Rightarrow> 'r fuelled) \<Rightarrow> bool" where
  "ends_on sources c rec \<longleftrightarrow> (\<forall>node s. cost_ok sources c node \<longrightarrow> rec node s \<noteq> None)"

definition ends_on_refs :: "(json \<Rightarrow> 's \<Rightarrow> 'r fuelled) \<Rightarrow> bool" where
  "ends_on_refs rec \<longleftrightarrow> (\<forall>sha name s. rec (as_ref sha name) s \<noteq> None)"

lemma collect_inputs_total:
  assumes rec: "ends_on sources c rec" and src: "backward sources"
  shows "\<forall>x \<in> set inputs. cost_ok sources c x \<Longrightarrow> collect_inputs rec sources inputs missing \<noteq> None"
proof (induction inputs arbitrary: missing)
  case (Cons x xs)
  have x: "cost_ok sources c x" using Cons.prems by simp
  have inner: "rec inner missing \<noteq> None"
    if "(if is_object (jget x ''slice'')
         then if is_object (jget (jget x ''slice'') ''of'') then okF (jget (jget x ''slice'') ''of'')
              else Some (resolve_source (jget x ''slice'') sources)
         else okF x) = Some (Inr inner)" for inner
  proof -
    have "cost_ok sources c inner"
      using that x cost_ok_resolve [OF src cost_ok_jget_same [OF x]]
      by (auto simp: fuelled_simps intro!: cost_ok_jget_same split: if_splits)
    then show ?thesis using rec by (simp add: ends_on_def)
  qed
  show ?case
  proof
    assume "collect_inputs rec sources (x # xs) missing = None"
    then show False
      using inner Cons.IH Cons.prems by (auto simp: Let_def fuelled_simps split: if_splits)
  qed
qed (simp add: okF_def)

lemma collect_node_total:
  assumes rec: "ends_on sources (c - 1) rec" and src: "backward sources" and node: "cost_ok sources c node"
  shows "collect_node rec sources blobs node missing \<noteq> None"
proof
  assume none: "collect_node rec sources blobs node missing = None"
  then obtain m where m: "resolve_source node sources = Inr m"
    by (auto simp: collect_node_def fuelled_simps)
  note mc = cost_ok_resolve [OF src node m]
  have down: "cost_ok sources (c - 1) (jget (jget m k) l)" for k l
    by (rule cost_ok_jget_same [OF cost_ok_jget [OF mc]])
  have arch: "rec (jget (jget m ''extract'') ''archive'') missing \<noteq> None"
    using rec down by (simp add: ends_on_def)
  have "\<forall>x \<in> set (unwrap_or [] (as_array (jget (jget m ''build'') ''inputs''))). cost_ok sources (c - 1) x"
    using cost_ok_array [OF down [of "''build''" "''inputs''"]]
    by (cases "as_array (jget (jget m ''build'') ''inputs'')") (simp_all add: unwrap_or_def)
  from collect_inputs_total [OF rec src this, of missing] arch show False
    using none m by (auto simp: collect_node_def fuelled_simps split: if_splits)
qed

lemma collect_missing_total:
  "backward sources \<Longrightarrow> cost_ok sources c node \<Longrightarrow> c < d \<Longrightarrow> collect_missing d sources blobs node missing \<noteq> None"
proof (induction d arbitrary: c node missing)
  case (Suc d)
  show ?case
  proof (cases "c = 0")
    case False
    have "ends_on sources (c - 1) (collect_missing d sources blobs)"
      unfolding ends_on_def using Suc.IH [OF Suc.prems(1)] Suc.prems(3) False by auto
    then show ?thesis using collect_node_total [OF _ Suc.prems(1,2)] by simp
  next
    case True
    have flat: "\<not> is_object (jget m k)" if "resolve_source node sources = Inr m" for m k
      using cost_ok_object [OF cost_ok_resolve [OF Suc.prems(1,2) that]] True by auto
    show ?thesis
    proof
      assume "collect_missing (Suc d) sources blobs node missing = None"
      then show False using flat by (auto simp: collect_node_def fuelled_simps split: if_splits)
    qed
  qed
qed simp

lemma materialize_total:
  "ends_on sources c rec \<Longrightarrow> backward sources \<Longrightarrow> ce_sources env = sources \<Longrightarrow> cost_ok sources c node \<Longrightarrow>
     materialize rec env node built \<noteq> None"
  using cost_ok_resolve [of sources c node] by (auto simp: materialize_def ends_on_def Let_def fuelled_simps iff del: not_None_eq)

lemma assemble_slice_total:
  assumes rec: "ends_on sources c rec" and src: "backward sources" "ce_sources env = sources" and sl: "cost_ok sources c sl"
  shows "assemble_slice rec env sl built \<noteq> None"
proof -
  have "materialize rec env t built \<noteq> None"
    if "(if is_object (jget sl ''of'') then okF (jget sl ''of'') else Some (resolve_source sl (ce_sources env))) = Some (Inr t)" for t
    using that src(2) materialize_total [OF rec src cost_ok_resolve [OF src(1) sl]] materialize_total [OF rec src cost_ok_jget_same [OF sl]]
    by (auto simp: fuelled_simps iff del: not_None_eq split: if_splits)
  then show ?thesis
    by (auto simp: assemble_slice_def fuelled_simps iff del: not_None_eq split: option.splits if_splits)
qed

lemma assemble_extract_total: "ends_on_refs rec \<Longrightarrow> assemble_extract rec env node built \<noteq> None"
  by (auto simp: assemble_extract_def ends_on_refs_def Let_def fuelled_simps iff del: not_None_eq split: if_splits)

lemma assemble_ref_total: "assemble_ref env node built \<noteq> None"
  by (auto simp: assemble_ref_def fuelled_simps iff del: not_None_eq)

lemma verify_output_total: "verify_output env name b sha bs n built \<noteq> None"
  by (auto simp: verify_output_def fuelled_simps iff del: not_None_eq split: option.splits)

lemma sole_cost: "cost_ok sources c b \<Longrightarrow> as_array (jget b k) = Some xs \<Longrightarrow> sole xs = Inr x \<Longrightarrow> cost_ok sources c x"
  using cost_ok_array [OF cost_ok_jget_same, of sources c b k xs x] by (cases xs rule: sole.cases) auto

lemma assemble_gzip_total:
  assumes "ends_on sources c rec" "backward sources" "ce_sources env = sources" "cost_ok sources c b"
  shows "assemble_gzip rec env b sha built \<noteq> None"
  using materialize_total [OF assms(1,2,3)] sole_cost [OF assms(4)] verify_output_total
  by (auto simp: assemble_gzip_def Let_def case_prod_beta fuelled_simps iff del: not_None_eq)

lemma assemble_zstd_total:
  assumes "ends_on sources c rec" "backward sources" "ce_sources env = sources" "cost_ok sources c b"
  shows "assemble_zstd rec env b sha built \<noteq> None"
  using materialize_total [OF assms(1,2,3)] sole_cost [OF assms(4)] verify_output_total
  by (auto simp: assemble_zstd_def Let_def case_prod_beta fuelled_simps iff del: not_None_eq)

lemma pcluster_inputs_total:
  "ends_on sources c rec \<Longrightarrow> \<forall>x \<in> set inputs. cost_ok sources c x \<Longrightarrow> pcluster_inputs rec name inputs acc built \<noteq> None"
  by (induction inputs arbitrary: acc built) (auto simp: ends_on_def fuelled_simps iff del: not_None_eq)

lemma splice_inputs_total:
  "ends_on sources c rec \<Longrightarrow> \<forall>x \<in> set inputs. cost_ok sources c x \<Longrightarrow> splice_inputs rec inputs acc n built \<noteq> None"
  by (induction inputs arbitrary: acc n built) (auto simp: ends_on_def fuelled_simps iff del: not_None_eq)

lemma assemble_microlzma_total:
  assumes "ends_on sources c rec" "cost_ok sources c b"
  shows "assemble_microlzma rec env b sha built \<noteq> None"
proof -
  have "pcluster_inputs rec name inputs acc built \<noteq> None" if "as_array (jget b ''inputs'') = Some inputs" for name inputs acc
    using pcluster_inputs_total [OF assms(1)] cost_ok_array [OF cost_ok_jget_same [OF assms(2)] that] by blast
  then show ?thesis by (auto simp: assemble_microlzma_def Let_def fuelled_simps iff del: not_None_eq)
qed

lemma assemble_build_total:
  assumes rec: "ends_on sources c rec" "ends_on_refs rec" and src: "backward sources" "ce_sources env = sources"
    and b: "cost_ok sources c (jget node ''build'')"
  shows "assemble_build rec env node built \<noteq> None"
proof -
  have "splice_inputs rec inputs acc n built \<noteq> None" if "as_array (jget (jget node ''build'') ''inputs'') = Some inputs" for inputs acc n
    using splice_inputs_total [OF rec(1)] cost_ok_array [OF cost_ok_jget_same [OF b] that] by blast
  then show ?thesis
    using rec(2) assemble_gzip_total [OF rec(1) src b] assemble_zstd_total [OF rec(1) src b] assemble_microlzma_total [OF rec(1) b]
      verify_output_total
    by (auto simp: assemble_build_def ends_on_refs_def Let_def fuelled_simps iff del: not_None_eq split: if_splits)
qed

lemma assemble_as_ref: "assemble (Suc d) env (as_ref sha name) built = assemble_ref env (as_ref sha name) built"
  by (simp add: assemble_node_def, simp add: as_ref_def)

lemma ends_on_refs_assemble: "0 < d \<Longrightarrow> ends_on_refs (assemble d env)"
  by (cases d) (simp_all add: ends_on_refs_def assemble_as_ref assemble_ref_total del: not_None_eq assemble.simps(2))

lemma assemble_node_total:
  assumes rec: "ends_on sources (c - 1) rec" "ends_on_refs rec" and src: "backward sources" "ce_sources env = sources"
    and node: "cost_ok sources c node"
  shows "assemble_node rec env node built \<noteq> None"
proof -
  have down: "cost_ok sources (c - 1) (jget m k)" if "resolve_source node sources = Inr m" for m k
    by (rule cost_ok_jget [OF cost_ok_resolve [OF src(1) node that]])
  show ?thesis
    using down assemble_slice_total [OF rec(1) src] assemble_build_total [OF rec src] assemble_extract_total [OF rec(2)]
      assemble_ref_total src(2)
    by (auto simp: assemble_node_def fuelled_simps iff del: not_None_eq split: if_splits)
qed

lemma assemble_total:
  "backward sources \<Longrightarrow> ce_sources env = sources \<Longrightarrow> cost_ok sources c node \<Longrightarrow> c + 1 < d \<Longrightarrow>
     assemble d env node built \<noteq> None"
proof (induction d arbitrary: c node built)
  case (Suc d)
  show ?case
  proof (cases "c = 0")
    case False
    have "ends_on sources (c - 1) (assemble d env)"
      unfolding ends_on_def using Suc.IH [OF Suc.prems(1,2)] Suc.prems(4) False by auto
    then show ?thesis
      using assemble_node_total [OF _ ends_on_refs_assemble Suc.prems(1,2,3)] Suc.prems(4) by simp
  next
    case True
    have flat: "\<not> is_object (jget m k)" if "resolve_source node sources = Inr m" for m k
      using cost_ok_object [OF cost_ok_resolve [OF Suc.prems(1,3) that]] True by auto
    show ?thesis
    proof
      assume "assemble (Suc d) env node built = None"
      then show False using flat Suc.prems(2) by (auto simp: assemble_node_def fuelled_simps split: if_splits)
    qed
  qed
qed simp

text \<open>C36. A document whose table entries refer to earlier entries only is checked in a depth its size bounds:
  the check returns, whatever the document, the blobs and the coders hold.\<close>

theorem check_returns:
  assumes "backward (unwrap_or [] (as_array (jget doc ''sources'')))"
    and "doc_weight (unwrap_or [] (as_array (jget doc ''sources''))) (jget doc ''root'') + 2 \<le> d"
  shows "\<exists>result. check d env unzstd sidecar doc = Some result"
proof -
  let ?src = "unwrap_or [] (as_array (jget doc ''sources''))" and ?root = "jget doc ''root''"
  have "collect_missing d ?src (ce_blobs env) ?root [] \<noteq> None"
    by (rule collect_missing_total [OF assms(1) cost_ok_root]) (use assms(2) in simp)
  moreover have "assemble d (env\<lparr>ce_sources := ?src, ce_residue := residue\<rparr>) ?root Map.empty \<noteq> None" for residue
    by (rule assemble_total [OF assms(1) _ cost_ok_root]) (use assms(2) in simp_all)
  ultimately have "check d env unzstd sidecar doc \<noteq> None"
    by (auto simp: check_def Let_def fuelled_simps iff del: not_None_eq)
  then show ?thesis by simp
qed

text \<open>A container whose table holds an archive and a member sliced out of it.\<close>

definition sliced_doc :: json where
  "sliced_doc =
     JObj [(''hdx_recipe'', JStr ''1''),
           (''sources'', JArr
              [JObj [(''ref'', JObj [(''digests'', JObj [(''sha256'', JStr ''0a'')])])],
               JObj [(''build'', JObj [(''inputs'', JArr
                 [JObj [(''slice'', JObj [(''source'', JNum 0), (''from'', JNum 0), (''len'', JNum 1)])]])])]]),
           (''root'', JObj [(''source'', JNum 1)])]"

lemma check_returns_witness: "\<forall>env unzstd sidecar. \<exists>result. check 11 env unzstd sidecar sliced_doc = Some result"
proof (intro allI, rule check_returns)
  show "backward (unwrap_or [] (as_array (jget sliced_doc ''sources'')))"
    by (simp add: sliced_doc_def backward_def unwrap_or_def source_below_def)
  show "doc_weight (unwrap_or [] (as_array (jget sliced_doc ''sources''))) (jget sliced_doc ''root'') + 2 \<le> 11"
    by (simp add: sliced_doc_def doc_weight_def unwrap_or_def)
qed

subsection \<open>An entry that slices itself\<close>

definition self_slicing :: json where
  "self_slicing =
     JObj [(''build'', JObj [(''inputs'', JArr
       [JObj [(''slice'', JObj [(''source'', JNum 0), (''from'', JNum 0), (''len'', JNum 1)])]])])]"

definition cyclic_doc :: json where
  "cyclic_doc =
     JObj [(''hdx_recipe'', JStr ''1''), (''sources'', JArr [self_slicing]), (''root'', JObj [(''source'', JNum 0)])]"

lemma self_slicing_diverges:
  "collect_missing d [self_slicing] blobs self_slicing missing = None"
proof (induction d arbitrary: missing)
  case (Suc d)
  have "resolve_source self_slicing [self_slicing] = Inr self_slicing"
    "resolve_source (JObj [(''source'', JNum 0), (''from'', JNum 0), (''len'', JNum 1)]) [self_slicing] = Inr self_slicing"
    by (simp_all add: resolve_source_def) (simp_all add: self_slicing_def)
  moreover have "\<not> output_present blobs (jget self_slicing ''build'')"
    by (simp add: self_slicing_def output_present_def)
  moreover have "as_array (jget (jget self_slicing ''build'') ''inputs'') =
      Some [JObj [(''slice'', JObj [(''source'', JNum 0), (''from'', JNum 0), (''len'', JNum 1)])]]"
    "\<not> is_object (jget self_slicing ''ref'')" "\<not> is_object (jget self_slicing ''extract'')"
    "is_object (jget self_slicing ''build'')" "\<not> is_object (jget self_slicing ''literal'')"
    by (simp_all add: self_slicing_def)
  ultimately show ?case
    by (simp add: collect_node_def unwrap_or_def Suc)
qed simp

text \<open>C37. The guard against indirection loops does not see an entry that slices itself: the check of such a
  document does not return at any depth, so the recursion it runs on exhausts the stack.\<close>

theorem cyclic_recipe_never_checked: "check d env unzstd sidecar cyclic_doc = None"
proof -
  have root: "collect_missing d [self_slicing] (ce_blobs env) (JObj [(''source'', JNum 0)]) [] = None"
  proof (cases d)
    case (Suc e)
    have r: "resolve_source (JObj [(''source'', JNum 0)]) [self_slicing] = Inr self_slicing"
      "resolve_source self_slicing [self_slicing] = Inr self_slicing"
      by (simp_all add: resolve_source_def) (simp_all add: self_slicing_def)
    then show ?thesis
      using self_slicing_diverges [of d "ce_blobs env" "[]"] Suc by (simp add: collect_node_def)
  qed simp
  have "open_residue (ce_sha env) unzstd sidecar cyclic_doc = Inr None"
    by (simp add: open_residue_def cyclic_doc_def)
  then show ?thesis
    using root by (simp add: check_def cyclic_doc_def unwrap_or_def checkF_def)
qed

subsection \<open>A range that wraps\<close>

definition plain_ref :: "string \<Rightarrow> json" where
  "plain_ref sha = JObj [(''ref'', JObj [(''digests'', JObj [(''sha256'', JStr sha)])])]"

text \<open>Two blobs one after the other, and a slice whose end wraps to zero.\<close>

definition phantom_slice :: "string \<Rightarrow> json" where
  "phantom_slice sha =
     JObj [(''slice'', JObj [(''of'', plain_ref sha), (''from'', JNum 1), (''len'', JNum 18446744073709551615)])]"

definition phantom_doc :: "string \<Rightarrow> string \<Rightarrow> string \<Rightarrow> nat \<Rightarrow> json" where
  "phantom_doc s1 s2 t n =
     JObj [(''hdx_recipe'', JStr ''1''),
           (''root'', JObj [(''build'', JObj
              [(''output'', JObj [(''sha256'', JStr t), (''size'', JNum (int n))]),
               (''inputs'', JArr [plain_ref s1, plain_ref s2, phantom_slice s1])])])]"

lemma plain_ref_node:
  "resolve_source (plain_ref sha) sources = Inr (plain_ref sha)" "node_sha256 (plain_ref sha) = Inr sha"
  "\<not> is_object (jget (plain_ref sha) ''literal'')" "\<not> is_object (jget (plain_ref sha) ''slice'')"
  "\<not> is_object (jget (plain_ref sha) ''extract'')" "is_object (jget (plain_ref sha) ''ref'')" "is_object (plain_ref sha)"
  by (simp_all add: plain_ref_def resolve_source_def node_sha256_def needed_def)

lemma assemble_plain_ref:
  assumes "ce_blobs env sha = Some p" "ce_file env p = Some bs" "hex_sha env bs = sha"
  shows "assemble (Suc d) env (plain_ref sha) built = Some (Inr ((bs, length bs), built))"
proof -
  have "json_str (jget (jget (jget (plain_ref sha) ''ref'') ''digests'') ''sha256'') = Some sha"
    by (simp add: plain_ref_def)
  then show ?thesis
    using assms by (simp add: assemble_node_def plain_ref_node assemble_ref_def needed_def opened_def checkF_def okF_def)
qed

lemma assemble_phantom:
  assumes "ce_blobs env sha = Some p" "ce_file env p = Some bs"
  shows "assemble (Suc d) env (phantom_slice sha) built = Some (Inr (([], 18446744073709551615), built))"
proof -
  have "spool_range (SpFile bs) 1 18446744073709551615 = Inr []"
    by (simp add: add64_def file_range.simps)
  then show ?thesis
    using assms by (simp add: assemble_node_def assemble_slice_def phantom_slice_def resolve_source_def plain_ref_node needed_def
        opened_def okF_def del: spool_range.simps)
qed

lemma collect_plain_ref:
  "blobs sha \<noteq> None \<Longrightarrow> collect_missing (Suc d) sources blobs (plain_ref sha) missing = okF missing"
  by (simp add: collect_node_def plain_ref_node) (simp add: plain_ref_def missing_ref_def unwrap_or_def)

text \<open>C38. A slice whose end wraps gives nothing and is counted at its stated length: a recipe that states one
  byte less than its blobs hold passes both the digest and the size check, and the count reported is wrong.\<close>

theorem phantom_slice_miscounts:
  assumes "ce_blobs env s1 = Some p1" "ce_file env p1 = Some bs1" "hex_sha env bs1 = s1"
    and "ce_blobs env s2 = Some p2" "ce_file env p2 = Some bs2" "hex_sha env bs2 = s2"
    and "ce_blobs env t = None" "hex_sha env (bs1 @ bs2) = t"
    and "0 < length (bs1 @ bs2)" "length (bs1 @ bs2) < 2 ^ 64"
  shows "check 2 env unzstd sidecar (phantom_doc s1 s2 t (length (bs1 @ bs2) - 1)) =
           Some (Inr (bs1 @ bs2, length (bs1 @ bs2) - 1))"
proof -
  define n where "n = length (bs1 @ bs2) - 1"
  let ?doc = "phantom_doc s1 s2 t n"
  let ?root = "jget ?doc ''root''"
  let ?env = "env\<lparr>ce_sources := [], ce_residue := None\<rparr>"
  have hex: "hex_sha ?env = hex_sha env" by (simp add: hex_sha_def fun_eq_iff)
  have res: "open_residue (ce_sha env) unzstd sidecar ?doc = Inr None" by (simp add: open_residue_def phantom_doc_def)
  have root: "?root = JObj [(''build'', JObj
              [(''output'', JObj [(''sha256'', JStr t), (''size'', JNum (int n))]),
               (''inputs'', JArr [plain_ref s1, plain_ref s2, phantom_slice s1])])]"
    by (simp add: phantom_doc_def)
  have slice: "jget (phantom_slice s1) ''slice'' = JObj [(''of'', plain_ref s1), (''from'', JNum 1), (''len'', JNum 18446744073709551615)]"
    by (simp add: phantom_slice_def)
  have two: "(2 :: nat) = Suc (Suc 0)" by simp
  have "collect_missing 2 [] (ce_blobs env) ?root [] = okF []"
    unfolding two root collect_missing.simps(2) [of "Suc 0"]
    using assms(1,4,7) collect_plain_ref [of "ce_blobs env" _ 0]
    by (simp add: collect_node_def resolve_source_def output_present_def unwrap_or_def plain_ref_node slice Let_def del: collect_missing.simps)
  moreover have count: "add64 (add64 (add64 0 (length bs1)) (length bs2)) 18446744073709551615 = n"
    using assms(9,10) by (cases "length (bs1 @ bs2)") (simp_all add: n_def add64_def mod_add_left_eq)
  moreover have refs: "assemble (Suc 0) ?env (plain_ref s1) b = Some (Inr ((bs1, length bs1), b))"
    "assemble (Suc 0) ?env (plain_ref s2) b = Some (Inr ((bs2, length bs2), b))"
    "assemble (Suc 0) ?env (phantom_slice s1) b = Some (Inr (([], 18446744073709551615), b))" for b
    using assms hex by (auto intro!: assemble_plain_ref assemble_phantom simp del: assemble.simps)
  have small: "int n < 18446744073709551616" using assms(10) by (simp add: n_def)
  have "assemble 2 ?env ?root Map.empty = Some (Inr ((bs1 @ bs2, n), Map.empty))"
    unfolding two root assemble.simps(2) [of "Suc 0"]
    using assms(7,8) hex count small
    by (simp add: assemble_node_def assemble_build_def resolve_source_def node_sha256_def needed_def unwrap_or_def or_else_def
        refs verify_output_def checkF_def okF_def del: assemble.simps)
  moreover have "node_sha256 ?root = Inr t" by (simp add: root node_sha256_def needed_def)
  ultimately have "check 2 env unzstd sidecar ?doc = Some (Inr (bs1 @ bs2, n))"
    using res hex assms(8) unfolding check_def
    by (simp add: Let_def okF_def checkF_def root) (simp add: phantom_doc_def unwrap_or_def)
  then show ?thesis by (simp only: n_def)
qed

lemma phantom_slice_miscounts_witness:
  "check 2 sample_env Some None (phantom_doc ''aa'' ''bb'' ''aabb'' (length ([0xaa] @ [0xbb :: byte]) - 1)) =
     Some (Inr ([0xaa] @ [0xbb], length ([0xaa] @ [0xbb :: byte]) - 1))"
  by (rule phantom_slice_miscounts [where ?p1.0 = "''a''" and ?p2.0 = "''b''"]) (simp_all add: sample_env_def hex_sha_def sample_hex)

end
