(* ===== verification/Hdx_Available.thy ===== *)
theory Hdx_Available
  imports Hdx_Checked
begin

text \<open>
  The two traversals of a check agree: when the first finds nothing missing, the second never fails
  for want of a blob, on documents whose nodes have one kind, whose table holds no slices and whose
  extracts come out of referenced archives.
\<close>

fun is_missing :: "check_error \<Rightarrow> bool" where
  "is_missing (MissingBlob _) = True"
| "is_missing (MissingArchive _) = True"
| "is_missing _ = False"

text \<open>What the traversal that looks for blobs takes for granted of a document.\<close>

definition fetchable_node :: "json list \<Rightarrow> json \<Rightarrow> bool" where
  "fetchable_node sources n \<longleftrightarrow>
     one_kind n \<and>
     (is_object (jget n ''extract'') \<longrightarrow>
        (case resolve_source (jget (jget n ''extract'') ''archive'') sources of
           Inl _ \<Rightarrow> True | Inr m \<Rightarrow> is_object (jget m ''ref'')))"

definition fetchable_doc :: "json list \<Rightarrow> json \<Rightarrow> bool" where
  "fetchable_doc sources root \<longleftrightarrow>
     everywhere (fetchable_node sources) root \<and> list_all (everywhere (fetchable_node sources)) sources \<and>
     list_all (\<lambda>n. \<not> is_object (jget n ''slice'')) (root # sources)"

subsection \<open>The first traversal only adds\<close>

lemma missing_ref_extends: "\<exists>ys. missing_ref blobs r missing = missing @ ys"
  by (simp add: missing_ref_def Let_def)

definition extends :: "(json \<Rightarrow> missing \<Rightarrow> missing fuelled) \<Rightarrow> bool" where
  "extends rec \<longleftrightarrow> (\<forall>node missing out. rec node missing = Some (Inr out) \<longrightarrow> (\<exists>ys. out = missing @ ys))"

lemma collect_inputs_extends:
  assumes rec: "extends rec"
  shows "collect_inputs rec sources inputs missing = Some (Inr out) \<Longrightarrow> \<exists>ys. out = missing @ ys"
proof (induction inputs arbitrary: missing)
  case (Cons x xs)
  then obtain inner mid where m: "mid = missing \<or> rec inner missing = Some (Inr mid)"
    "collect_inputs rec sources xs mid = Some (Inr out)"
    by (auto simp: Let_def fuelled_simps split: if_splits)
  obtain ys where "mid = missing @ ys" using m(1) rec unfolding extends_def by (metis append_Nil2)
  then show ?case using Cons.IH [OF m(2)] by auto
qed (simp add: fuelled_simps)

lemma collect_missing_extends: "extends (collect_missing d sources blobs)"
proof (induction d)
  case (Suc d)
  show ?case
    unfolding extends_def
  proof (intro allI impI)
    fix node missing out
    assume "collect_missing (Suc d) sources blobs node missing = Some (Inr out)"
    then show "\<exists>ys. out = missing @ ys"
      using Suc missing_ref_extends collect_inputs_extends [OF Suc]
      by (auto simp: collect_node_def extends_def fuelled_simps split: if_splits)
  qed
qed (simp add: extends_def)

text \<open>Nothing is missing below a node.\<close>

definition avail :: "json list \<Rightarrow> (string \<rightharpoonup> 'p) \<Rightarrow> json \<Rightarrow> bool" where
  "avail sources blobs node \<longleftrightarrow> (\<exists>d. collect_missing d sources blobs node [] = Some (Inr []))"

text \<open>What the target of a slice is.\<close>

definition slice_target :: "json list \<Rightarrow> json \<Rightarrow> check_error + json" where
  "slice_target sources sl = (if is_object (jget sl ''of'') then Inr (jget sl ''of'') else resolve_source sl sources)"

lemma target_okF:
  "(if is_object (jget sl ''of'') then okF (jget sl ''of'') else Some (resolve_source sl sources)) = Some (slice_target sources sl)"
  by (simp add: slice_target_def okF_def)

definition input_avail :: "json list \<Rightarrow> (string \<rightharpoonup> 'p) \<Rightarrow> json \<Rightarrow> bool" where
  "input_avail sources blobs x \<longleftrightarrow>
     (\<forall>inner. (if is_object (jget x ''slice'') then slice_target sources (jget x ''slice'') else Inr x) = Inr inner \<longrightarrow>
        is_object (jget inner ''literal'') \<or> avail sources blobs inner)"

lemma collect_inputs_avail:
  "collect_inputs (collect_missing d sources blobs) sources inputs [] = Some (Inr []) \<Longrightarrow> x \<in> set inputs \<Longrightarrow>
     input_avail sources blobs x"
proof (induction inputs)
  case (Cons y ys)
  then obtain inner mid where m:
    "(if is_object (jget y ''slice'')
      then if is_object (jget (jget y ''slice'') ''of'') then okF (jget (jget y ''slice'') ''of'')
           else Some (resolve_source (jget y ''slice'') sources)
      else okF y) = Some (Inr inner)"
    "(if is_object (jget inner ''literal'') then okF [] else collect_missing d sources blobs inner []) = Some (Inr mid)"
    "collect_inputs (collect_missing d sources blobs) sources ys mid = Some (Inr [])"
    unfolding collect_inputs.simps Let_def bindF_Inr by blast
  have mid: "mid = []" using collect_inputs_extends [OF collect_missing_extends m(3)] by simp
  have "is_object (jget inner ''literal'') \<or> avail sources blobs inner"
    using m(2) mid by (auto simp: avail_def split: if_splits)
  moreover have "(if is_object (jget y ''slice'') then slice_target sources (jget y ''slice'') else Inr y) = Inr inner"
    using m(1) by (auto simp: slice_target_def okF_def split: if_splits)
  ultimately have "input_avail sources blobs y" by (simp add: input_avail_def)
  then show ?case using Cons m(3) mid by auto
qed simp

lemma avail_cases:
  assumes "avail sources blobs node"
  obtains m where "resolve_source node sources = Inr m"
    "is_object (jget m ''ref'') \<Longrightarrow> blobs (unwrap_or [] (json_str (jget (jget (jget m ''ref'') ''digests'') ''sha256''))) \<noteq> None"
    "\<not> is_object (jget m ''ref'') \<Longrightarrow> is_object (jget m ''extract'') \<Longrightarrow> \<not> output_present blobs (jget m ''extract'') \<Longrightarrow>
       avail sources blobs (jget (jget m ''extract'') ''archive'')"
    "\<not> is_object (jget m ''ref'') \<Longrightarrow> \<not> is_object (jget m ''extract'') \<Longrightarrow> is_object (jget m ''build'') \<Longrightarrow>
       \<not> output_present blobs (jget m ''build'') \<Longrightarrow>
       \<forall>x \<in> set (unwrap_or [] (as_array (jget (jget m ''build'') ''inputs''))). input_avail sources blobs x"
proof -
  obtain d where d: "collect_missing d sources blobs node [] = Some (Inr [])" using assms by (auto simp: avail_def)
  then obtain d' where Suc: "d = Suc d'" by (cases d) auto
  note run = d [unfolded Suc collect_missing.simps collect_node_def]
  obtain m where m: "resolve_source node sources = Inr m" using run by (auto simp: fuelled_simps)
  note run' = run [unfolded m bindF_simps]
  show thesis
  proof (rule that [OF m])
    show "blobs (unwrap_or [] (json_str (jget (jget (jget m ''ref'') ''digests'') ''sha256''))) \<noteq> None"
      if "is_object (jget m ''ref'')"
      using run' that by (auto simp: missing_ref_def Let_def fuelled_simps split: if_splits)
    show "avail sources blobs (jget (jget m ''extract'') ''archive'')"
      if "\<not> is_object (jget m ''ref'')" "is_object (jget m ''extract'')" "\<not> output_present blobs (jget m ''extract'')"
      using run' that by (auto simp: avail_def)
    show "\<forall>x \<in> set (unwrap_or [] (as_array (jget (jget m ''build'') ''inputs''))). input_avail sources blobs x"
      if "\<not> is_object (jget m ''ref'')" "\<not> is_object (jget m ''extract'')" "is_object (jget m ''build'')"
        "\<not> output_present blobs (jget m ''build'')"
      using run' that collect_inputs_avail by auto
  qed
qed

lemma avail_resolved: "avail sources blobs node \<Longrightarrow> resolve_source node sources = Inr m \<Longrightarrow> avail sources blobs m"
proof -
  assume a: "avail sources blobs node" and m: "resolve_source node sources = Inr m"
  obtain d where d: "collect_missing d sources blobs node [] = Some (Inr [])" using a by (auto simp: avail_def)
  then obtain d' where Suc: "d = Suc d'" by (cases d) auto
  have "collect_missing d sources blobs m [] = collect_missing d sources blobs node []"
    unfolding Suc collect_missing.simps collect_node_def m resolve_sourceless [OF resolved_sourceless [OF m]] ..
  then show "avail sources blobs m" using d by (auto simp: avail_def)
qed

subsection \<open>Errors of other kinds\<close>

named_theorems calm \<open>operations that never report a missing blob\<close>

lemma caseF_Inl [fuelled_simps]:
  "(case r of Inl e \<Rightarrow> failF (h e) | Inr x \<Rightarrow> f x) = Some (Inl e') \<longleftrightarrow>
     (\<exists>e. r = Inl e \<and> e' = h e) \<or> (\<exists>x. r = Inr x \<and> f x = Some (Inl e'))"
  "(case a of None \<Rightarrow> failF k | Some x \<Rightarrow> g x) = Some (Inl e') \<longleftrightarrow> (a = None \<and> e' = k) \<or> (\<exists>x. a = Some x \<and> g x = Some (Inl e'))"
  by (auto simp: failF_def split: sum.splits option.splits)

lemma needed_calm [calm]: "needed w a = Inl e \<Longrightarrow> \<not> is_missing e"
  by (auto simp: needed_def split: option.splits)

lemma resolve_calm [calm]: "resolve_source n sources = Inl e \<Longrightarrow> \<not> is_missing e"
proof -
  have "resolve_loop k n sources = Inl e \<Longrightarrow> \<not> is_missing e" for k
    by (induction k arbitrary: n) (auto split: option.splits if_splits)
  then show "resolve_source n sources = Inl e \<Longrightarrow> \<not> is_missing e" unfolding resolve_source_def .
qed

lemma node_sha256_calm [calm]: "node_sha256 n = Inl e \<Longrightarrow> \<not> is_missing e"
  by (auto simp: node_sha256_def dest: needed_calm split: if_splits)

lemma hexlower_calm [calm]: "hexlower_decode s = Inl e \<Longrightarrow> \<not> is_missing e"
  by (auto simp: hexlower_decode_def split: if_splits)

lemma opened_calm [calm]: "opened env p = Inl e \<Longrightarrow> \<not> is_missing e"
  by (auto simp: opened_def split: option.splits)

lemma file_range_calm: "file_range f pos fin = Inl e \<Longrightarrow> \<not> is_missing e"
proof (induction f pos fin rule: file_range.induct)
  case (1 f pos fin)
  then show ?case by (subst (asm) (2) file_range.simps) (auto simp: Let_def bindR_eq_Inl split: if_splits)
qed

lemma spool_range_calm [calm]: "spool_range sp start len = Inl e \<Longrightarrow> \<not> is_missing e"
  by (cases sp) (auto simp: Let_def dest: file_range_calm split: if_splits)

lemma sole_calm [calm]: "sole xs = Inl e \<Longrightarrow> \<not> is_missing e"
  by (cases xs rule: sole.cases) auto

lemma zstd_params_calm [calm]: "zstd_params p = Inl e \<Longrightarrow> \<not> is_missing e"
  by (auto simp: zstd_params_def bindR_eq_Inl dest: needed_calm)

lemma assemble_literal_calm [calm]: "assemble_literal env l = Inl e \<Longrightarrow> \<not> is_missing e"
  by (auto simp: assemble_literal_def bindR_eq_Inl dest: needed_calm hexlower_calm spool_range_calm split: option.splits)

lemma verify_output_calm [calm]: "verify_output env name b sha bs n built = Some (Inl e) \<Longrightarrow> \<not> is_missing e"
  by (auto simp: verify_output_def fuelled_simps split: option.splits)

text \<open>Neither does the first traversal, which reports what is missing as its result.\<close>

lemma collect_inputs_calm:
  "(\<And>node missing e. rec node missing = Some (Inl e) \<Longrightarrow> \<not> is_missing e) \<Longrightarrow>
     collect_inputs rec sources inputs missing = Some (Inl e) \<Longrightarrow> \<not> is_missing e"
  by (induction inputs arbitrary: missing)
    (auto simp: Let_def fuelled_simps dest: resolve_calm split: if_splits)

lemma collect_missing_calm: "collect_missing d sources blobs node missing = Some (Inl e) \<Longrightarrow> \<not> is_missing e"
proof (induction d arbitrary: node missing e)
  case (Suc d)
  then show ?case
    by (auto simp: collect_node_def fuelled_simps dest: resolve_calm collect_inputs_calm [rotated] split: if_splits)
qed simp

subsection \<open>The second traversal\<close>

definition fed :: "check_env \<Rightarrow> json \<Rightarrow> bool" where
  "fed env node \<longleftrightarrow>
     (\<forall>m. resolve_source node (ce_sources env) = Inr m \<longrightarrow>
        is_object (jget m ''literal'') \<or>
        (if is_object (jget m ''slice'')
         then \<forall>t. slice_target (ce_sources env) (jget m ''slice'') = Inr t \<longrightarrow>
                is_object (jget t ''literal'') \<or> avail (ce_sources env) (ce_blobs env) t
         else avail (ce_sources env) (ce_blobs env) m))"

definition no_miss :: "check_env \<Rightarrow> assembler \<Rightarrow> bool" where
  "no_miss env rec \<longleftrightarrow>
     (\<forall>node built e. everywhere (fetchable_node (ce_sources env)) node \<longrightarrow> fed env node \<longrightarrow>
        rec node built = Some (Inl e) \<longrightarrow> \<not> is_missing e)"

definition table_ok :: "json list \<Rightarrow> bool" where
  "table_ok sources \<longleftrightarrow>
     list_all (everywhere (fetchable_node sources)) sources \<and> list_all (\<lambda>n. \<not> is_object (jget n ''slice'')) sources"

lemma no_missD:
  "no_miss env rec \<Longrightarrow> everywhere (fetchable_node (ce_sources env)) node \<Longrightarrow> fed env node \<Longrightarrow>
     rec node built = Some (Inl e) \<Longrightarrow> \<not> is_missing e"
  by (simp add: no_miss_def)

lemma fetchable_null: "fetchable_node sources JNull"
  by (simp add: fetchable_node_def one_kind_def node_kinds_def)

lemma fetchable_jget: "everywhere (fetchable_node sources) j \<Longrightarrow> everywhere (fetchable_node sources) (jget j k)"
  by (erule everywhere_jget) (rule fetchable_null)

lemma fetchable_one_kind: "everywhere (fetchable_node sources) j \<Longrightarrow> one_kind j"
  using everywhere_self [of "fetchable_node sources" j] by (simp add: fetchable_node_def)

lemma fetchable_as_ref: "everywhere (fetchable_node sources) name \<Longrightarrow> everywhere (fetchable_node sources) (as_ref sha name)"
  by (simp add: as_ref_def fetchable_node_def one_kind_def node_kinds_def)

lemma as_ref_fed: "ce_blobs env sha \<noteq> None \<Longrightarrow> fed env (as_ref sha name)"
proof -
  assume b: "ce_blobs env sha \<noteq> None"
  have "avail (ce_sources env) (ce_blobs env) (as_ref sha name)"
    unfolding avail_def
    by (rule exI [of _ "Suc 0"]) (use b in \<open>simp add: collect_node_def, simp add: as_ref_def missing_ref_def unwrap_or_def okF_def\<close>)
  then show ?thesis by (simp add: fed_def) (simp add: as_ref_def)
qed

lemma chain_in_table: "chain sources k n = Some m \<Longrightarrow> m = n \<or> m \<in> set sources"
proof (induction k arbitrary: n)
  case (Suc k)
  then obtain i where "i < length sources" "chain sources k (sources ! i) = Some m"
    by (auto simp: indirect_def split: option.splits if_splits)
  with Suc.IH [of "sources ! i"] show ?case by auto
qed simp

lemma resolved_in_table: "resolve_source n sources = Inr m \<Longrightarrow> m = n \<or> m \<in> set sources"
  unfolding resolve_source_def using resolve_loop_chain chain_in_table by metis

lemma fed_resolved: "fed env node \<Longrightarrow> resolve_source node (ce_sources env) = Inr m \<Longrightarrow> fed env m"
  using resolve_sourceless [OF resolved_sourceless] by (auto simp: fed_def)

text \<open>A node that is not itself a slice or a literal and below which nothing is missing.\<close>

lemma avail_fed:
  assumes "table_ok (ce_sources env)" "\<not> is_object (jget node ''slice'')" "avail (ce_sources env) (ce_blobs env) node"
  shows "fed env node"
  unfolding fed_def
proof (intro allI impI)
  fix m
  assume m: "resolve_source node (ce_sources env) = Inr m"
  have "\<not> is_object (jget m ''slice'')"
    using resolved_in_table [OF m] assms(1,2) by (auto simp: table_ok_def list_all_iff)
  then show "is_object (jget m ''literal'') \<or>
    (if is_object (jget m ''slice'')
     then \<forall>t. slice_target (ce_sources env) (jget m ''slice'') = Inr t \<longrightarrow>
            is_object (jget t ''literal'') \<or> avail (ce_sources env) (ce_blobs env) t
     else avail (ce_sources env) (ce_blobs env) m)"
    using avail_resolved [OF assms(3) m] by simp
qed

lemma input_fed:
  assumes tab: "table_ok (ce_sources env)" and x: "everywhere (fetchable_node (ce_sources env)) x"
    and a: "input_avail (ce_sources env) (ce_blobs env) x"
  shows "fed env x"
proof (cases "is_object (jget x ''slice'') \<or> is_object (jget x ''literal'')")
  case True
  then have "as_u64 (jget x ''source'') = None"
    using one_kind_exclusive(6) [OF fetchable_one_kind [OF x]] by (auto simp: node_kinds_def)
  then have "resolve_source x (ce_sources env) = Inr x" by (rule resolve_sourceless)
  then show ?thesis using True a by (auto simp: fed_def input_avail_def)
next
  case False
  then show ?thesis using avail_fed [OF tab] a by (auto simp: input_avail_def)
qed

lemma materialize_calm:
  assumes rec: "no_miss env rec" and tab: "table_ok (ce_sources env)"
    and node: "everywhere (fetchable_node (ce_sources env)) node" "fed env node"
    and run: "materialize rec env node built = Some (Inl e)"
  shows "\<not> is_missing e"
proof (cases "resolve_source node (ce_sources env)")
  case (Inl e')
  then show ?thesis using run resolve_calm [OF Inl] by (auto simp: materialize_def fuelled_simps)
next
  case (Inr m)
  have "everywhere (fetchable_node (ce_sources env)) m"
    using resolved_everywhere [OF Inr node(1)] tab by (simp add: table_ok_def)
  moreover have "rec m built = Some (Inl e)"
    using run Inr by (auto simp: materialize_def fuelled_simps Let_def)
  ultimately show ?thesis using no_missD [OF rec _ fed_resolved [OF node(2) Inr]] by blast
qed

lemma assemble_slice_calm:
  assumes rec: "no_miss env rec" and tab: "table_ok (ce_sources env)"
    and sl: "everywhere (fetchable_node (ce_sources env)) sl"
    and target: "\<And>t. slice_target (ce_sources env) sl = Inr t \<Longrightarrow>
       is_object (jget t ''literal'') \<or> avail (ce_sources env) (ce_blobs env) t"
    and run: "assemble_slice rec env sl built = Some (Inl e)"
  shows "\<not> is_missing e"
proof (cases "slice_target (ce_sources env) sl")
  case (Inl e')
  then have "e' = e" "resolve_source sl (ce_sources env) = Inl e'"
    using run by (auto simp: assemble_slice_def target_okF slice_target_def split: if_splits)
  then show ?thesis using resolve_calm by blast
next
  case (Inr t)
  have te: "everywhere (fetchable_node (ce_sources env)) t"
    using Inr sl fetchable_jget resolved_everywhere [OF _ sl] tab
    by (auto simp: slice_target_def table_ok_def split: if_splits)
  have mat: "\<not> is_missing e'" if "node_sha256 t = Inr sha" "materialize rec env t built = Some (Inl e')" for sha e'
  proof -
    have "is_object (jget t ''ref'') \<or> is_object (jget t ''build'') \<or> is_object (jget t ''extract'')"
      using that(1) by (auto simp: node_sha256_def split: if_splits)
    then have "\<not> is_object (jget t ''literal'')" "\<not> is_object (jget t ''slice'')"
      using one_kind_exclusive(1,2,3) [OF fetchable_one_kind [OF te]] by blast+
    then show ?thesis
      using materialize_calm [OF rec tab te avail_fed [OF tab] that(2)] target [OF Inr] by blast
  qed
  show ?thesis
    using run Inr mat
    by (auto simp: assemble_slice_def target_okF fuelled_simps simp del: spool_range.simps
        dest: needed_calm node_sha256_calm opened_calm spool_range_calm split: option.split_asm if_splits)
qed

lemma as_ref_calm:
  assumes "no_miss env rec" "everywhere (fetchable_node (ce_sources env)) name" "ce_blobs env sha \<noteq> None"
    "rec (as_ref sha name) built = Some (Inl e)"
  shows "\<not> is_missing e"
  by (rule no_missD [OF assms(1) fetchable_as_ref [OF assms(2)] as_ref_fed [OF assms(3)] assms(4)])

lemma assemble_extract_calm:
  assumes rec: "no_miss env rec" and node: "everywhere (fetchable_node (ce_sources env)) node"
    and ext: "is_object (jget node ''extract'')"
    and a: "output_present (ce_blobs env) (jget node ''extract'') \<or>
            avail (ce_sources env) (ce_blobs env) (jget (jget node ''extract'') ''archive'')"
    and run: "assemble_extract rec env node built = Some (Inl e)"
  shows "\<not> is_missing e"
proof -
  let ?e = "jget node ''extract''"
  have there: "ce_blobs env asha \<noteq> None"
    if want: "json_str (jget (jget ?e ''output'') ''sha256'') = Some want" "ce_blobs env want = None"
      and archive: "resolve_source (jget ?e ''archive'') (ce_sources env) = Inr archive" "node_sha256 archive = Inr asha"
    for want archive asha
  proof -
    have ref: "is_object (jget archive ''ref'')"
      using everywhere_self [OF node] ext archive(1) by (simp add: fetchable_node_def)
    have "avail (ce_sources env) (ce_blobs env) (jget ?e ''archive'')"
      using a want by (simp add: output_present_def)
    then have "ce_blobs env (unwrap_or [] (json_str (jget (jget (jget archive ''ref'') ''digests'') ''sha256''))) \<noteq> None"
      by (rule avail_cases) (use archive(1) ref in simp)
    then show ?thesis
      using archive(2) ref by (auto simp: node_sha256_def needed_def unwrap_or_def split: option.splits)
  qed
  have direct: "\<not> is_missing e'" if "ce_blobs env want \<noteq> None" "rec (as_ref want (jget ?e ''name'')) built = Some (Inl e')" for want e'
    by (rule as_ref_calm [OF rec fetchable_jget [OF fetchable_jget [OF node]] that])
  show ?thesis
  proof (cases "needed ''extract sha256'' (json_str (jget (jget ?e ''output'') ''sha256''))")
    case (Inl e')
    then show ?thesis using run needed_calm [OF Inl] by (auto simp: assemble_extract_def Let_def)
  next
    case want: (Inr want)
    show ?thesis
    proof (cases "needed ''extract size'' (as_u64 (jget (jget ?e ''output'') ''size''))")
      case (Inl e')
      then show ?thesis using run want needed_calm [OF Inl] by (auto simp: assemble_extract_def Let_def)
    next
      case (Inr sz)
      show ?thesis
      proof (cases "ce_blobs env want = None")
        case False
        then show ?thesis using run want Inr direct [OF False] by (simp add: assemble_extract_def Let_def)
      next
        case True
        have stated: "json_str (jget (jget ?e ''output'') ''sha256'') = Some want" using want by (simp add: fuelled_simps)
        show ?thesis
          using run want Inr True there [OF stated True]
          by (auto simp: assemble_extract_def Let_def fuelled_simps dest: needed_calm resolve_calm node_sha256_calm opened_calm)
            (metis option.distinct(1))
      qed
    qed
  qed
qed

lemma assemble_ref_calm:
  assumes "ce_blobs env (unwrap_or [] (json_str (jget (jget (jget node ''ref'') ''digests'') ''sha256''))) \<noteq> None"
    and "assemble_ref env node built = Some (Inl e)"
  shows "\<not> is_missing e"
  using assms by (auto simp: assemble_ref_def fuelled_simps unwrap_or_def dest: needed_calm opened_calm)

lemma inputs_fed:
  assumes tab: "table_ok (ce_sources env)" and b: "everywhere (fetchable_node (ce_sources env)) b"
    and inputs: "as_array (jget b ''inputs'') = Some xs"
    and a: "\<forall>x \<in> set (unwrap_or [] (as_array (jget b ''inputs''))). input_avail (ce_sources env) (ce_blobs env) x"
  shows "\<forall>x \<in> set xs. everywhere (fetchable_node (ce_sources env)) x \<and> fed env x"
proof
  fix x
  assume x: "x \<in> set xs"
  have "everywhere (fetchable_node (ce_sources env)) x" by (rule everywhere_array [OF fetchable_jget [OF b] inputs x])
  then show "everywhere (fetchable_node (ce_sources env)) x \<and> fed env x"
    using input_fed [OF tab] a x inputs by (simp add: unwrap_or_def)
qed

lemma sole_member: "sole xs = Inr x \<Longrightarrow> x \<in> set xs"
  by (cases xs rule: sole.cases) auto

lemma assemble_gzip_calm:
  assumes rec: "no_miss env rec" and tab: "table_ok (ce_sources env)"
    and xs: "\<And>xs. as_array (jget b ''inputs'') = Some xs \<Longrightarrow> \<forall>x \<in> set xs. everywhere (fetchable_node (ce_sources env)) x \<and> fed env x"
    and run: "assemble_gzip rec env b sha built = Some (Inl e)"
  shows "\<not> is_missing e"
proof -
  have "\<not> is_missing e'" if "as_array (jget b ''inputs'') = Some ys" "sole ys = Inr y" "materialize rec env y built = Some (Inl e')" for ys y e'
    using materialize_calm [OF rec tab _ _ that(3)] xs [OF that(1)] sole_member [OF that(2)] by blast
  then show ?thesis
    using run
    by (auto simp: assemble_gzip_def Let_def case_prod_beta fuelled_simps
        dest: needed_calm hexlower_calm sole_calm verify_output_calm)
qed

lemma assemble_zstd_calm:
  assumes rec: "no_miss env rec" and tab: "table_ok (ce_sources env)"
    and xs: "\<And>xs. as_array (jget b ''inputs'') = Some xs \<Longrightarrow> \<forall>x \<in> set xs. everywhere (fetchable_node (ce_sources env)) x \<and> fed env x"
    and run: "assemble_zstd rec env b sha built = Some (Inl e)"
  shows "\<not> is_missing e"
proof -
  have "\<not> is_missing e'" if "as_array (jget b ''inputs'') = Some ys" "sole ys = Inr y" "materialize rec env y built = Some (Inl e')" for ys y e'
    using materialize_calm [OF rec tab _ _ that(3)] xs [OF that(1)] sole_member [OF that(2)] by blast
  then show ?thesis
    using run
    by (auto simp: assemble_zstd_def Let_def case_prod_beta fuelled_simps
        dest: needed_calm zstd_params_calm sole_calm verify_output_calm)
qed

lemma pcluster_inputs_calm:
  assumes rec: "no_miss env rec"
  shows "\<forall>x \<in> set xs. everywhere (fetchable_node (ce_sources env)) x \<and> fed env x \<Longrightarrow>
    pcluster_inputs rec name xs acc built = Some (Inl e) \<Longrightarrow> \<not> is_missing e"
  by (induction xs arbitrary: acc built) (auto simp: fuelled_simps dest: no_missD [OF rec])

lemma splice_inputs_calm:
  assumes rec: "no_miss env rec"
  shows "\<forall>x \<in> set xs. everywhere (fetchable_node (ce_sources env)) x \<and> fed env x \<Longrightarrow>
    splice_inputs rec xs acc n built = Some (Inl e) \<Longrightarrow> \<not> is_missing e"
  by (induction xs arbitrary: acc n built) (auto simp: fuelled_simps dest: no_missD [OF rec])

lemma assemble_microlzma_calm:
  assumes rec: "no_miss env rec"
    and xs: "\<And>xs. as_array (jget b ''inputs'') = Some xs \<Longrightarrow> \<forall>x \<in> set xs. everywhere (fetchable_node (ce_sources env)) x \<and> fed env x"
    and run: "assemble_microlzma rec env b sha built = Some (Inl e)"
  shows "\<not> is_missing e"
  using run pcluster_inputs_calm [OF rec xs]
  by (auto simp: assemble_microlzma_def Let_def fuelled_simps dest: needed_calm)

lemma assemble_build_calm:
  assumes rec: "no_miss env rec" and tab: "table_ok (ce_sources env)"
    and node: "everywhere (fetchable_node (ce_sources env)) node" and bld: "is_object (jget node ''build'')"
    and a: "output_present (ce_blobs env) (jget node ''build'') \<or>
       (\<forall>x \<in> set (unwrap_or [] (as_array (jget (jget node ''build'') ''inputs''))). input_avail (ce_sources env) (ce_blobs env) x)"
    and run: "assemble_build rec env node built = Some (Inl e)"
  shows "\<not> is_missing e"
proof (cases "node_sha256 node")
  case (Inl e')
  then show ?thesis using run node_sha256_calm [OF Inl] by (auto simp: assemble_build_def Let_def fuelled_simps)
next
  case (Inr sha)
  let ?b = "jget node ''build''"
  have b: "everywhere (fetchable_node (ce_sources env)) ?b" by (rule fetchable_jget [OF node])
  have "\<not> is_object (jget node ''ref'')" using one_kind_exclusive(2) [OF fetchable_one_kind [OF node] bld] by blast
  then have sha: "json_str (jget (jget ?b ''output'') ''sha256'') = Some sha"
    using Inr bld by (simp add: node_sha256_def fuelled_simps)
  show ?thesis
  proof (cases "ce_blobs env sha = None")
    case False
    then have "rec (as_ref sha (jget ?b ''name'')) built = Some (Inl e)" using run Inr by (simp add: assemble_build_def Let_def)
    then show ?thesis by (rule as_ref_calm [OF rec fetchable_jget [OF b] False])
  next
    case True
    then have xs: "\<forall>x \<in> set xs. everywhere (fetchable_node (ce_sources env)) x \<and> fed env x"
      if "as_array (jget ?b ''inputs'') = Some xs" for xs
      using inputs_fed [OF tab b that] a sha by (simp add: output_present_def)
    show ?thesis
      using run Inr True assemble_gzip_calm [OF rec tab xs] assemble_zstd_calm [OF rec tab xs] assemble_microlzma_calm [OF rec xs]
        splice_inputs_calm [OF rec xs]
      by (auto simp: assemble_build_def Let_def fuelled_simps dest: needed_calm verify_output_calm split: if_splits)
  qed
qed

lemma assemble_node_calm:
  assumes rec: "no_miss env rec" and tab: "table_ok (ce_sources env)"
  shows "no_miss env (assemble_node rec env)"
  unfolding no_miss_def
proof (intro allI impI)
  fix node built e
  assume node: "everywhere (fetchable_node (ce_sources env)) node" and fed: "fed env node"
    and run: "assemble_node rec env node built = Some (Inl e)"
  show "\<not> is_missing e"
  proof (cases "resolve_source node (ce_sources env)")
    case (Inl e')
    then show ?thesis using run resolve_calm [OF Inl] by (auto simp: assemble_node_def)
  next
    case (Inr m)
    note run' = run [unfolded assemble_node_def Inr bindF_simps]
    have me: "everywhere (fetchable_node (ce_sources env)) m"
      using resolved_everywhere [OF Inr node] tab by (simp add: table_ok_def)
    note kind = one_kind_exclusive [OF fetchable_one_kind [OF me]]
    have m: "resolve_source m (ce_sources env) = Inr m" by (rule resolve_sourceless [OF resolved_sourceless [OF Inr]])
    consider (literal) "is_object (jget m ''literal'')"
      | (slice) "\<not> is_object (jget m ''literal'')" "is_object (jget m ''slice'')"
      | (plain) "\<not> is_object (jget m ''literal'')" "\<not> is_object (jget m ''slice'')"
      by blast
    then show ?thesis
    proof cases
      case literal
      then show ?thesis using run' by (auto simp: fuelled_simps dest: assemble_literal_calm)
    next
      case slice
      then have target: "\<And>t. slice_target (ce_sources env) (jget m ''slice'') = Inr t \<Longrightarrow>
          is_object (jget t ''literal'') \<or> avail (ce_sources env) (ce_blobs env) t"
        using fed Inr by (simp add: fed_def)
      have "assemble_slice rec env (jget m ''slice'') built = Some (Inl e)" using run' slice by simp
      then show ?thesis using assemble_slice_calm [OF rec tab fetchable_jget [OF me]] target by blast
    next
      case plain
      then have "avail (ce_sources env) (ce_blobs env) m" using fed Inr by (simp add: fed_def)
      then show ?thesis
      proof (rule avail_cases)
        fix m'
        assume "resolve_source m (ce_sources env) = Inr m'"
        then have [simp]: "m' = m" using m by simp
        assume ref: "is_object (jget m' ''ref'') \<Longrightarrow>
            ce_blobs env (unwrap_or [] (json_str (jget (jget (jget m' ''ref'') ''digests'') ''sha256''))) \<noteq> None"
          and ext: "\<not> is_object (jget m' ''ref'') \<Longrightarrow> is_object (jget m' ''extract'') \<Longrightarrow>
            \<not> output_present (ce_blobs env) (jget m' ''extract'') \<Longrightarrow>
            avail (ce_sources env) (ce_blobs env) (jget (jget m' ''extract'') ''archive'')"
          and bld: "\<not> is_object (jget m' ''ref'') \<Longrightarrow> \<not> is_object (jget m' ''extract'') \<Longrightarrow> is_object (jget m' ''build'') \<Longrightarrow>
            \<not> output_present (ce_blobs env) (jget m' ''build'') \<Longrightarrow>
            \<forall>x \<in> set (unwrap_or [] (as_array (jget (jget m' ''build'') ''inputs''))).
              input_avail (ce_sources env) (ce_blobs env) x"
        consider "is_object (jget m ''extract'')" | "\<not> is_object (jget m ''extract'')" "is_object (jget m ''ref'')"
          | "\<not> is_object (jget m ''extract'')" "\<not> is_object (jget m ''ref'')" "is_object (jget m ''build'')"
          | "\<not> is_object (jget m ''extract'')" "\<not> is_object (jget m ''ref'')" "\<not> is_object (jget m ''build'')"
          by blast
        then show ?thesis
        proof cases
          case 1
          then have "assemble_extract rec env m built = Some (Inl e)" using run' plain by simp
          then show ?thesis
            using assemble_extract_calm [OF rec me 1] ext kind(3) [OF 1] 1 by auto
        next
          case 2
          then have "assemble_ref env m built = Some (Inl e)" using run' plain by simp
          then show ?thesis using assemble_ref_calm [of env m] ref 2 by simp
        next
          case 3
          then have "assemble_build rec env m built = Some (Inl e)" using run' plain by simp
          then show ?thesis using assemble_build_calm [OF rec tab me 3(3)] bld 3 by auto
        next
          case 4
          then show ?thesis using run' plain by (auto simp: fuelled_simps)
        qed
      qed
    qed
  qed
qed

lemma assemble_calm: "table_ok (ce_sources env) \<Longrightarrow> no_miss env (assemble d env)"
proof (induction d)
  case 0
  then show ?case by (simp add: no_miss_def)
next
  case (Suc d)
  then have "no_miss env (assemble_node (assemble d env) env)" by (intro assemble_node_calm) simp_all
  then show ?case by (simp add: no_miss_def)
qed

lemma open_residue_calm:
  assumes "open_residue sha unzstd sidecar doc = Inl e"
  shows "\<not> is_missing e"
proof (cases "is_object (jget doc ''residue'')")
  case True
  show ?thesis
  proof (cases "needed ''residue sha256'' (json_str (jget (jget doc ''residue'') ''sha256''))")
    case (Inl e')
    then show ?thesis using assms True needed_calm [OF Inl] by (simp add: open_residue_def Let_def)
  next
    case (Inr want)
    show ?thesis
    proof (cases sidecar)
      case None
      then show ?thesis using assms True Inr by (auto simp: open_residue_def Let_def)
    next
      case (Some bs)
      then show ?thesis
        using assms True Inr
        by (cases "hex_lower (sha bs) = want"; cases "unzstd bs") (auto simp: open_residue_def Let_def split: if_splits)
    qed
  qed
qed (use assms in \<open>simp add: open_residue_def\<close>)

text \<open>C35. The availability report is complete: on a document whose nodes have one kind, whose table holds no
  slices and whose extracts come out of referenced archives, the rebuild that follows an empty report
  never stops for a missing blob or a missing archive.\<close>

theorem availability_complete:
  assumes "fetchable_doc (unwrap_or [] (as_array (jget doc ''sources''))) (jget doc ''root'')"
  shows "check d env unzstd sidecar doc \<noteq> Some (Inl (MissingBlob name)) \<and>
         check d env unzstd sidecar doc \<noteq> Some (Inl (MissingArchive name))"
proof -
  let ?src = "unwrap_or [] (as_array (jget doc ''sources''))" and ?root = "jget doc ''root''"
  have "\<not> is_missing e" if run: "check d env unzstd sidecar doc = Some (Inl e)" for e
  proof -
    have collect_calm: "\<not> is_missing e'" if "collect_missing d ?src (ce_blobs env) ?root [] = Some (Inl e')" for e'
      using that by (rule collect_missing_calm)
    have rebuild_calm: "\<not> is_missing e'"
      if av: "collect_missing d ?src (ce_blobs env) ?root [] = Some (Inr [])"
        and "assemble d (env\<lparr>ce_sources := ?src, ce_residue := residue\<rparr>) ?root Map.empty = Some (Inl e')" for residue e'
    proof -
      let ?env = "env\<lparr>ce_sources := ?src, ce_residue := residue\<rparr>"
      have tab: "table_ok (ce_sources ?env)" using assms by (simp add: fetchable_doc_def table_ok_def)
      have "fed ?env ?root"
        by (rule avail_fed [OF tab]) (use assms av in \<open>auto simp: fetchable_doc_def avail_def\<close>)
      then show ?thesis
        using no_missD [OF assemble_calm [OF tab] _ _ that(2)] assms by (simp add: fetchable_doc_def)
    qed
    show ?thesis
      using run collect_calm rebuild_calm
      by (auto simp: check_def Let_def fuelled_simps dest: node_sha256_calm open_residue_calm)
  qed
  then show ?thesis by force
qed

definition sample_doc :: json where
  "sample_doc = JObj [(''hdx_recipe'', JStr ''1''), (''root'', sample_build)]"

lemma availability_complete_witness:
  "\<forall>d name. check d sample_env Some None sample_doc \<noteq> Some (Inl (MissingBlob name)) \<and>
            check d sample_env Some None sample_doc \<noteq> Some (Inl (MissingArchive name))"
proof (intro allI, rule availability_complete)
  show "fetchable_doc (unwrap_or [] (as_array (jget sample_doc ''sources''))) (jget sample_doc ''root'')"
    by (simp add: sample_doc_def sample_build_def fetchable_doc_def fetchable_node_def one_kind_def node_kinds_def unwrap_or_def)
qed

end
