(* ===== verification/Hdx_Meaning.thy ===== *)
theory Hdx_Meaning
  imports Hdx_Check_Total
begin

text \<open>
  What a recipe's node stands for, stated without fuel, caches, counts or short cuts, and the proof
  that the check computes it: a node that stands for some bytes has nothing missing and is assembled
  to exactly those bytes, whichever outputs are already among the blobs and whatever was built before.
\<close>

subsection \<open>The meaning of a node\<close>

text \<open>
  \<open>K\<close> is the set of contents the digests are about, on which they are assumed not to collide.
\<close>

inductive means :: "check_env \<Rightarrow> byte list set \<Rightarrow> json \<Rightarrow> byte list \<Rightarrow> bool"
  and means_at :: "check_env \<Rightarrow> byte list set \<Rightarrow> json \<Rightarrow> byte list \<Rightarrow> bool" for env K where
  means_source: "one_kind j \<Longrightarrow> resolve_source j (ce_sources env) = Inr m \<Longrightarrow> means_at env K m bs \<Longrightarrow> means env K j bs"
| means_inline:
    "one_kind m \<Longrightarrow> is_object (jget m ''literal'') \<Longrightarrow>
     json_str (jget (jget m ''literal'') ''inline_hex'') = Some hexs \<Longrightarrow> hexlower_decode hexs = Inr bs \<Longrightarrow>
     means_at env K m bs"
| means_residue:
    "one_kind m \<Longrightarrow> is_object (jget m ''literal'') \<Longrightarrow>
     json_str (jget (jget m ''literal'') ''inline_hex'') = None \<Longrightarrow>
     as_u64 (jget (jget m ''literal'') ''residue_offset'') = Some off \<Longrightarrow> as_u64 (jget (jget m ''literal'') ''len'') = Some len \<Longrightarrow>
     ce_residue env = Some res \<Longrightarrow> off + len \<le> length (spool_bytes res) \<Longrightarrow> length (spool_bytes res) < 2 ^ 64 \<Longrightarrow>
     means_at env K m (window (spool_bytes res) off len)"
| means_slice:
    "one_kind m \<Longrightarrow> is_object (jget m ''slice'') \<Longrightarrow>
     (if is_object (jget (jget m ''slice'') ''of'') then Inr (jget (jget m ''slice'') ''of'')
      else resolve_source (jget m ''slice'') (ce_sources env)) = Inr t \<Longrightarrow>
     node_sha256 t = Inr (hex_sha env c) \<Longrightarrow> c \<in> K \<Longrightarrow> means env K t c \<Longrightarrow> \<not> is_object (jget t ''literal'') \<Longrightarrow>
     as_u64 (jget (jget m ''slice'') ''from'') = Some start \<Longrightarrow> as_u64 (jget (jget m ''slice'') ''len'') = Some len \<Longrightarrow>
     start + len \<le> length c \<Longrightarrow> length c < 2 ^ 64 \<Longrightarrow>
     means_at env K m (window c start len)"
| means_ref:
    "one_kind m \<Longrightarrow> is_object (jget m ''ref'') \<Longrightarrow>
     json_str (jget (jget (jget m ''ref'') ''digests'') ''sha256'') = Some (hex_sha env bs) \<Longrightarrow> bs \<in> K \<Longrightarrow>
     ce_blobs env (hex_sha env bs) \<noteq> None \<Longrightarrow> means_at env K m bs"
| means_extracted:
    "one_kind m \<Longrightarrow> is_object (jget m ''extract'') \<Longrightarrow>
     json_str (jget (jget (jget m ''extract'') ''output'') ''sha256'') = Some (hex_sha env bs) \<Longrightarrow> bs \<in> K \<Longrightarrow>
     as_u64 (jget (jget (jget m ''extract'') ''output'') ''size'') = Some (length bs) \<Longrightarrow>
     ce_blobs env (hex_sha env bs) \<noteq> None \<Longrightarrow> means_at env K m bs"
| means_extract:
    "one_kind m \<Longrightarrow> is_object (jget m ''extract'') \<Longrightarrow>
     json_str (jget (jget (jget m ''extract'') ''output'') ''sha256'') = Some (hex_sha env bs) \<Longrightarrow> bs \<in> K \<Longrightarrow>
     as_u64 (jget (jget (jget m ''extract'') ''output'') ''size'') = Some (length bs) \<Longrightarrow>
     resolve_source (jget (jget m ''extract'') ''archive'') (ce_sources env) = Inr a \<Longrightarrow> is_object (jget a ''ref'') \<Longrightarrow>
     node_sha256 a = Inr asha \<Longrightarrow> ce_blobs env asha = Some p \<Longrightarrow> ce_file env p = Some content \<Longrightarrow>
     json_str (jget (jget m ''extract'') ''path'') = Some path \<Longrightarrow>
     archive_extract (ce_codecs env) content (utf8_lossy (ascii path)) = Inr bs \<Longrightarrow>
     means_at env K m bs"
| means_present:
    "one_kind m \<Longrightarrow> is_object (jget m ''build'') \<Longrightarrow>
     json_str (jget (jget (jget m ''build'') ''output'') ''sha256'') = Some (hex_sha env bs) \<Longrightarrow> bs \<in> K \<Longrightarrow>
     ce_blobs env (hex_sha env bs) \<noteq> None \<Longrightarrow> means_at env K m bs"
| means_splice:
    "one_kind m \<Longrightarrow> is_object (jget m ''build'') \<Longrightarrow>
     json_str (jget (jget (jget m ''build'') ''output'') ''sha256'') = Some (hex_sha env bs) \<Longrightarrow> bs \<in> K \<Longrightarrow>
     as_u64 (jget (jget (jget m ''build'') ''output'') ''size'') = Some (length bs) \<Longrightarrow>
     unwrap_or ''splice@0'' (json_str (jget (jget m ''build'') ''builder'')) = ''splice@0'' \<Longrightarrow>
     as_array (jget (jget m ''build'') ''inputs'') = Some inputs \<Longrightarrow> list_all2 (means env K) inputs parts \<Longrightarrow>
     bs = concat parts \<Longrightarrow> means_at env K m bs"
| means_gzip:
    "one_kind m \<Longrightarrow> is_object (jget m ''build'') \<Longrightarrow>
     json_str (jget (jget (jget m ''build'') ''output'') ''sha256'') = Some (hex_sha env bs) \<Longrightarrow> bs \<in> K \<Longrightarrow>
     as_u64 (jget (jget (jget m ''build'') ''output'') ''size'') = Some (length bs) \<Longrightarrow>
     json_str (jget (jget m ''build'') ''builder'') = Some ''gzip@0'' \<Longrightarrow>
     as_array (jget (jget m ''build'') ''inputs'') = Some [input] \<Longrightarrow> means env K input c \<Longrightarrow>
     json_str (jget (jget (jget m ''build'') ''params'') ''compressor'') = Some cname \<Longrightarrow> gnu_parse cname = Some gz \<Longrightarrow>
     json_str (jget (jget (jget m ''build'') ''params'') ''header_hex'') = Some hexs \<Longrightarrow> hexlower_decode hexs = Inr header \<Longrightarrow>
     ce_gzip env gz c = (chunks, True) \<Longrightarrow> bs = header @ drop 10 (concat chunks) \<Longrightarrow> means_at env K m bs"
| means_zstd:
    "one_kind m \<Longrightarrow> is_object (jget m ''build'') \<Longrightarrow>
     json_str (jget (jget (jget m ''build'') ''output'') ''sha256'') = Some (hex_sha env bs) \<Longrightarrow> bs \<in> K \<Longrightarrow>
     as_u64 (jget (jget (jget m ''build'') ''output'') ''size'') = Some (length bs) \<Longrightarrow>
     json_str (jget (jget m ''build'') ''builder'') = Some ''zstd@0'' \<Longrightarrow>
     as_array (jget (jget m ''build'') ''inputs'') = Some [input] \<Longrightarrow> means env K input c \<Longrightarrow>
     zstd_params (jget (jget m ''build'') ''params'') = Inr zs \<Longrightarrow> ce_zstd env zs c = (chunks, True) \<Longrightarrow> bs = concat chunks \<Longrightarrow>
     means_at env K m bs"
| means_microlzma:
    "one_kind m \<Longrightarrow> is_object (jget m ''build'') \<Longrightarrow>
     json_str (jget (jget (jget m ''build'') ''output'') ''sha256'') = Some (hex_sha env bs) \<Longrightarrow> bs \<in> K \<Longrightarrow>
     as_u64 (jget (jget (jget m ''build'') ''output'') ''size'') = Some (length bs) \<Longrightarrow>
     json_str (jget (jget m ''build'') ''builder'') = Some ''microlzma@0'' \<Longrightarrow>
     as_array (jget (jget m ''build'') ''inputs'') = Some inputs \<Longrightarrow> list_all2 (means env K) inputs parts \<Longrightarrow>
     length (concat parts) \<le> PCLUSTER_MAX_DSIZE + ENCODE_MARGIN \<Longrightarrow>
     as_u64 (jget (jget (jget m ''build'') ''params'') ''preset'') = Some pre \<Longrightarrow>
     as_u64 (jget (jget (jget m ''build'') ''params'') ''dict_size'') = Some dict \<Longrightarrow>
     pad = unwrap_or 0 (as_u64 (jget (jget (jget m ''build'') ''params'') ''pad'')) \<Longrightarrow>
     pad < length bs \<Longrightarrow> length bs \<le> PCLUSTER_MAX_SIZE \<Longrightarrow>
     rebuild_pcluster (ce_lzma env) (length bs) pad
       ((pre mod 2 ^ 32) OR (if jget (jget (jget m ''build'') ''params'') ''extreme'' = JBool True then LZMA_PRESET_EXTREME else 0))
       (dict mod 2 ^ 32) (concat parts) = Inr bs \<Longrightarrow> means_at env K m bs"

text \<open>A blob directory whose files hold what they were indexed for, and digests that do not collide on \<open>K\<close>.\<close>

definition honest :: "check_env \<Rightarrow> byte list set \<Rightarrow> bool" where
  "honest env K \<longleftrightarrow>
     inj_on (ce_sha env) K \<and>
     (\<forall>s p. ce_blobs env s = Some p \<longrightarrow> (\<exists>c \<in> K. ce_file env p = Some c \<and> hex_sha env c = s))"

definition built_good :: "check_env \<Rightarrow> byte list set \<Rightarrow> built \<Rightarrow> bool" where
  "built_good env K built \<longleftrightarrow> (\<forall>s sp. built s = Some sp \<longrightarrow> spool_bytes sp \<in> K \<and> hex_sha env (spool_bytes sp) = s)"

lemma hex_lower_inj: "hex_lower a = hex_lower b \<Longrightarrow> a = b"
  by (metis hex_pairs_hex_lower)

lemma hex_sha_inj: "honest env K \<Longrightarrow> a \<in> K \<Longrightarrow> b \<in> K \<Longrightarrow> hex_sha env a = hex_sha env b \<Longrightarrow> a = b"
  by (auto simp: honest_def hex_sha_def dest!: hex_lower_inj dest: inj_onD)

lemma honest_blob:
  "honest env K \<Longrightarrow> bs \<in> K \<Longrightarrow> ce_blobs env (hex_sha env bs) = Some p \<Longrightarrow> ce_file env p = Some bs"
  using hex_sha_inj unfolding honest_def by metis

lemma means_at_one_kind: "means_at env K m bs \<Longrightarrow> one_kind m"
  by (erule means_at.cases; hypsubst; assumption)

lemma means_resolved: "means env K j bs \<Longrightarrow> resolve_source j (ce_sources env) = Inr m \<Longrightarrow> means env K m bs"
  by (erule means.cases) (auto intro: means_source resolve_sourceless resolved_sourceless means_at_one_kind)

subsection \<open>The check computes it\<close>

text \<open>Which branch of the assembler a node of one kind takes.\<close>

lemma node_branch:
  assumes r: "resolve_source j (ce_sources env) = Inr m" and k: "one_kind m"
  shows "is_object (jget m ''literal'') \<Longrightarrow> assemble_node rec env j built =
           bindF (Some (assemble_literal env (jget m ''literal''))) (\<lambda>r. okF (r, built))"
    and "is_object (jget m ''slice'') \<Longrightarrow> assemble_node rec env j built = assemble_slice rec env (jget m ''slice'') built"
    and "is_object (jget m ''extract'') \<Longrightarrow> assemble_node rec env j built = assemble_extract rec env m built"
    and "is_object (jget m ''ref'') \<Longrightarrow> assemble_node rec env j built = assemble_ref env m built"
    and "is_object (jget m ''build'') \<Longrightarrow> assemble_node rec env j built = assemble_build rec env m built"
proof -
  show "assemble_node rec env j built = bindF (Some (assemble_literal env (jget m ''literal''))) (\<lambda>r. okF (r, built))" if "is_object (jget m ''literal'')"
    unfolding assemble_node_def r bindF_simps using that one_kind_exclusive(5) [OF k that] by simp
  show "assemble_node rec env j built = assemble_slice rec env (jget m ''slice'') built" if "is_object (jget m ''slice'')"
    unfolding assemble_node_def r bindF_simps using that one_kind_exclusive(4) [OF k that] by simp
  show "assemble_node rec env j built = assemble_extract rec env m built" if "is_object (jget m ''extract'')"
    unfolding assemble_node_def r bindF_simps using that one_kind_exclusive(3) [OF k that] by simp
  show "assemble_node rec env j built = assemble_ref env m built" if "is_object (jget m ''ref'')"
    unfolding assemble_node_def r bindF_simps using that one_kind_exclusive(1) [OF k that] by simp
  show "assemble_node rec env j built = assemble_build rec env m built" if "is_object (jget m ''build'')"
    unfolding assemble_node_def r bindF_simps using that one_kind_exclusive(2) [OF k that] by simp
qed

lemma build_sha:
  assumes "one_kind m" "is_object (jget m ''build'')" "json_str (jget (jget (jget m ''build'') ''output'') ''sha256'') = Some s"
  shows "node_sha256 m = Inr s"
  using assms one_kind_exclusive(2) [OF assms(1,2)] by (simp add: node_sha256_def needed_def)

definition computes :: "check_env \<Rightarrow> byte list set \<Rightarrow> assembler \<Rightarrow> bool" where
  "computes env K rec \<longleftrightarrow>
     (\<forall>node bs built r. means env K node bs \<longrightarrow> built_good env K built \<longrightarrow> rec node built = Some r \<longrightarrow>
        (\<exists>built'. r = Inr ((bs, length bs), built') \<and> built_good env K built'))"

lemma computesD:
  assumes "computes env K rec" "means env K node bs" "built_good env K built" "rec node built = Some r"
  obtains built' where "r = Inr ((bs, length bs), built')" "built_good env K built'"
  using assms unfolding computes_def by blast

lemma means_as_ref:
  assumes "bs \<in> K" "ce_blobs env (hex_sha env bs) \<noteq> None"
  shows "means env K (as_ref (hex_sha env bs) name) bs"
  by (rule means_source [OF _ as_ref_plain(1)], use assms in \<open>simp add: as_ref_def one_kind_def node_kinds_def\<close>, rule means_ref)
    (use assms in \<open>simp_all add: as_ref_def one_kind_def node_kinds_def\<close>)

lemma materialize_computes:
  assumes rec: "computes env K rec" and node: "means env K node c" and built: "built_good env K built"
    and run: "materialize rec env node built = Some r"
  obtains sp built' where "r = Inr (sp, built')" "spool_bytes sp = c" "built_good env K built'"
proof -
  obtain m where m: "resolve_source node (ce_sources env) = Inr m" using node by (auto elim: means.cases)
  have mm: "means env K m c" by (rule means_resolved [OF node m])
  show thesis
  proof (cases "rec m built")
    case None
    then show thesis using run m by (simp add: materialize_def Let_def)
  next
    case (Some r')
    obtain b1 where "r' = Inr ((c, length c), b1)" "built_good env K b1" by (rule computesD [OF rec mm built Some])
    then show thesis using run m Some that by (auto simp: materialize_def Let_def okF_def)
  qed
qed

lemma slice_computes:
  assumes h: "honest env K" and rec: "computes env K rec" and built: "built_good env K built"
    and t: "(if is_object (jget sl ''of'') then Inr (jget sl ''of'') else resolve_source sl (ce_sources env)) = Inr t"
      "node_sha256 t = Inr (hex_sha env c)" "c \<in> K" "means env K t c"
    and range: "as_u64 (jget sl ''from'') = Some start" "as_u64 (jget sl ''len'') = Some len" "start + len \<le> length c" "length c < 2 ^ 64"
    and run: "assemble_slice rec env sl built = Some r"
  shows "\<exists>built'. r = Inr ((window c start len, len), built') \<and> built_good env K built'"
proof -
  have target: "(if is_object (jget sl ''of'') then okF (jget sl ''of'') else Some (resolve_source sl (ce_sources env))) = Some (Inr t)"
    using t(1) by (simp add: okF_def split: if_splits)
  have read: "spool_range sp start len = Inr (window c start len)" if "spool_bytes sp = c" for sp
    using spool_range_exact [of start len sp] range(3,4) that by simp
  note run' = run [unfolded assemble_slice_def target bindF_simps range(1,2) needed_def option.case t(2)]
  show ?thesis
  proof (cases "ce_blobs env (hex_sha env c)")
    case (Some p)
    have "ce_file env p = Some c" by (rule honest_blob [OF h t(3) Some])
    then show ?thesis using run' Some built read [of "SpFile c"] by (auto simp: opened_def okF_def del: spool_range.simps)
  next
    case None
    show ?thesis
    proof (cases "built (hex_sha env c)")
      case (Some sp)
      then have "spool_bytes sp \<in> K" "hex_sha env (spool_bytes sp) = hex_sha env c" using built by (auto simp: built_good_def)
      then have "spool_bytes sp = c" by (rule hex_sha_inj [OF h _ t(3)])
      then show ?thesis using run' None Some built read [of sp] by (auto simp: okF_def)
    next
      case new: None
      show ?thesis
      proof (cases "materialize rec env t built")
        case None
        then show ?thesis using run' \<open>ce_blobs env (hex_sha env c) = None\<close> new by simp
      next
        case (Some r')
        obtain sp b1 where sp: "r' = Inr (sp, b1)" "spool_bytes sp = c" "built_good env K b1"
          by (rule materialize_computes [OF rec t(4) built Some])
        then have "built_good env K (b1(hex_sha env c \<mapsto> sp))" using t(3) by (simp add: built_good_def)
        then show ?thesis
          using run' \<open>ce_blobs env (hex_sha env c) = None\<close> new Some sp read [of sp] by (auto simp: okF_def)
      qed
    qed
  qed
qed

lemma as_ref_computes:
  assumes "computes env K rec" "built_good env K built" "bs \<in> K" "ce_blobs env (hex_sha env bs) \<noteq> None"
    "rec (as_ref (hex_sha env bs) name) built = Some r"
  shows "\<exists>built'. r = Inr ((bs, length bs), built') \<and> built_good env K built'"
  using computesD [OF assms(1) means_as_ref [OF assms(3,4)] assms(2,5)] by blast

lemma ref_computes:
  assumes h: "honest env K" and sha: "json_str (jget (jget (jget m ''ref'') ''digests'') ''sha256'') = Some (hex_sha env bs)"
    and bs: "bs \<in> K" "ce_blobs env (hex_sha env bs) \<noteq> None"
  shows "assemble_ref env m built = Some (Inr ((bs, length bs), built))"
proof -
  obtain p where p: "ce_blobs env (hex_sha env bs) = Some p" using bs(2) by blast
  have "ce_file env p = Some bs" by (rule honest_blob [OF h bs(1) p])
  then show ?thesis using sha p by (simp add: assemble_ref_def needed_def opened_def checkF_def okF_def)
qed

lemma verify_output_done:
  assumes "sha = hex_sha env bs" "as_u64 (jget (jget b ''output'') ''size'') = Some (length bs)"
  shows "verify_output env name b sha bs (length bs) built = Some (Inr ((bs, length bs), built))"
  using assms by (simp add: verify_output_def checkF_def okF_def)

lemma gzip_take_all: "gzip_read_loop take_all skip cs s = (s @ drop skip (concat cs), Inr True)"
proof (induction cs arbitrary: skip s)
  case (Cons c cs)
  show ?case
  proof (cases "length c \<le> skip")
    case True
    then show ?thesis using Cons [of "skip - length c" s] by (simp add: Let_def)
  next
    case False
    then have "drop skip c \<noteq> []" by simp
    then show ?thesis using False Cons [of 0 "s @ drop skip c"] by (simp add: Let_def take_all_def)
  qed
qed simp

lemma zstd_take_all: "sink_writes take_all w cs = (w\<lparr>sw_state := sw_state w @ concat cs\<rparr>, True)"
  by (induction cs arbitrary: w) (simp_all add: sink_write_def take_all_def)

lemma pcluster_inputs_computes:
  assumes rec: "computes env K rec"
  shows "list_all2 (means env K) xs parts \<Longrightarrow> built_good env K built \<Longrightarrow>
    length (acc @ concat parts) \<le> PCLUSTER_MAX_DSIZE + ENCODE_MARGIN \<Longrightarrow>
    pcluster_inputs rec name xs acc built = Some r \<Longrightarrow>
    \<exists>built'. r = Inr (acc @ concat parts, built') \<and> built_good env K built'"
proof (induction xs parts arbitrary: acc built rule: list_all2_induct)
  case Nil
  then show ?case by (auto simp: okF_def)
next
  case (Cons x xs c parts)
  show ?case
  proof (cases "rec x built")
    case None
    then show ?thesis using Cons.prems by simp
  next
    case (Some r')
    obtain b1 where b1: "r' = Inr ((c, length c), b1)" "built_good env K b1"
      by (rule computesD [OF rec Cons.hyps(1) Cons.prems(1) Some])
    have "pcluster_inputs rec name xs (acc @ c) b1 = Some r"
      using Cons.prems(2,3) Some b1(1) by (simp add: checkF_def)
    then show ?thesis using Cons.IH [OF b1(2), of "acc @ c"] Cons.prems(2) by simp
  qed
qed

lemma splice_inputs_computes:
  assumes rec: "computes env K rec"
  shows "list_all2 (means env K) xs parts \<Longrightarrow> built_good env K built \<Longrightarrow>
    splice_inputs rec xs acc n built = Some r \<Longrightarrow> n = length acc mod 2 ^ 64 \<Longrightarrow>
    \<exists>built'. r = Inr ((acc @ concat parts, length (acc @ concat parts) mod 2 ^ 64), built') \<and> built_good env K built'"
proof (induction xs parts arbitrary: acc built n rule: list_all2_induct)
  case Nil
  then show ?case by (auto simp: okF_def)
next
  case (Cons x xs c parts)
  show ?case
  proof (cases "rec x built")
    case None
    then show ?thesis using Cons.prems by simp
  next
    case (Some r')
    obtain b1 where b1: "r' = Inr ((c, length c), b1)" "built_good env K b1"
      by (rule computesD [OF rec Cons.hyps(1) Cons.prems(1) Some])
    have n: "add64 n (length c) = length (acc @ c) mod 2 ^ 64"
      unfolding add64_def Cons.prems(3) length_append by (rule mod_add_left_eq)
    have "splice_inputs rec xs (acc @ c) (add64 n (length c)) b1 = Some r"
      using Cons.prems(2) Some b1(1) by simp
    then show ?thesis using Cons.IH [OF b1(2) _ n] by simp
  qed
qed

lemma u64_bound: "as_u64 j = Some n \<Longrightarrow> n < 2 ^ 64"
  by (cases j) (auto split: if_splits)

lemma build_computes:
  assumes h: "honest env K" and rec: "computes env K rec" and built: "built_good env K built"
    and k: "one_kind m" "is_object (jget m ''build'')"
    and out: "json_str (jget (jget (jget m ''build'') ''output'') ''sha256'') = Some (hex_sha env bs)" "bs \<in> K"
    and run: "assemble_build rec env m built = Some r"
    and fresh: "ce_blobs env (hex_sha env bs) = None \<Longrightarrow>
       (let b = jget m ''build''; builder = unwrap_or ''splice@0'' (json_str (jget b ''builder'')) in
        if builder = ''splice@0''
        then bindF (Some (needed ''build inputs'' (as_array (jget b ''inputs'')))) (\<lambda>inputs.
             bindF (splice_inputs rec inputs [] 0 built) (\<lambda>((bs', n), built).
               verify_output env (node_name m) b (hex_sha env bs) bs' n built))
        else if builder = ''gzip@0'' then assemble_gzip rec env b (hex_sha env bs) built
        else if builder = ''zstd@0'' then assemble_zstd rec env b (hex_sha env bs) built
        else if builder = ''microlzma@0'' then assemble_microlzma rec env b (hex_sha env bs) built
        else failF (UnknownBuilder (node_name m) builder)) = Some r \<Longrightarrow>
       \<exists>built'. r = Inr ((bs, length bs), built') \<and> built_good env K built'"
  shows "\<exists>built'. r = Inr ((bs, length bs), built') \<and> built_good env K built'"
proof (cases "ce_blobs env (hex_sha env bs) = None")
  case True
  then show ?thesis
    using run fresh [OF True] by (simp add: assemble_build_def build_sha [OF k out(1)] Let_def)
next
  case False
  then have "rec (as_ref (hex_sha env bs) (jget (jget m ''build'') ''name'')) built = Some r"
    using run by (simp add: assemble_build_def build_sha [OF k out(1)] Let_def)
  then show ?thesis by (rule as_ref_computes [OF rec built out(2) False])
qed

lemma gzip_computes:
  assumes rec: "computes env K rec" and built: "built_good env K built"
    and sz: "as_u64 (jget (jget b ''output'') ''size'') = Some (length bs)"
    and i: "as_array (jget b ''inputs'') = Some [input]" "means env K input c"
    and p: "json_str (jget (jget b ''params'') ''compressor'') = Some cname" "gnu_parse cname = Some gz"
      "json_str (jget (jget b ''params'') ''header_hex'') = Some hexs" "hexlower_decode hexs = Inr header"
    and bs: "ce_gzip env gz c = (chunks, True)" "bs = header @ drop 10 (concat chunks)"
    and run: "assemble_gzip rec env b (hex_sha env bs) built = Some r"
  shows "\<exists>built'. r = Inr ((bs, length bs), built') \<and> built_good env K built'"
proof (cases "materialize rec env input built")
  case None
  then show ?thesis using run i(1) p by (simp add: assemble_gzip_def needed_def Let_def)
next
  case (Some r')
  obtain sp b1 where sp: "r' = Inr (sp, b1)" "spool_bytes sp = c" "built_good env K b1"
    by (rule materialize_computes [OF rec i(2) built Some])
  have body: "gzip_body take_all chunks True header = (bs, Inr True)" by (simp add: gzip_body_def gzip_take_all bs(2))
  have "verify_output env (build_name b) b (hex_sha env bs) bs (length bs) b1 = Some r"
    using run i(1) p Some sp bs(1) body by (simp add: assemble_gzip_def needed_def Let_def checkF_def)
  then show ?thesis using verify_output_done [OF refl sz] sp(3) by auto
qed

lemma zstd_computes:
  assumes rec: "computes env K rec" and built: "built_good env K built"
    and sz: "as_u64 (jget (jget b ''output'') ''size'') = Some (length bs)"
    and i: "as_array (jget b ''inputs'') = Some [input]" "means env K input c"
    and p: "zstd_params (jget b ''params'') = Inr zs" and bs: "ce_zstd env zs c = (chunks, True)" "bs = concat chunks"
    and run: "assemble_zstd rec env b (hex_sha env bs) built = Some r"
  shows "\<exists>built'. r = Inr ((bs, length bs), built') \<and> built_good env K built'"
proof (cases "materialize rec env input built")
  case None
  then show ?thesis using run i(1) p by (simp add: assemble_zstd_def needed_def Let_def)
next
  case (Some r')
  obtain sp b1 where sp: "r' = Inr (sp, b1)" "spool_bytes sp = c" "built_good env K b1"
    by (rule materialize_computes [OF rec i(2) built Some])
  have body: "zstd_body take_all chunks True [] = (bs, Inr True)" by (simp add: zstd_body_def zstd_take_all bs(2))
  have "verify_output env (build_name b) b (hex_sha env bs) bs (length bs) b1 = Some r"
    using run i(1) p Some sp bs(1) body by (simp add: assemble_zstd_def needed_def Let_def checkF_def)
  then show ?thesis using verify_output_done [OF refl sz] sp(3) by auto
qed

lemma microlzma_computes:
  assumes rec: "computes env K rec" and built: "built_good env K built"
    and sz: "as_u64 (jget (jget b ''output'') ''size'') = Some (length bs)"
    and i: "as_array (jget b ''inputs'') = Some inputs" "list_all2 (means env K) inputs parts"
      "length (concat parts) \<le> PCLUSTER_MAX_DSIZE + ENCODE_MARGIN"
    and p: "as_u64 (jget (jget b ''params'') ''preset'') = Some pre" "as_u64 (jget (jget b ''params'') ''dict_size'') = Some dict"
      "pad = unwrap_or 0 (as_u64 (jget (jget b ''params'') ''pad''))" "pad < length bs" "length bs \<le> PCLUSTER_MAX_SIZE"
    and bs: "rebuild_pcluster (ce_lzma env) (length bs) pad
       ((pre mod 2 ^ 32) OR (if jget (jget b ''params'') ''extreme'' = JBool True then LZMA_PRESET_EXTREME else 0))
       (dict mod 2 ^ 32) (concat parts) = Inr bs"
    and run: "assemble_microlzma rec env b (hex_sha env bs) built = Some r"
  shows "\<exists>built'. r = Inr ((bs, length bs), built') \<and> built_good env K built'"
proof (cases "pcluster_inputs rec (build_name b) inputs [] built")
  case None
  then show ?thesis
    using run sz i(1) p(1,2,4,5) by (simp add: assemble_microlzma_def needed_def Let_def checkF_def p(3) [symmetric])
next
  case (Some r')
  obtain b1 where b1: "r' = Inr (concat parts, b1)" "built_good env K b1"
    using pcluster_inputs_computes [OF rec i(2) built _ Some] i(3) by auto
  have "r = Inr ((bs, length bs), b1)"
    using run sz i(1) p(1,2,4,5) Some b1(1) bs
    by (simp add: assemble_microlzma_def needed_def Let_def checkF_def okF_def p(3) [symmetric])
  then show ?thesis using b1(2) by blast
qed

lemma splice_computes:
  assumes rec: "computes env K rec" and built: "built_good env K built"
    and sz: "as_u64 (jget (jget b ''output'') ''size'') = Some (length bs)"
    and i: "as_array (jget b ''inputs'') = Some inputs" "list_all2 (means env K) inputs parts" "bs = concat parts"
    and run: "bindF (Some (needed ''build inputs'' (as_array (jget b ''inputs'')))) (\<lambda>inputs.
             bindF (splice_inputs rec inputs [] 0 built) (\<lambda>((bs', n), built).
               verify_output env name b (hex_sha env bs) bs' n built)) = Some r"
  shows "\<exists>built'. r = Inr ((bs, length bs), built') \<and> built_good env K built'"
proof (cases "splice_inputs rec inputs [] 0 built")
  case None
  then show ?thesis using run i(1) by (simp add: needed_def)
next
  case (Some r')
  obtain b1 where b1: "r' = Inr ((bs, length bs mod 2 ^ 64), b1)" "built_good env K b1"
    using splice_inputs_computes [OF rec i(2) built Some] i(3) by auto
  have "length bs mod 2 ^ 64 = length bs" using u64_bound [OF sz] by simp
  then have "verify_output env name b (hex_sha env bs) bs (length bs) b1 = Some r"
    using run i(1) Some b1(1) by (simp add: needed_def)
  then show ?thesis using verify_output_done [OF refl sz] b1(2) by auto
qed

lemma assemble_node_computes:
  assumes h: "honest env K" and rec: "computes env K rec"
  shows "computes env K (assemble_node rec env)"
  unfolding computes_def
proof (intro allI impI)
  fix node bs built r
  assume node: "means env K node bs" and built: "built_good env K built" and run: "assemble_node rec env node built = Some r"
  obtain m where m: "resolve_source node (ce_sources env) = Inr m" "means_at env K m bs"
    using node by (auto elim: means.cases)
  from m(2) show "\<exists>built'. r = Inr ((bs, length bs), built') \<and> built_good env K built'"
  proof (cases rule: means_at.cases)
    case (means_inline hexs)
    then show ?thesis
      using run built node_branch(1) [OF m(1)] by (auto simp: assemble_literal_def okF_def)
  next
    case (means_residue off len res)
    have "spool_range res off len = Inr bs"
      using spool_range_exact [of off len res] means_residue by simp
    moreover have "length bs = len" using means_residue by (simp add: length_window)
    ultimately show ?thesis
      using run built node_branch(1) [OF m(1)] means_residue by (auto simp: assemble_literal_def needed_def okF_def)
  next
    case (means_slice t c start len)
    then have "assemble_slice rec env (jget m ''slice'') built = Some r" using run node_branch(2) [OF m(1)] by simp
    moreover have "length bs = len" using means_slice by (simp add: length_window)
    ultimately show ?thesis
      using slice_computes [OF h rec built means_slice(4,5,6,7,9,10,11,12)] means_slice(1) by simp
  next
    case means_ref
    then show ?thesis
      using run built node_branch(4) [OF m(1)] ref_computes [OF h means_ref(3,4,5)] by auto
  next
    case means_extracted
    then have "rec (as_ref (hex_sha env bs) (jget (jget m ''extract'') ''name'')) built = Some r"
      using run node_branch(3) [OF m(1)] by (simp add: assemble_extract_def needed_def Let_def)
    then show ?thesis by (rule as_ref_computes [OF rec built means_extracted(4,6)])
  next
    case (means_extract a asha p content path)
    show ?thesis
    proof (cases "ce_blobs env (hex_sha env bs) = None")
      case True
      then show ?thesis
        using run built node_branch(3) [OF m(1)] means_extract
        by (auto simp: assemble_extract_def needed_def Let_def opened_def checkF_def okF_def)
    next
      case False
      then have "rec (as_ref (hex_sha env bs) (jget (jget m ''extract'') ''name'')) built = Some r"
        using run node_branch(3) [OF m(1)] means_extract by (simp add: assemble_extract_def needed_def Let_def)
      then show ?thesis by (rule as_ref_computes [OF rec built means_extract(4) False])
    qed
  next
    case means_present
    then have run': "assemble_build rec env m built = Some r" using run node_branch(5) [OF m(1)] by simp
    show ?thesis
      by (rule build_computes [OF h rec built means_present(1-4) run']) (use means_present(5) in simp)
  next
    case (means_splice inputs parts)
    then have run': "assemble_build rec env m built = Some r" using run node_branch(5) [OF m(1)] by simp
    show ?thesis
      by (rule build_computes [OF h rec built means_splice(1-4) run'])
        (rule splice_computes [OF rec built means_splice(5,7,8,9)], use means_splice(6) in \<open>simp add: Let_def\<close>)
  next
    case (means_gzip input c cname gz hexs header chunks)
    then have run': "assemble_build rec env m built = Some r" using run node_branch(5) [OF m(1)] by simp
    show ?thesis
      by (rule build_computes [OF h rec built means_gzip(1-4) run'])
        (rule gzip_computes [OF rec built means_gzip(5,7,8,9-14)], use means_gzip(6) in \<open>simp add: Let_def unwrap_or_def\<close>)
  next
    case (means_zstd input c zs chunks)
    then have run': "assemble_build rec env m built = Some r" using run node_branch(5) [OF m(1)] by simp
    show ?thesis
      by (rule build_computes [OF h rec built means_zstd(1-4) run'])
        (rule zstd_computes [OF rec built means_zstd(5,7,8,9,10,11)], use means_zstd(6) in \<open>simp add: Let_def unwrap_or_def\<close>)
  next
    case (means_microlzma inputs parts pre dict pad)
    then have run': "assemble_build rec env m built = Some r" using run node_branch(5) [OF m(1)] by simp
    show ?thesis
      by (rule build_computes [OF h rec built means_microlzma(1-4) run'])
        (rule microlzma_computes [OF rec built means_microlzma(5,7,8,9-15)], use means_microlzma(6) in \<open>simp add: Let_def unwrap_or_def\<close>)
  qed
qed

lemma assemble_computes: "honest env K \<Longrightarrow> computes env K (assemble d env)"
proof (induction d)
  case 0
  then show ?case by (simp add: computes_def)
next
  case (Suc d)
  then have "computes env K (assemble_node (assemble d env) env)" by (intro assemble_node_computes)
  then show ?case by (simp add: computes_def)
qed

lemma plain_collect:
  assumes "resolve_source a sources = Inr m" "is_object (jget m ''ref'')" "node_sha256 m = Inr s" "blobs s \<noteq> None"
    "collect_missing d sources blobs a missing = Some r"
  shows "r = Inr missing"
  using assms by (cases d) (auto simp: collect_node_def node_sha256_def missing_ref_def needed_def unwrap_or_def okF_def split: option.splits)

definition finds_all :: "check_env \<Rightarrow> byte list set \<Rightarrow> (json \<Rightarrow> missing \<Rightarrow> missing fuelled) \<Rightarrow> bool" where
  "finds_all env K rec \<longleftrightarrow> (\<forall>node bs missing r. means env K node bs \<longrightarrow> rec node missing = Some r \<longrightarrow> r = Inr missing)"

lemma collect_inputs_finds:
  assumes rec: "finds_all env K rec" and src: "ce_sources env = sources"
  shows "list_all2 (means env K) xs parts \<Longrightarrow> collect_inputs rec sources xs missing = Some r \<Longrightarrow> r = Inr missing"
proof (induction xs parts arbitrary: missing rule: list_all2_induct)
  case Nil
  then show ?case by (simp add: okF_def)
next
  case (Cons x xs c parts)
  obtain m where m: "one_kind x" "resolve_source x sources = Inr m" "means_at env K m c"
    using Cons.hyps(1) src by (auto elim: means.cases)
  have step: "\<exists>inner. (if is_object (jget x ''slice'')
         then if is_object (jget (jget x ''slice'') ''of'') then okF (jget (jget x ''slice'') ''of'')
              else Some (resolve_source (jget x ''slice'') sources)
         else okF x) = Some (Inr inner) \<and> (is_object (jget inner ''literal'') \<or> (\<exists>c. means env K inner c))"
  proof (cases "is_object (jget x ''slice'')")
    case True
    have "as_u64 (jget x ''source'') = None" by (rule one_kind_exclusive(6) [OF m(1) _ True]) (simp add: node_kinds_def)
    then have "m = x" using m(2) resolve_sourceless by simp
    have at: "means_at env K x c" using m(3) \<open>m = x\<close> by simp
    from at True show ?thesis
      using src one_kind_exclusive(4) [OF m(1) True]
      by (cases rule: means_at.cases) (auto simp: okF_def split: if_splits)
  next
    case False
    then show ?thesis using Cons.hyps(1) by (auto simp: okF_def)
  qed
  then obtain inner where inner: "(if is_object (jget x ''slice'')
         then if is_object (jget (jget x ''slice'') ''of'') then okF (jget (jget x ''slice'') ''of'')
              else Some (resolve_source (jget x ''slice'') sources)
         else okF x) = Some (Inr inner)" "is_object (jget inner ''literal'') \<or> (\<exists>c. means env K inner c)"
    by blast
  note run = Cons.prems [unfolded collect_inputs.simps Let_def inner(1) bindF_simps]
  have "collect_inputs rec sources xs missing = Some r"
  proof (cases "is_object (jget inner ''literal'')")
    case True
    then show ?thesis using run by simp
  next
    case False
    then obtain c where "means env K inner c" using inner(2) by blast
    then have "rec inner missing = Some r' \<Longrightarrow> r' = Inr missing" for r' using rec by (auto simp: finds_all_def)
    then show ?thesis using run False by (cases "rec inner missing") auto
  qed
  then show ?case by (rule Cons.IH)
qed

lemma collect_missing_finds: "ce_sources env = sources \<Longrightarrow> ce_blobs env = blobs \<Longrightarrow> finds_all env K (collect_missing d sources blobs)"
proof (induction d)
  case 0
  then show ?case by (simp add: finds_all_def)
next
  case (Suc d)
  show ?case
    unfolding finds_all_def
  proof (intro allI impI)
    fix node bs missing r
    assume node: "means env K node bs" and run: "collect_missing (Suc d) sources blobs node missing = Some r"
    obtain m where m: "resolve_source node sources = Inr m" "means_at env K m bs"
      using node Suc.prems(1) by (auto elim: means.cases)
    note run' = run [unfolded collect_missing.simps collect_node_def m(1) bindF_simps]
    note kind = one_kind_exclusive [OF means_at_one_kind [OF m(2)]]
    note fall = collect_inputs_finds [OF Suc.IH [OF Suc.prems] Suc.prems(1)]
    from m(2) show "r = Inr missing"
    proof (cases rule: means_at.cases)
      case (means_inline hexs)
      then show ?thesis using run' kind(5) by (simp add: okF_def)
    next
      case (means_residue off len res)
      then show ?thesis using run' kind(5) by (simp add: okF_def)
    next
      case (means_slice t c start len)
      then show ?thesis using run' kind(4) by (simp add: okF_def)
    next
      case means_ref
      then show ?thesis using run' Suc.prems(2) by (simp add: missing_ref_def unwrap_or_def okF_def)
    next
      case means_extracted
      then show ?thesis using run' kind(3) Suc.prems(2) by (simp add: output_present_def okF_def)
    next
      case (means_extract a asha p content path)
      then show ?thesis
        using run' kind(3) Suc.prems plain_collect [of "jget (jget m ''extract'') ''archive''" sources a asha blobs d missing r]
        by (auto simp: okF_def split: if_splits)
    next
      case means_present
      then show ?thesis using run' kind(2) Suc.prems(2) by (simp add: output_present_def okF_def)
    next
      case (means_splice inputs parts)
      then show ?thesis using run' kind(2) fall by (auto simp: unwrap_or_def okF_def split: if_splits)
    next
      case (means_gzip input c cname gz hexs header chunks)
      then have one: "list_all2 (means env K) [input] [c]" by simp
      show ?thesis
      proof (cases "output_present blobs (jget m ''build'')")
        case True
        then show ?thesis using means_gzip(2) run' kind(2) by (simp add: okF_def)
      next
        case False
        then have "collect_inputs (collect_missing d sources blobs) sources [input] missing = Some r"
          using means_gzip(2,7) run' kind(2) by (simp add: unwrap_or_def del: collect_inputs.simps)
        then show ?thesis by (rule fall [OF one])
      qed
    next
      case (means_zstd input c zs chunks)
      then have one: "list_all2 (means env K) [input] [c]" by simp
      show ?thesis
      proof (cases "output_present blobs (jget m ''build'')")
        case True
        then show ?thesis using means_zstd(2) run' kind(2) by (simp add: okF_def)
      next
        case False
        then have "collect_inputs (collect_missing d sources blobs) sources [input] missing = Some r"
          using means_zstd(2,7) run' kind(2) by (simp add: unwrap_or_def del: collect_inputs.simps)
        then show ?thesis by (rule fall [OF one])
      qed
    next
      case (means_microlzma inputs parts pre dict pad)
      then show ?thesis using run' kind(2) fall by (auto simp: unwrap_or_def okF_def split: if_splits)
    qed
  qed
qed

lemma check_means:
  assumes "jget doc ''hdx_recipe'' = JStr ''0'' \<or> jget doc ''hdx_recipe'' = JStr ''1''"
    and "open_residue (ce_sha env) unzstd sidecar doc = Inr residue"
    and "env' = env\<lparr>ce_sources := unwrap_or [] (as_array (jget doc ''sources'')), ce_residue := residue\<rparr>"
    and "backward (ce_sources env')" and "honest env' K"
    and "means env' K (jget doc ''root'') bs" and "node_sha256 (jget doc ''root'') = Inr (hex_sha env bs)"
    and "doc_weight (ce_sources env') (jget doc ''root'') + 2 \<le> d"
  shows "check d env unzstd sidecar doc = Some (Inr (bs, length bs))"
proof -
  let ?src = "unwrap_or [] (as_array (jget doc ''sources''))" and ?root = "jget doc ''root''"
  have src: "ce_sources env' = ?src" "ce_blobs env' = ce_blobs env" by (simp_all add: assms(3))
  have hex: "hex_sha env' = hex_sha env" by (simp add: hex_sha_def fun_eq_iff assms(3))
  have bwd: "backward ?src" using assms(4) src by simp
  have "collect_missing d ?src (ce_blobs env) ?root [] \<noteq> None"
    by (rule collect_missing_total [OF bwd cost_ok_root]) (use assms(8) src in simp)
  then obtain r where "collect_missing d ?src (ce_blobs env) ?root [] = Some r" by blast
  then have missing: "collect_missing d ?src (ce_blobs env) ?root [] = Some (Inr [])"
    using collect_missing_finds [OF src, of K d] assms(6) by (auto simp: finds_all_def)
  have "assemble d env' ?root Map.empty \<noteq> None"
    by (rule assemble_total [OF bwd src(1) cost_ok_root]) (use assms(8) src in simp)
  then obtain r' where r': "assemble d env' ?root Map.empty = Some r'" by blast
  have "built_good env' K Map.empty" by (simp add: built_good_def)
  then obtain b where b: "r' = Inr ((bs, length bs), b)"
    using computesD [OF assemble_computes [OF assms(5)] assms(6) _ r'] by blast
  show ?thesis
    using assms(1,2,7) missing r' b hex
    by (auto simp: check_def Let_def checkF_def assms(3) [symmetric] okF_def)
qed

text \<open>
  C6. The check implements the meaning of a recipe: when the root stands for some bytes, the table's
  entries refer backwards and the blob directory is honest, the check of enough depth succeeds with
  exactly these bytes and their number, whatever outputs happen to be among the blobs.
\<close>

theorem check_computes_meaning:
  assumes "jget doc ''hdx_recipe'' = JStr ''0'' \<or> jget doc ''hdx_recipe'' = JStr ''1''"
    and "open_residue (ce_sha env) unzstd sidecar doc = Inr residue"
    and "env' = env\<lparr>ce_sources := unwrap_or [] (as_array (jget doc ''sources'')), ce_residue := residue\<rparr>"
    and "backward (ce_sources env')" and "honest env' K"
    and "means env' K (jget doc ''root'') bs" and "node_sha256 (jget doc ''root'') = Inr (hex_sha env bs)"
    and "doc_weight (ce_sources env') (jget doc ''root'') + 2 \<le> d"
  shows "check d env unzstd sidecar doc = Some (Inr (bs, length bs))"
  by (rule check_means [OF assms])

text \<open>A blob, a slice of another and an inline literal.\<close>

definition mixed_root :: json where
  "mixed_root = JObj [(''build'', JObj
     [(''output'', JObj [(''sha256'', JStr ''aabb0c''), (''size'', JNum 3)]),
      (''inputs'', JArr [plain_ref ''aa'',
         JObj [(''slice'', JObj [(''of'', plain_ref ''bb''), (''from'', JNum 0), (''len'', JNum 1)])],
         JObj [(''literal'', JObj [(''inline_hex'', JStr ''0c''), (''len'', JNum 1)])]])])]"

definition mixed_doc :: json where
  "mixed_doc = JObj [(''hdx_recipe'', JStr ''0''), (''root'', mixed_root)]"

lemma mixed_hex: "hex_lower [0xaa, 0xbb, 0x0c] = ''aabb0c''" "hexlower_decode ''0c'' = Inr [0x0c]"
  by code_simp+

lemma plain_ref_means:
  assumes "bs \<in> K" "ce_blobs env s \<noteq> None" "hex_sha env bs = s"
  shows "means env K (plain_ref s) bs"
proof -
  have k: "one_kind (plain_ref s)" by (simp add: plain_ref_def one_kind_def node_kinds_def)
  have "json_str (jget (jget (jget (plain_ref s) ''ref'') ''digests'') ''sha256'') = Some (hex_sha env bs)"
    using assms(3) by (simp add: plain_ref_def)
  then have "means_at env K (plain_ref s) bs"
    by (rule means_ref [OF k plain_ref_node(6) _ assms(1)]) (use assms(2,3) in simp)
  then show ?thesis by (rule means_source [OF k plain_ref_node(1)])
qed

lemma check_computes_meaning_witness: "check 20 sample_env Some None mixed_doc = Some (Inr ([0xaa, 0xbb, 0x0c], 3))"
proof -
  let ?K = "{[0xaa], [0xbb], [0xaa, 0xbb, 0x0c]} :: byte list set"
  let ?env = "sample_env\<lparr>ce_sources := [], ce_residue := None\<rparr>"
  let ?sl = "JObj [(''slice'', JObj [(''of'', plain_ref ''bb''), (''from'', JNum 0), (''len'', JNum 1)])]"
  let ?li = "JObj [(''literal'', JObj [(''inline_hex'', JStr ''0c''), (''len'', JNum 1)])]"
  have hex: "hex_sha ?env = hex_lower" by (simp add: hex_sha_def sample_env_def fun_eq_iff)
  have aa: "means ?env ?K (plain_ref ''aa'') [0xaa]" and bb: "means ?env ?K (plain_ref ''bb'') [0xbb]"
    by (rule plain_ref_means; simp add: hex sample_hex; simp add: sample_env_def)+
  have sl_win: "means ?env ?K ?sl (window [0xbb] 0 1)"
    by (rule means_source, simp add: one_kind_def node_kinds_def, simp add: resolve_source_def, rule means_slice [OF _ _ _ _ _ bb])
      (simp_all add: one_kind_def node_kinds_def plain_ref_node hex sample_hex)
  then have sl: "means ?env ?K ?sl [0xbb]" by (simp add: window_def)
  have li: "means ?env ?K ?li [0x0c]"
    by (rule means_source, simp add: one_kind_def node_kinds_def, simp add: resolve_source_def, rule means_inline [where hexs = "''0c''"])
      (simp_all add: one_kind_def node_kinds_def mixed_hex)
  have root: "means ?env ?K mixed_root [0xaa, 0xbb, 0x0c]"
    by (rule means_source, simp add: mixed_root_def one_kind_def node_kinds_def, simp add: mixed_root_def resolve_source_def,
        rule means_splice [where inputs = "[plain_ref ''aa'', ?sl, ?li]" and parts = "[[0xaa], [0xbb], [0x0c]]"])
      (simp_all add: mixed_root_def one_kind_def node_kinds_def hex mixed_hex unwrap_or_def aa sl li)
  have honest: "honest ?env ?K"
    by (auto simp: honest_def sample_env_def hex_sha_def sample_hex inj_on_def split: if_splits)
  have "check 20 sample_env Some None mixed_doc = Some (Inr ([0xaa, 0xbb, 0x0c], length [0xaa, 0xbb, 0x0c :: byte]))"
  proof (rule check_computes_meaning [where residue = None and env' = ?env and K = ?K])
    show "open_residue (ce_sha sample_env) Some None mixed_doc = Inr None" by (simp add: open_residue_def mixed_doc_def)
    show "means ?env ?K (jget mixed_doc ''root'') [0xaa, 0xbb, 0x0c]" using root by (simp add: mixed_doc_def)
    show "node_sha256 (jget mixed_doc ''root'') = Inr (hex_sha sample_env [0xaa, 0xbb, 0x0c])"
      by (simp add: mixed_doc_def mixed_root_def node_sha256_def needed_def hex_sha_def sample_env_def mixed_hex)
    show "doc_weight (ce_sources ?env) (jget mixed_doc ''root'') + 2 \<le> 20"
      by (simp add: doc_weight_def mixed_doc_def mixed_root_def plain_ref_def)
  qed (simp_all add: mixed_doc_def unwrap_or_def backward_def honest)
  then show ?thesis by simp
qed

end
