(* ===== verification/Hdx_Emit.thy ===== *)
theory Hdx_Emit
  imports Hdx_Meaning Hdx_Verify
begin

text \<open>
  \<open>src/src/recipe_cmd.rs\<close>, the emission of a planned and verified recipe: claims, references, the
  sources table, pcluster nodes and the node of a member. An indexing or
  an expectation that fails is a panic; the recursion over planned nodes is bounded by fuel, whose
  outer \<open>None\<close> is running out of it. The digests of the members are a list parallel to theirs.
\<close>

datatype emit_error = EmitPanic

record mdigests =
  dg_sha1 :: "byte list"
  dg_sha256 :: "byte list"
  dg_md5 :: "byte list option"
  dg_sha512 :: "byte list option"
  dg_blake2s :: "byte list option"
  dg_sha1_git :: "byte list option"

text \<open>A text as the UTF-8 bytes a JSON string holds.\<close>

definition utf8_of :: "nat \<Rightarrow> nat list" where
  "utf8_of c =
     (if c < 0x80 then [c]
      else if c < 0x800 then [0xC0 + c div 64, 0x80 + c mod 64]
      else if c < 0x10000 then [0xE0 + c div 4096, 0x80 + c div 64 mod 64, 0x80 + c mod 64]
      else [0xF0 + c div 262144, 0x80 + c div 4096 mod 64, 0x80 + c div 64 mod 64, 0x80 + c mod 64])"

definition utf8_string :: "ustring \<Rightarrow> string" where
  "utf8_string t = map char_of (concat (map utf8_of t))"

definition json_nat :: "nat \<Rightarrow> json" where
  "json_nat n = JNum (int n)"

definition json_opt :: "string option \<Rightarrow> json" where
  "json_opt s = (case s of None \<Rightarrow> JNull | Some t \<Rightarrow> JStr t)"

subsection \<open>Claims and references\<close>

definition claim_json :: "string \<Rightarrow> string \<Rightarrow> json \<Rightarrow> json" where
  "claim_json attestor statement url = JObj [(''attestor'', JStr attestor), (''statement'', JStr statement), (''url'', url)]"

fun claims_of :: "string \<Rightarrow> claim list \<Rightarrow> (string \<times> string) list \<Rightarrow> json list \<times> (string \<times> string) list" where
  "claims_of backend [] seen = ([], seen)"
| "claims_of backend (c # cs) seen =
     (case cl_url c of
        None \<Rightarrow> claims_of backend cs seen
      | Some url \<Rightarrow>
          if (backend, url) \<in> set seen then claims_of backend cs seen
          else let (out, seen) = claims_of backend cs ((backend, url) # seen) in
            (claim_json backend (cl_statement c) (JStr url) # out, seen))"

fun claims_loop :: "finding list \<Rightarrow> (string \<times> string) list \<Rightarrow> json list" where
  "claims_loop [] seen = []"
| "claims_loop (f # fs) seen =
     (if fd_archive f \<noteq> None then claims_loop fs seen
      else let (out, seen) = claims_of (fd_backend f) (fd_claims f) seen in out @ claims_loop fs seen)"

definition claims_json :: "finding list \<Rightarrow> json list" where
  "claims_json findings = claims_loop findings []"

definition leaf_name :: "member \<Rightarrow> string" where
  "leaf_name m = utf8_string (last (split_on 33 (mb_path m)))"

definition digests_json :: "mdigests \<Rightarrow> json" where
  "digests_json d =
     JObj ([(''sha1'', JStr (hex_lower (dg_sha1 d))), (''sha256'', JStr (hex_lower (dg_sha256 d)))] @
       (case dg_md5 d of Some x \<Rightarrow> [(''md5'', JStr (hex_lower x))] | None \<Rightarrow> []) @
       (case dg_sha512 d of Some x \<Rightarrow> [(''sha512'', JStr (hex_lower x))] | None \<Rightarrow> []) @
       (case dg_blake2s d of Some x \<Rightarrow> [(''blake2s256'', JStr (hex_lower x))] | None \<Rightarrow> []) @
       (case dg_sha1_git d of Some x \<Rightarrow> [(''sha1_git'', JStr (hex_lower x))] | None \<Rightarrow> []))"

definition ref_json :: "member \<Rightarrow> mdigests \<Rightarrow> json list \<Rightarrow> json" where
  "ref_json m d claims =
     JObj [(''ref'', JObj ([(''digests'', digests_json d), (''size'', json_nat (mb_size m)), (''name'', JStr (leaf_name m))] @
       (if claims \<noteq> [] then [(''claims'', JArr claims)] else [])))]"

text \<open>The output of a build or an extract.\<close>

definition output_json :: "byte list \<Rightarrow> nat \<Rightarrow> json" where
  "output_json sha sz = JObj [(''sha256'', JStr (hex_lower sha)), (''size'', json_nat sz)]"

text \<open>\<open>None\<close> is the failed expectation of an offset.\<close>

definition literal_json :: "nat \<Rightarrow> nat option \<Rightarrow> byte list option \<Rightarrow> json option" where
  "literal_json len residue_off inline =
     (case inline of
        Some bs \<Rightarrow> Some (JObj [(''literal'', JObj [(''inline_hex'', JStr (hex_lower bs)), (''len'', json_nat len)])])
      | None \<Rightarrow>
          (case residue_off of
             None \<Rightarrow> None
           | Some off \<Rightarrow> Some (JObj [(''literal'', JObj [(''residue_offset'', json_nat off), (''len'', json_nat len)])])))"

text \<open>A range of a table entry, the whole of it without a slice.\<close>

definition tabled_json :: "member list \<Rightarrow> (nat \<times> nat) list \<Rightarrow> nat \<Rightarrow> nat \<Rightarrow> nat \<Rightarrow> json option" where
  "tabled_json ms node_of idx start len =
     (case map_of node_of idx of
        None \<Rightarrow> None
      | Some k \<Rightarrow>
          if length ms \<le> idx then None
          else Some (if start = 0 \<and> len = mb_size (ms ! idx) then JObj [(''source'', json_nat k)]
            else JObj [(''slice'', JObj [(''source'', json_nat k), (''from'', json_nat start), (''len'', json_nat len)])]))"

fun all_some :: "'a option list \<Rightarrow> 'a list option" where
  "all_some [] = Some []"
| "all_some (x # xs) = (case x of None \<Rightarrow> None | Some y \<Rightarrow> (case all_some xs of None \<Rightarrow> None | Some ys \<Rightarrow> Some (y # ys)))"

subsection \<open>Pcluster nodes\<close>

definition pc_input_json :: "member list \<Rightarrow> (nat \<times> nat) list \<Rightarrow> pc_input \<Rightarrow> json option" where
  "pc_input_json ms node_of input =
     (case input of
        PcMember idx start len \<Rightarrow> tabled_json ms node_of idx start len
      | PcLiteral spool len residue_off inline \<Rightarrow> literal_json len residue_off inline)"

text \<open>The extreme flag is bit 31 of the preset.\<close>

definition pcluster_json :: "pcnode \<Rightarrow> member list \<Rightarrow> (nat \<times> nat) list \<Rightarrow> json option" where
  "pcluster_json node ms node_of =
     map_option (\<lambda>inputs.
       JObj [(''build'', JObj
         [(''builder'', JStr ''microlzma@0''),
          (''name'', JStr (pn_name node)),
          (''params'', JObj ([(''preset'', json_nat (pn_preset node mod 2 ^ 31)), (''dict_size'', json_nat (pn_dict_size node)),
             (''pad'', json_nat (pn_pad node))] @ (if odd (pn_preset node div 2 ^ 31) then [(''extreme'', JBool True)] else []))),
          (''output'', output_json (pn_sha256 node) (pn_size node)),
          (''inputs'', JArr inputs)])])
       (all_some (map (pc_input_json ms node_of) (pn_inputs node)))"

subsection \<open>Nodes\<close>

text \<open>What emission reads: the members with their digests and findings, and the plan.\<close>

record emit_env =
  em_members :: "member list"
  em_digests :: "mdigests option list"
  em_evidence :: "finding list list"
  em_plan :: rplan

definition digests_of :: "emit_env \<Rightarrow> nat \<Rightarrow> (emit_error + mdigests) option" where
  "digests_of em i =
     (if i < length (em_digests em) then (case em_digests em ! i of None \<Rightarrow> failF EmitPanic | Some d \<Rightarrow> okF d) else failF EmitPanic)"

definition expect :: "'a option \<Rightarrow> (emit_error + 'a) option" where
  "expect x = (case x of None \<Rightarrow> failF EmitPanic | Some y \<Rightarrow> okF y)"

definition zstd_json :: "zstd \<Rightarrow> json" where
  "zstd_json z =
     JObj ([(''level'', JNum (zs_level z))] @ (if zs_single_thread z then [(''single_thread'', JBool True)] else []) @
       (if \<not> zs_checksum z then [(''checksum'', JBool False)] else []) @
       (if zs_content_size z then [(''content_size'', JBool True)] else []))"

definition comp_json :: "comp \<Rightarrow> string \<times> json" where
  "comp_json c =
     (case c of
        CGzip params header \<Rightarrow>
          (''gzip@0'', JObj [(''compressor'', JStr (gnu_name params)), (''header_hex'', JStr (hex_lower header))])
      | CZstd params \<Rightarrow> (''zstd@0'', zstd_json params))"

definition extract_json :: "member \<Rightarrow> mdigests \<Rightarrow> extraction \<Rightarrow> nat \<Rightarrow> json" where
  "extract_json m d e k =
     JObj [(''extract'', JObj
       [(''name'', JStr (leaf_name m)),
        (''archive'', JObj [(''source'', json_nat k)]),
        (''path'', JStr (ar_path (ex_archive e))),
        (''output'', output_json (dg_sha256 d) (mb_size m)),
        (''claims'', JArr [claim_json (ex_attestor e) (ex_statement e) (json_opt (ar_url (ex_archive e)))])])]"

definition dropped_note :: "nat \<Rightarrow> (string \<times> json) list" where
  "dropped_note n =
     (if 0 < n
      then [(''note'', JStr (show_nat n @ '' member'' @ plural n @ '' share extents with an accepted sibling and are covered by it''))]
      else [])"

definition seg_json ::
  "(nat \<Rightarrow> (emit_error + json) option) \<Rightarrow> emit_env \<Rightarrow> (nat \<times> nat) list \<Rightarrow> seg \<Rightarrow> (emit_error + json) option" where
  "seg_json rec em node_of s =
     (case s of
        SChild idx start len at root_off \<Rightarrow>
          bindF (rec idx) (\<lambda>node.
            okF (if start = 0 \<and> len = mb_size (em_members em ! idx) then node
                 else JObj [(''slice'', JObj [(''of'', node), (''from'', json_nat start), (''len'', json_nat len)])]))
      | STabled idx start len at root_off \<Rightarrow> expect (tabled_json (em_members em) node_of idx start len)
      | SPcluster pc at len root_off \<Rightarrow>
          if pc < length (pl_pclusters (em_plan em))
          then expect (pcluster_json (pl_pclusters (em_plan em) ! pc) (em_members em) node_of) else failF EmitPanic
      | SGap at len residue_off inline \<Rightarrow> expect (literal_json len residue_off inline))"

fun segs_json ::
  "(nat \<Rightarrow> (emit_error + json) option) \<Rightarrow> emit_env \<Rightarrow> (nat \<times> nat) list \<Rightarrow> seg list \<Rightarrow> (emit_error + json list) option" where
  "segs_json rec em node_of [] = okF []"
| "segs_json rec em node_of (s # segs) =
     bindF (seg_json rec em node_of s) (\<lambda>j. bindF (segs_json rec em node_of segs) (\<lambda>js. okF (j # js)))"

definition member_json ::
  "(nat \<Rightarrow> (emit_error + json) option) \<Rightarrow> emit_env \<Rightarrow> (nat \<times> nat) list \<Rightarrow> (nat \<times> nat) list \<Rightarrow> nat \<Rightarrow> (emit_error + json) option" where
  "member_json rec em src_of node_of i =
     (if length (em_members em) \<le> i then failF EmitPanic
      else let m = em_members em ! i; plan = em_plan em in
        case map_of (pl_extracts plan) i of
          Some e \<Rightarrow>
            bindF (expect (map_of src_of i)) (\<lambda>k.
            bindF (digests_of em i) (\<lambda>d. okF (extract_json m d e k)))
        | None \<Rightarrow>
            (case map_of (pl_compress plan) i of
               Some c \<Rightarrow>
                 (let (builder, params) = comp_json (cp_how c) in
                  bindF (digests_of em i) (\<lambda>d.
                  bindF (rec (cp_child c)) (\<lambda>input.
                    okF (JObj [(''build'', JObj
                      [(''builder'', JStr builder), (''name'', JStr (leaf_name m)), (''params'', params),
                       (''output'', output_json (dg_sha256 d) (mb_size m)), (''inputs'', JArr [input])])]))))
             | None \<Rightarrow>
                 (case map_of (pl_builds plan) i of
                    None \<Rightarrow>
                      if length (em_evidence em) \<le> i then failF EmitPanic
                      else bindF (digests_of em i) (\<lambda>d. okF (ref_json m d (claims_json (em_evidence em ! i))))
                  | Some b \<Rightarrow>
                      bindF (segs_json rec em node_of (bd_segs b)) (\<lambda>inputs.
                      bindF (digests_of em i) (\<lambda>d.
                        okF (JObj [(''build'', JObj
                          ([(''builder'', JStr ''splice@0''), (''name'', JStr (leaf_name m)),
                            (''output'', output_json (dg_sha256 d) (mb_size m)), (''inputs'', JArr inputs)] @
                           dropped_note (bd_dropped b)))]))))))"

primrec node_json :: "nat \<Rightarrow> emit_env \<Rightarrow> (nat \<times> nat) list \<Rightarrow> (nat \<times> nat) list \<Rightarrow> nat \<Rightarrow> (emit_error + json) option" where
  "node_json 0 em src_of node_of i = None"
| "node_json (Suc d) em src_of node_of i = member_json (node_json d em src_of node_of) em src_of node_of i"

subsection \<open>The sources table\<close>

text \<open>The archives, each once, in the order of the members that extract from them.\<close>

definition archive_json :: "extraction \<Rightarrow> json" where
  "archive_json e =
     JObj [(''ref'', JObj
       [(''digests'', JObj [(''sha256'', JStr (ar_digest (ex_archive e)))]),
        (''name'', JStr (ar_name (ex_archive e))),
        (''claims'', JArr [claim_json (ex_attestor e) (ex_statement e) (json_opt (ar_url (ex_archive e)))])])]"

fun archive_loop ::
  "(nat \<times> extraction) list \<Rightarrow> (string \<times> nat) list \<Rightarrow> json list \<Rightarrow> (nat \<times> nat) list \<Rightarrow> json list \<times> (nat \<times> nat) list" where
  "archive_loop [] idx_of sources src_of = (sources, src_of)"
| "archive_loop ((i, e) # es) idx_of sources src_of =
     (case map_of idx_of (ar_digest (ex_archive e)) of
        Some k \<Rightarrow> archive_loop es idx_of sources ((i, k) # src_of)
      | None \<Rightarrow>
          archive_loop es ((ar_digest (ex_archive e), length sources) # idx_of) (sources @ [archive_json e])
            ((i, length sources) # src_of))"

text \<open>The nodes of the table are built without the table: the map of tabled members is empty there.\<close>

fun tabled_loop ::
  "nat \<Rightarrow> emit_env \<Rightarrow> (nat \<times> nat) list \<Rightarrow> nat list \<Rightarrow> json list \<Rightarrow> (nat \<times> nat) list \<Rightarrow>
   (emit_error + json list \<times> (nat \<times> nat) list) option" where
  "tabled_loop d em src_of [] sources node_of = okF (sources, node_of)"
| "tabled_loop d em src_of (i # is) sources node_of =
     bindF (node_json d em src_of [] i) (\<lambda>j.
       tabled_loop d em src_of is (sources @ [j]) ((i, length sources) # node_of))"

definition sources_json :: "nat \<Rightarrow> emit_env \<Rightarrow> (emit_error + json list \<times> (nat \<times> nat) list \<times> (nat \<times> nat) list) option" where
  "sources_json d em =
     (let plan = em_plan em;
          (sources, src_of) = archive_loop (sort_key fst (pl_extracts plan)) [] [] [] in
      bindF (tabled_loop d em src_of (sorted_list_of_set (pl_tabled plan)) sources []) (\<lambda>(sources, node_of).
        okF (sources, src_of, node_of)))"

end
