(* ===== verification/Hdx_Emitted.thy ===== *)
theory Hdx_Emitted
  imports Hdx_Emit
begin

text \<open>
  What is emitted stands for what was planned: the node of a member of a true plan stands for the
  member's content, so the document that minting writes is one that the check rebuilds.
\<close>

subsection \<open>Emitted values\<close>

lemma as_u64_json_nat: "as_u64 (json_nat n) = (if n < 2 ^ 64 then Some n else None)"
  by (simp add: json_nat_def)

lemma output_json_get:
  "json_str (jget (output_json sha sz) ''sha256'') = Some (hex_lower sha)"
  "sz < 2 ^ 64 \<Longrightarrow> as_u64 (jget (output_json sha sz) ''size'') = Some sz"
  by (simp_all add: output_json_def json_nat_def)

lemma digests_json_get: "json_str (jget (digests_json d) ''sha256'') = Some (hex_lower (dg_sha256 d))"
  by (simp add: digests_json_def)

lemma hexlower_decode_lower: "hexlower_decode (hex_lower bs) = Inr bs"
proof -
  have digit: "is_hexlower (hex_digit n)" if "n < 16" for n
    using that hex_digit_of_char by (auto simp: is_hexlower_def hex_digit_def Let_def)
  have "list_all is_hexlower (hex_lower bs)"
    by (induction bs) (simp_all add: hex_lower_def hex_byte_def digit nibble_bounds)
  then show ?thesis by (simp add: hexlower_decode_def hex_pairs_hex_lower)
qed

text \<open>A node that can be referred to from anywhere in the document.\<close>

definition good_node :: "check_env \<Rightarrow> byte list set \<Rightarrow> json \<Rightarrow> byte list \<Rightarrow> bool" where
  "good_node env K j c \<longleftrightarrow>
     means_at env K j c \<and> as_u64 (jget j ''source'') = None \<and> node_sha256 j = Inr (hex_sha env c) \<and>
     \<not> is_object (jget j ''literal'') \<and> \<not> is_object (jget j ''slice'') \<and> is_object j \<and> c \<in> K \<and> length c < 2 ^ 64"

lemma good_node_means: "good_node env K j c \<Longrightarrow> means env K j c"
  using means_source [OF means_at_one_kind resolve_sourceless] by (auto simp: good_node_def)

lemma literal_means:
  assumes "literal_json len residue_off inline = Some j"
    and "case inline of Some b \<Rightarrow> b = bs
         | None \<Rightarrow> (\<exists>off res. residue_off = Some off \<and> ce_residue env = Some res \<and> length (spool_bytes res) < 2 ^ 64 \<and>
             off + len \<le> length (spool_bytes res) \<and> window (spool_bytes res) off len = bs)"
  shows "means env K j bs"
proof (cases inline)
  case (Some b)
  then have j: "j = JObj [(''literal'', JObj [(''inline_hex'', JStr (hex_lower bs)), (''len'', json_nat len)])]"
    using assms by (simp add: literal_json_def)
  have k: "one_kind j" by (simp add: j one_kind_def node_kinds_def)
  have "resolve_source j (ce_sources env) = Inr j" by (rule resolve_sourceless) (simp add: j)
  moreover have "means_at env K j bs"
    by (rule means_inline [OF k, of "hex_lower bs"]) (simp_all add: j hexlower_decode_lower)
  ultimately show ?thesis by (rule means_source [OF k])
next
  case None
  then obtain off res where r: "residue_off = Some off" "ce_residue env = Some res" "length (spool_bytes res) < 2 ^ 64"
      "off + len \<le> length (spool_bytes res)" "window (spool_bytes res) off len = bs"
    using assms(2) by auto
  have j: "j = JObj [(''literal'', JObj [(''residue_offset'', json_nat off), (''len'', json_nat len)])]"
    using assms(1) None r(1) by (simp add: literal_json_def)
  have k: "one_kind j" by (simp add: j one_kind_def node_kinds_def)
  have "resolve_source j (ce_sources env) = Inr j" by (rule resolve_sourceless) (simp add: j)
  moreover have "means_at env K j (window (spool_bytes res) off len)"
    by (rule means_residue [OF k _ _ _ _ r(2,4,3)]) (use r(3,4) in \<open>simp_all add: j as_u64_json_nat\<close>)
  ultimately show ?thesis using means_source [OF k] r(5) by metis
qed

lemma slice_means:
  assumes t: "good_node env K t c" and range: "start + len \<le> length c"
    and j: "j = JObj [(''slice'', JObj (target # [(''from'', json_nat start), (''len'', json_nat len)]))]"
    and target: "target = (''of'', t) \<or> (\<exists>k. target = (''source'', json_nat k) \<and> k < 2 ^ 64 \<and> k < length (ce_sources env) \<and> ce_sources env ! k = t)"
  shows "means env K j (window c start len)"
proof -
  have k: "one_kind j" by (simp add: j one_kind_def node_kinds_def)
  have tr: "resolve_source t (ce_sources env) = Inr t" using t by (intro resolve_sourceless) (simp add: good_node_def)
  have c: "length c < 2 ^ 64" "c \<in> K" "node_sha256 t = Inr (hex_sha env c)" "is_object t" "\<not> is_object (jget t ''literal'')"
    "as_u64 (jget t ''source'') = None"
    using t by (simp_all add: good_node_def)
  have tg: "(if is_object (jget (jget j ''slice'') ''of'') then Inr (jget (jget j ''slice'') ''of'')
      else resolve_source (jget j ''slice'') (ce_sources env)) = Inr t"
    using target
  proof
    assume "target = (''of'', t)"
    then show ?thesis using c(4) by (simp add: j)
  next
    assume "\<exists>k. target = (''source'', json_nat k) \<and> k < 2 ^ 64 \<and> k < length (ce_sources env) \<and> ce_sources env ! k = t"
    then obtain k where "target = (''source'', json_nat k)" "k < 2 ^ 64" "k < length (ce_sources env)" "ce_sources env ! k = t" by blast
    then show ?thesis
      using c(6) by (cases "ce_sources env") (auto simp: j resolve_source_def as_u64_json_nat)
  qed
  have ft: "fst target = ''of'' \<or> fst target = ''source''" using target by auto
  have "means_at env K j (window c start len)"
    by (rule means_slice [OF k _ tg c(3,2) good_node_means [OF t] c(5) _ _ range c(1)])
      (use range c(1) ft in \<open>auto simp: j as_u64_json_nat\<close>)
  moreover have "resolve_source j (ce_sources env) = Inr j" by (rule resolve_sourceless) (simp add: j)
  ultimately show ?thesis using means_source [OF k] by blast
qed

lemma source_means:
  assumes "good_node env K (ce_sources env ! k) c" "k < length (ce_sources env)" "k < 2 ^ 64"
  shows "means env K (JObj [(''source'', json_nat k)]) c"
proof -
  let ?t = "ce_sources env ! k"
  have "resolve_source (JObj [(''source'', json_nat k)]) (ce_sources env) = Inr ?t"
    using assms by (cases "ce_sources env") (auto simp: resolve_source_def as_u64_json_nat good_node_def)
  moreover have "means_at env K ?t c" using assms(1) by (simp add: good_node_def)
  ultimately show ?thesis
    by (intro means_source) (simp_all add: one_kind_def node_kinds_def)
qed

text \<open>What a table entry is referred to by.\<close>

definition table_good :: "check_env \<Rightarrow> byte list set \<Rightarrow> (nat \<Rightarrow> byte list) \<Rightarrow> (nat \<times> nat) list \<Rightarrow> bool" where
  "table_good env K B node_of \<longleftrightarrow>
     (\<forall>idx k. map_of node_of idx = Some k \<longrightarrow>
        k < length (ce_sources env) \<and> k < 2 ^ 64 \<and> good_node env K (ce_sources env ! k) (B idx))"

lemma tabled_means:
  assumes "tabled_json ms node_of idx start len = Some j" "table_good env K B node_of"
    and "mb_size (ms ! idx) = length (B idx)" "start + len \<le> length (B idx)"
  shows "means env K j (window (B idx) start len)"
proof -
  obtain k where k: "map_of node_of idx = Some k"
    "j = (if start = 0 \<and> len = mb_size (ms ! idx) then JObj [(''source'', json_nat k)]
          else JObj [(''slice'', JObj [(''source'', json_nat k), (''from'', json_nat start), (''len'', json_nat len)])])"
    using assms(1) by (auto simp: tabled_json_def split: option.splits if_splits)
  have g: "k < length (ce_sources env)" "k < 2 ^ 64" "good_node env K (ce_sources env ! k) (B idx)"
    using assms(2) k(1) by (auto simp: table_good_def)
  show ?thesis
  proof (cases "start = 0 \<and> len = mb_size (ms ! idx)")
    case True
    then show ?thesis using source_means [OF g(3,1,2)] k(2) assms(3) by (simp add: window_whole)
  next
    case False
    then have "j = JObj [(''slice'', JObj ((''source'', json_nat k) # [(''from'', json_nat start), (''len'', json_nat len)]))]"
      using k(2) by auto
    then show ?thesis by (rule slice_means [OF g(3) assms(4)]) (use g in blast)
  qed
qed

subsection \<open>Plans that are true\<close>

text \<open>\<open>B\<close> is the content of each member.\<close>

definition literal_true :: "check_env \<Rightarrow> nat \<Rightarrow> nat option \<Rightarrow> byte list option \<Rightarrow> byte list \<Rightarrow> bool" where
  "literal_true env len residue_off inline bs \<longleftrightarrow>
     (case inline of Some b \<Rightarrow> b = bs
      | None \<Rightarrow> (\<exists>off res. residue_off = Some off \<and> ce_residue env = Some res \<and> length (spool_bytes res) < 2 ^ 64 \<and>
          off + len \<le> length (spool_bytes res) \<and> window (spool_bytes res) off len = bs))"

definition range_true :: "emit_env \<Rightarrow> (nat \<Rightarrow> byte list) \<Rightarrow> nat \<Rightarrow> nat \<Rightarrow> nat \<Rightarrow> byte list \<Rightarrow> bool" where
  "range_true em B idx start len bs \<longleftrightarrow>
     idx < length (em_members em) \<and> start + len \<le> length (B idx) \<and> bs = window (B idx) start len"

definition input_true :: "check_env \<Rightarrow> emit_env \<Rightarrow> (nat \<Rightarrow> byte list) \<Rightarrow> pc_input \<Rightarrow> byte list \<Rightarrow> bool" where
  "input_true env em B input bs \<longleftrightarrow>
     (case input of
        PcMember idx start len \<Rightarrow> range_true em B idx start len bs
      | PcLiteral spool len residue_off inline \<Rightarrow> literal_true env len residue_off inline bs)"

definition pc_true :: "check_env \<Rightarrow> byte list set \<Rightarrow> emit_env \<Rightarrow> (nat \<Rightarrow> byte list) \<Rightarrow> pcnode \<Rightarrow> byte list \<Rightarrow> bool" where
  "pc_true env K em B node stored \<longleftrightarrow>
     stored \<in> K \<and> pn_sha256 node = ce_sha env stored \<and> pn_size node = length stored \<and>
     pn_pad node < pn_size node \<and> pn_size node \<le> PCLUSTER_MAX_SIZE \<and> pn_preset node < 2 ^ 32 \<and> pn_dict_size node < 2 ^ 32 \<and>
     (\<exists>parts. list_all2 (input_true env em B) (pn_inputs node) parts \<and>
        length (concat parts) \<le> PCLUSTER_MAX_DSIZE + ENCODE_MARGIN \<and>
        rebuild_pcluster (ce_lzma env) (pn_size node) (pn_pad node) (pn_preset node) (pn_dict_size node) (concat parts) = Inr stored)"

definition seg_stands :: "check_env \<Rightarrow> byte list set \<Rightarrow> emit_env \<Rightarrow> (nat \<Rightarrow> byte list) \<Rightarrow> byte list \<Rightarrow> seg \<Rightarrow> bool" where
  "seg_stands env K em B C s \<longleftrightarrow>
     (let bs = window C (seg_at s) (seg_len s) in
      case s of
        SChild idx start len at root_off \<Rightarrow> range_true em B idx start len bs
      | STabled idx start len at root_off \<Rightarrow> range_true em B idx start len bs
      | SPcluster pc at len root_off \<Rightarrow>
          pc < length (pl_pclusters (em_plan em)) \<longrightarrow> pc_true env K em B (pl_pclusters (em_plan em) ! pc) bs
      | SGap at len residue_off inline \<Rightarrow> literal_true env len residue_off inline bs)"

definition comp_true :: "check_env \<Rightarrow> comp \<Rightarrow> byte list \<Rightarrow> byte list \<Rightarrow> bool" where
  "comp_true env how c bs \<longleftrightarrow>
     (case how of
        CGzip params header \<Rightarrow>
          gz_level params \<in> {1..9} \<and> (\<exists>chunks. ce_gzip env params c = (chunks, True) \<and> bs = header @ drop 10 (concat chunks))
      | CZstd params \<Rightarrow>
          - (2 ^ 31) \<le> zs_level params \<and> zs_level params < 2 ^ 31 \<and>
          (\<exists>chunks. ce_zstd env params c = (chunks, True) \<and> bs = concat chunks))"

definition extract_true :: "check_env \<Rightarrow> extraction \<Rightarrow> byte list \<Rightarrow> bool" where
  "extract_true env e bs \<longleftrightarrow>
     ce_blobs env (hex_sha env bs) \<noteq> None \<or>
     (\<exists>p content. ce_blobs env (ar_digest (ex_archive e)) = Some p \<and> ce_file env p = Some content \<and>
        archive_extract (ce_codecs env) content (utf8_lossy (ascii (ar_path (ex_archive e)))) = Inr bs)"

text \<open>A member the document refers to as it is.\<close>

definition fetched :: "emit_env \<Rightarrow> nat \<Rightarrow> bool" where
  "fetched em i \<longleftrightarrow> referenced_as_leaf (em_plan em) i \<or> i \<in> pl_tabled (em_plan em) \<or> i = pl_root (em_plan em)"

definition plan_true :: "check_env \<Rightarrow> byte list set \<Rightarrow> emit_env \<Rightarrow> (nat \<Rightarrow> byte list) \<Rightarrow> bool" where
  "plan_true env K em B \<longleftrightarrow>
     (\<forall>i < length (em_members em). B i \<in> K \<and> mb_size (em_members em ! i) = length (B i) \<and> length (B i) < 2 ^ 64) \<and>
     (\<forall>i < length (em_digests em). \<forall>d. em_digests em ! i = Some d \<longrightarrow> dg_sha256 d = ce_sha env (B i)) \<and>
     (\<forall>i e. map_of (pl_extracts (em_plan em)) i = Some e \<longrightarrow> extract_true env e (B i)) \<and>
     (\<forall>i c. map_of (pl_compress (em_plan em)) i = Some c \<longrightarrow> comp_true env (cp_how c) (B (cp_child c)) (B i)) \<and>
     (\<forall>i b. map_of (pl_builds (em_plan em)) i = Some b \<longrightarrow>
        seg_tiles 0 (bd_segs b) (length (B i)) \<and> (\<forall>s \<in> set (bd_segs b). seg_stands env K em B (B i) s)) \<and>
     (\<forall>i. fetched em i \<longrightarrow> map_of (pl_extracts (em_plan em)) i = None \<longrightarrow> map_of (pl_compress (em_plan em)) i = None \<longrightarrow>
        map_of (pl_builds (em_plan em)) i = None \<longrightarrow> ce_blobs env (hex_sha env (B i)) \<noteq> None)"

text \<open>The indices given to the archives.\<close>

definition archives_good :: "check_env \<Rightarrow> emit_env \<Rightarrow> (nat \<times> nat) list \<Rightarrow> bool" where
  "archives_good env em src_of \<longleftrightarrow>
     (\<forall>i e k. map_of (pl_extracts (em_plan em)) i = Some e \<longrightarrow> map_of src_of i = Some k \<longrightarrow>
        k < length (ce_sources env) \<and> k < 2 ^ 64 \<and>
        (\<exists>e'. ce_sources env ! k = archive_json e' \<and> ar_digest (ex_archive e') = ar_digest (ex_archive e)))"

lemma or_high_is_add:
  assumes "x < (2::nat) ^ n"
  shows "x OR 2 ^ n = x + 2 ^ n"
proof -
  have "take_bit n x = x" using assms by (simp add: take_bit_nat_eq_self)
  then have "\<not> (bit x m \<and> bit (2 ^ n :: nat) m)" for m
    using bit_take_bit_iff [of n x m] by (auto simp: bit_exp_iff)
  then have "x AND 2 ^ n = 0" by (intro bit_eqI) (simp only: bit_and_iff bit_0_eq, blast)
  then show ?thesis by (simp add: disjunctive_add_eq_or)
qed

lemma preset_recombined:
  assumes "p < 2 ^ 32"
  shows "((p mod 2 ^ 31) mod 2 ^ 32) OR (if odd (p div 2 ^ 31) then LZMA_PRESET_EXTREME else 0) = p"
proof (cases "odd (p div 2 ^ 31)")
  case True
  have "p div 2 ^ 31 < 2" using assms by (simp add: div_less_iff_less_mult)
  then have "p div 2 ^ 31 = 1" using True by (cases "p div 2 ^ 31") auto
  then have p: "p = p mod 2 ^ 31 + 2 ^ 31" using div_mult_mod_eq [of p "2 ^ 31"] by simp
  have "(p mod 2 ^ 31) OR 2 ^ 31 = p mod 2 ^ 31 + 2 ^ (31::nat)"
    by (rule or_high_is_add) simp
  then show ?thesis using True p by (simp add: LZMA_PRESET_EXTREME_def)
next
  case False
  have "p div 2 ^ 31 < 2" using assms by (simp add: div_less_iff_less_mult)
  then have "p div 2 ^ 31 = 0" using False by (cases "p div 2 ^ 31") auto
  then have "p mod 2 ^ 31 = p" using div_mult_mod_eq [of p "2 ^ 31"] by simp
  then show ?thesis using False assms by simp
qed

lemma zstd_params_json:
  assumes "- (2 ^ 31) \<le> zs_level z" "zs_level z < 2 ^ 31"
  shows "zstd_params (zstd_json z) = Inr z"
proof -
  have "signed_take_bit 31 (zs_level z) = zs_level z" using assms by (intro signed_take_bit_int_eq_self) simp_all
  moreover have "as_i64 (JNum (zs_level z)) = Some (zs_level z)" using assms by simp
  ultimately show ?thesis by (auto simp: zstd_params_def zstd_json_def needed_def)
qed

lemma segs_concat:
  "seg_tiles a segs b \<Longrightarrow> b \<le> length C \<Longrightarrow>
     concat (map (\<lambda>s. window C (seg_at s) (seg_len s)) segs) = window C a (b - a)"
proof (induction segs arbitrary: a)
  case (Cons s segs)
  then have t: "seg_at s = a" "seg_tiles (a + seg_len s) segs b" by simp_all
  then have le: "a + seg_len s \<le> b" using seg_tiles_bounds by blast
  then show ?case using Cons t window_append [of C a "seg_len s" "b - (a + seg_len s)"] by simp
qed (simp add: window_0_len)

subsection \<open>Nodes of a true plan\<close>

lemma bindF_InrD: "bindF m f = Some (Inr y) \<Longrightarrow> \<exists>x. m = Some (Inr x) \<and> f x = Some (Inr y)"
  by (cases m) (auto simp: bindF_def split: sum.splits)

lemma expect_InrD: "expect x = Some (Inr y) \<Longrightarrow> x = Some y"
  by (cases x) (simp_all add: expect_def okF_def failF_def)

lemma digests_of_InrD:
  "digests_of em i = Some (Inr d) \<Longrightarrow> i < length (em_digests em) \<and> em_digests em ! i = Some d"
  by (auto simp: digests_of_def okF_def failF_def split: if_splits option.splits)

lemma all_some_map:
  "all_some (map f xs) = Some ys \<Longrightarrow> list_all2 (\<lambda>x y. f x = Some y) xs ys"
  by (induction xs arbitrary: ys) (auto split: option.splits)

text \<open>A member whose node the document may hold.\<close>

definition emitted :: "emit_env \<Rightarrow> nat \<Rightarrow> bool" where
  "emitted em i \<longleftrightarrow>
     (map_of (pl_extracts (em_plan em)) i = None \<and> map_of (pl_compress (em_plan em)) i = None \<and>
      map_of (pl_builds (em_plan em)) i = None \<longrightarrow> fetched em i)"

text \<open>A node of one of the three kinds, with the digest and the size of its output.\<close>

lemma good_node_object:
  assumes "means_at env K j c" "j = JObj [(kind, v)]" "is_object v"
    "kind = ''ref'' \<and> json_str (jget (jget v ''digests'') ''sha256'') = Some (hex_sha env c) \<or>
     (kind = ''build'' \<or> kind = ''extract'') \<and> json_str (jget (jget v ''output'') ''sha256'') = Some (hex_sha env c)"
    "c \<in> K" "length c < 2 ^ 64"
  shows "good_node env K j c"
  using assms(4)
proof
  assume "kind = ''ref'' \<and> json_str (jget (jget v ''digests'') ''sha256'') = Some (hex_sha env c)"
  then show ?thesis using assms(1,3,5,6) by (simp add: good_node_def node_sha256_def needed_def assms(2))
next
  assume "(kind = ''build'' \<or> kind = ''extract'') \<and> json_str (jget (jget v ''output'') ''sha256'') = Some (hex_sha env c)"
  then show ?thesis using assms(1,3,5,6) by (elim conjE disjE) (simp_all add: good_node_def node_sha256_def needed_def assms(2))
qed

lemma one_kind_object:
  "kind \<in> {''ref'', ''build'', ''extract''} \<Longrightarrow> one_kind (JObj [(kind, v)])"
  by (auto simp: one_kind_def node_kinds_def)

lemma ref_good:
  assumes "c \<in> K" "length c < 2 ^ 64" "dg_sha256 d = ce_sha env c" "ce_blobs env (hex_sha env c) \<noteq> None"
  shows "good_node env K (ref_json m d claims) c"
proof -
  obtain v where j: "ref_json m d claims = JObj [(''ref'', JObj v)]"
    "json_str (jget (jget (JObj v) ''digests'') ''sha256'') = Some (hex_sha env c)"
    using assms(3) by (simp add: ref_json_def digests_json_get hex_sha_def)
  have "means_at env K (ref_json m d claims) c"
    unfolding j(1) by (rule means_ref [OF one_kind_object]) (use j(2) assms in simp_all)
  then show ?thesis by (rule good_node_object [OF _ j(1)]) (use j(2) assms in simp_all)
qed

lemma extract_good:
  assumes "c \<in> K" "length c < 2 ^ 64" "dg_sha256 d = ce_sha env c" "mb_size m = length c"
    and "extract_true env e c"
    and "k < length (ce_sources env)" "k < 2 ^ 64" "ce_sources env ! k = archive_json e'"
    "ar_digest (ex_archive e') = ar_digest (ex_archive e)"
  shows "good_node env K (extract_json m d e k) c"
proof -
  let ?j = "extract_json m d e k"
  have k: "one_kind ?j" unfolding extract_json_def by (rule one_kind_object) simp
  have out: "json_str (jget (jget (jget ?j ''extract'') ''output'') ''sha256'') = Some (hex_sha env c)"
    "as_u64 (jget (jget (jget ?j ''extract'') ''output'') ''size'') = Some (length c)" "is_object (jget ?j ''extract'')"
    using assms(2,3,4) by (simp_all add: extract_json_def output_json_get hex_sha_def)
  have "means_at env K ?j c"
    using assms(5) unfolding extract_true_def
  proof
    assume "ce_blobs env (hex_sha env c) \<noteq> None"
    then show ?thesis by (rule means_extracted [OF k out(3,1) assms(1) out(2)])
  next
    assume "\<exists>p content. ce_blobs env (ar_digest (ex_archive e)) = Some p \<and> ce_file env p = Some content \<and>
        archive_extract (ce_codecs env) content (utf8_lossy (ascii (ar_path (ex_archive e)))) = Inr c"
    then obtain p content where a: "ce_blobs env (ar_digest (ex_archive e)) = Some p" "ce_file env p = Some content"
      "archive_extract (ce_codecs env) content (utf8_lossy (ascii (ar_path (ex_archive e)))) = Inr c" by blast
    have "resolve_source (JObj [(''source'', json_nat k)]) (ce_sources env) = Inr (archive_json e')"
      using assms(6,7,8) by (cases "ce_sources env") (auto simp: resolve_source_def as_u64_json_nat archive_json_def)
    then have src: "resolve_source (jget (jget ?j ''extract'') ''archive'') (ce_sources env) = Inr (archive_json e')"
      by (simp add: extract_json_def)
    have sha: "is_object (jget (archive_json e') ''ref'')" "node_sha256 (archive_json e') = Inr (ar_digest (ex_archive e))"
      using assms(9) by (simp_all add: archive_json_def node_sha256_def needed_def)
    have path: "json_str (jget (jget ?j ''extract'') ''path'') = Some (ar_path (ex_archive e))"
      by (simp add: extract_json_def)
    show ?thesis by (rule means_extract [OF k out(3,1) assms(1) out(2) src sha a(1,2) path a(3)])
  qed
  then show ?thesis by (rule good_node_object [OF _ extract_json_def]) (use out assms in \<open>simp_all add: extract_json_def\<close>)
qed

lemma compress_good:
  assumes "c \<in> K" "length c < 2 ^ 64" "means env K input x" "comp_true env how x c" "comp_json how = (builder, params)"
    and "j = JObj [(''build'', JObj [(''builder'', JStr builder), (''name'', nm), (''params'', params),
           (''output'', output_json (ce_sha env c) (length c)), (''inputs'', JArr [input])])]"
  shows "good_node env K j c"
proof -
  have k: "one_kind j" unfolding assms(6) by (rule one_kind_object) simp
  have out: "is_object (jget j ''build'')"
    "json_str (jget (jget (jget j ''build'') ''output'') ''sha256'') = Some (hex_sha env c)"
    "as_u64 (jget (jget (jget j ''build'') ''output'') ''size'') = Some (length c)"
    "json_str (jget (jget j ''build'') ''builder'') = Some builder"
    "as_array (jget (jget j ''build'') ''inputs'') = Some [input]" "jget (jget j ''build'') ''params'' = params"
    using assms(2) by (simp_all add: assms(6) output_json_get hex_sha_def)
  have "means_at env K j c"
  proof (cases how)
    case (CGzip gz header)
    then obtain chunks where g: "gz_level gz \<in> {1..9}" "ce_gzip env gz x = (chunks, True)" "c = header @ drop 10 (concat chunks)"
      using assms(4) by (auto simp: comp_true_def)
    have p: "builder = ''gzip@0''" "json_str (jget params ''compressor'') = Some (gnu_name gz)"
      "json_str (jget params ''header_hex'') = Some (hex_lower header)"
      using assms(5) CGzip by (auto simp: comp_json_def)
    have gn: "gnu_parse (gnu_name gz) = Some gz"
      using gnu_name_roundtrip g(1) by (cases gz) auto
    show ?thesis
      by (rule means_gzip [OF k out(1,2) assms(1) out(3) _ out(5) assms(3) _ gn _ hexlower_decode_lower g(2,3)])
        (use p out in simp_all)
  next
    case (CZstd zs)
    then obtain chunks where z: "- (2 ^ 31) \<le> zs_level zs" "zs_level zs < 2 ^ 31" "ce_zstd env zs x = (chunks, True)" "c = concat chunks"
      using assms(4) by (auto simp: comp_true_def)
    have p: "builder = ''zstd@0''" "params = zstd_json zs" using assms(5) CZstd by (auto simp: comp_json_def)
    show ?thesis
      by (rule means_zstd [OF k out(1,2) assms(1) out(3) _ out(5) assms(3) _ z(3,4)]) (use p out zstd_params_json [OF z(1,2)] in simp_all)
  qed
  then show ?thesis by (rule good_node_object [OF _ assms(6)]) (use out assms in \<open>simp_all add: assms(6)\<close>)
qed

lemma inputs_mean:
  assumes "list_all2 (\<lambda>x y. pc_input_json (em_members em) node_of x = Some y) xs js" "list_all2 (input_true env em B) xs parts"
    and "table_good env K B node_of" "\<forall>i < length (em_members em). mb_size (em_members em ! i) = length (B i)"
  shows "list_all2 (means env K) js parts"
  using assms(1,2)
proof (induction arbitrary: parts rule: list_all2_induct)
  case (Cons x xs y ys)
  then obtain p ps where ps: "parts = p # ps" "input_true env em B x p" "list_all2 (input_true env em B) xs ps"
    by (auto simp: list_all2_Cons1)
  have "means env K y p"
  proof (cases x)
    case (PcMember idx start len)
    then have r: "idx < length (em_members em)" "start + len \<le> length (B idx)" "p = window (B idx) start len"
      "tabled_json (em_members em) node_of idx start len = Some y"
      using ps(2) Cons.hyps by (simp_all add: input_true_def range_true_def pc_input_json_def)
    then show ?thesis using tabled_means [OF r(4) assms(3) _ r(2)] assms(4) by simp
  next
    case (PcLiteral spool len residue_off inline)
    then show ?thesis
      using ps(2) Cons.hyps(1) by (intro literal_means [of len residue_off inline])
        (simp_all only: input_true_def literal_true_def pc_input_json_def pc_input.case)
  qed
  then show ?case using Cons.IH [OF ps(3)] ps(1) by simp
qed simp

lemma pcluster_means:
  assumes j: "pcluster_json node (em_members em) node_of = Some j" and pc: "pc_true env K em B node stored"
    and "table_good env K B node_of" "\<forall>i < length (em_members em). mb_size (em_members em ! i) = length (B i)"
  shows "means env K j stored"
proof -
  obtain inputs where i: "all_some (map (pc_input_json (em_members em) node_of) (pn_inputs node)) = Some inputs"
    "j = JObj [(''build'', JObj
         [(''builder'', JStr ''microlzma@0''), (''name'', JStr (pn_name node)),
          (''params'', JObj ([(''preset'', json_nat (pn_preset node mod 2 ^ 31)), (''dict_size'', json_nat (pn_dict_size node)),
             (''pad'', json_nat (pn_pad node))] @ (if odd (pn_preset node div 2 ^ 31) then [(''extreme'', JBool True)] else []))),
          (''output'', output_json (pn_sha256 node) (pn_size node)), (''inputs'', JArr inputs)])]"
    using j by (auto simp: pcluster_json_def)
  obtain parts where parts: "list_all2 (input_true env em B) (pn_inputs node) parts"
    "length (concat parts) \<le> PCLUSTER_MAX_DSIZE + ENCODE_MARGIN"
    "rebuild_pcluster (ce_lzma env) (pn_size node) (pn_pad node) (pn_preset node) (pn_dict_size node) (concat parts) = Inr stored"
    using pc by (auto simp: pc_true_def)
  have b: "stored \<in> K" "pn_sha256 node = ce_sha env stored" "pn_size node = length stored" "pn_pad node < length stored"
    "length stored \<le> PCLUSTER_MAX_SIZE" "pn_preset node < 2 ^ 32" "pn_dict_size node < 2 ^ 32"
    using pc by (auto simp: pc_true_def)
  have big: "length stored < 2 ^ 64" "pn_pad node < 2 ^ 64" "pn_dict_size node < 2 ^ 64" "pn_preset node mod 2 ^ 31 < 2 ^ 64"
    using b(4,5,7) by (simp_all add: PCLUSTER_MAX_SIZE_def)
  have means: "list_all2 (means env K) inputs parts"
    by (rule inputs_mean [OF all_some_map [OF i(1)] parts(1) assms(3,4)])
  have k: "one_kind j" unfolding i(2) by (rule one_kind_object) simp
  have ext: "jget (jget (jget j ''build'') ''params'') ''extreme'' = JBool True \<longleftrightarrow> odd (pn_preset node div 2 ^ 31)"
    by (simp add: i(2))
  have pre: "((pn_preset node mod 2 ^ 31) mod 2 ^ 32) OR (if jget (jget (jget j ''build'') ''params'') ''extreme'' = JBool True
      then LZMA_PRESET_EXTREME else 0) = pn_preset node"
    unfolding ext by (rule preset_recombined [OF b(6)])
  have gets: "is_object (jget j ''build'')"
    "json_str (jget (jget (jget j ''build'') ''output'') ''sha256'') = Some (hex_sha env stored)"
    "as_u64 (jget (jget (jget j ''build'') ''output'') ''size'') = Some (length stored)"
    "json_str (jget (jget j ''build'') ''builder'') = Some ''microlzma@0''"
    "as_array (jget (jget j ''build'') ''inputs'') = Some inputs"
    "as_u64 (jget (jget (jget j ''build'') ''params'') ''preset'') = Some (pn_preset node mod 2 ^ 31)"
    "as_u64 (jget (jget (jget j ''build'') ''params'') ''dict_size'') = Some (pn_dict_size node)"
    "pn_pad node = unwrap_or 0 (as_u64 (jget (jget (jget j ''build'') ''params'') ''pad''))"
    using b(2,3) big by (simp_all add: i(2) output_json_get hex_sha_def as_u64_json_nat unwrap_or_def)
  have "pn_dict_size node mod 2 ^ 32 = pn_dict_size node" using b(7) by simp
  then have rebuilt: "rebuild_pcluster (ce_lzma env) (length stored) (pn_pad node)
      (((pn_preset node mod 2 ^ 31) mod 2 ^ 32) OR (if jget (jget (jget j ''build'') ''params'') ''extreme'' = JBool True
        then LZMA_PRESET_EXTREME else 0)) (pn_dict_size node mod 2 ^ 32) (concat parts) = Inr stored"
    unfolding pre using parts(3) b(3) by simp
  have "means_at env K j stored"
    by (rule means_microlzma [OF k gets(1,2) b(1) gets(3-5) means parts(2) gets(6-8) b(4,5) rebuilt])
  moreover have "resolve_source j (ce_sources env) = Inr j" by (rule resolve_sourceless) (simp add: i(2))
  ultimately show ?thesis using means_source [OF k] by blast
qed


lemma seg_means:
  assumes "seg_json rec em node_of s = Some (Inr j)" "seg_stands env K em B C s"
    and "table_good env K B node_of" "\<forall>i < length (em_members em). mb_size (em_members em ! i) = length (B i)"
    and "\<And>idx j. rec idx = Some (Inr j) \<Longrightarrow> idx < length (em_members em) \<Longrightarrow> seg_child_is idx s \<Longrightarrow> good_node env K j (B idx)"
  shows "means env K j (window C (seg_at s) (seg_len s))"
proof (cases s)
  case (SChild idx start len at root_off)
  then have r: "idx < length (em_members em)" "start + len \<le> length (B idx)" "window C at len = window (B idx) start len"
    using assms(2) by (simp_all add: seg_stands_def range_true_def)
  obtain t where t: "rec idx = Some (Inr t)"
    "j = (if start = 0 \<and> len = mb_size (em_members em ! idx) then t
          else JObj [(''slice'', JObj [(''of'', t), (''from'', json_nat start), (''len'', json_nat len)])])"
    using assms(1) SChild by (auto simp: seg_json_def okF_def dest!: bindF_InrD split: if_splits)
  have g: "good_node env K t (B idx)" by (rule assms(5) [OF t(1) r(1)]) (simp add: SChild seg_child_is_def)
  show ?thesis
  proof (cases "start = 0 \<and> len = mb_size (em_members em ! idx)")
    case True
    then show ?thesis using good_node_means [OF g] t(2) r assms(4) SChild by (simp add: window_whole)
  next
    case False
    then have "j = JObj [(''slice'', JObj ((''of'', t) # [(''from'', json_nat start), (''len'', json_nat len)]))]" using t(2) by auto
    then have "means env K j (window (B idx) start len)" by (rule slice_means [OF g r(2)]) simp
    then show ?thesis using r(3) SChild by simp
  qed
next
  case (STabled idx start len at root_off)
  then have r: "idx < length (em_members em)" "start + len \<le> length (B idx)" "window C at len = window (B idx) start len"
    "tabled_json (em_members em) node_of idx start len = Some j"
    using assms(1,2) by (auto simp: seg_stands_def range_true_def seg_json_def dest: expect_InrD)
  then show ?thesis using tabled_means [OF r(4) assms(3) _ r(2)] assms(4) STabled by simp
next
  case (SPcluster pc at len root_off)
  then have r: "pc < length (pl_pclusters (em_plan em))"
    "pcluster_json (pl_pclusters (em_plan em) ! pc) (em_members em) node_of = Some j"
    using assms(1) by (auto simp: seg_json_def failF_def dest: expect_InrD split: if_splits)
  then have "pc_true env K em B (pl_pclusters (em_plan em) ! pc) (window C at len)"
    using assms(2) SPcluster by (simp add: seg_stands_def)
  then show ?thesis using pcluster_means [OF r(2) _ assms(3,4)] SPcluster by simp
next
  case (SGap at len residue_off inline)
  then have r: "literal_json len residue_off inline = Some j" "literal_true env len residue_off inline (window C at len)"
    using assms(1,2) by (auto simp: seg_stands_def seg_json_def dest: expect_InrD)
  show ?thesis using literal_means [OF r(1) r(2) [unfolded literal_true_def]] SGap by simp
qed

lemma segs_mean:
  assumes "segs_json rec em node_of segs = Some (Inr js)" "\<forall>s \<in> set segs. seg_stands env K em B C s"
    and "table_good env K B node_of" "\<forall>i < length (em_members em). mb_size (em_members em ! i) = length (B i)"
    and "\<And>s idx j. s \<in> set segs \<Longrightarrow> rec idx = Some (Inr j) \<Longrightarrow> idx < length (em_members em) \<Longrightarrow> seg_child_is idx s \<Longrightarrow>
           good_node env K j (B idx)"
  shows "list_all2 (means env K) js (map (\<lambda>s. window C (seg_at s) (seg_len s)) segs)"
  using assms(1,2,5)
proof (induction segs arbitrary: js)
  case (Cons s segs)
  then obtain j js' where j: "js = j # js'" "seg_json rec em node_of s = Some (Inr j)" "segs_json rec em node_of segs = Some (Inr js')"
    by (auto simp: okF_def dest!: bindF_InrD)
  have "means env K j (window C (seg_at s) (seg_len s))"
    by (rule seg_means [OF j(2) _ assms(3,4)]) (use Cons.prems in auto)
  moreover have "list_all2 (means env K) js' (map (\<lambda>s. window C (seg_at s) (seg_len s)) segs)"
    by (rule Cons.IH [OF j(3)]) (use Cons.prems in auto)
  ultimately show ?case using j(1) by simp
qed (simp add: okF_def)

lemma splice_good:
  assumes "c \<in> K" "length c < 2 ^ 64" "list_all2 (means env K) inputs parts" "c = concat parts"
    and "j = JObj [(''build'', JObj
          ([(''builder'', JStr ''splice@0''), (''name'', nm),
            (''output'', output_json (ce_sha env c) (length c)), (''inputs'', JArr inputs)] @ rest))]"
  shows "good_node env K j c"
proof -
  have k: "one_kind j" unfolding assms(5) by (rule one_kind_object) simp
  have out: "is_object (jget j ''build'')"
    "json_str (jget (jget (jget j ''build'') ''output'') ''sha256'') = Some (hex_sha env c)"
    "as_u64 (jget (jget (jget j ''build'') ''output'') ''size'') = Some (length c)"
    "unwrap_or ''splice@0'' (json_str (jget (jget j ''build'') ''builder'')) = ''splice@0''"
    "as_array (jget (jget j ''build'') ''inputs'') = Some inputs"
    using assms(2) by (simp_all add: assms(5) output_json_get hex_sha_def unwrap_or_def)
  have "means_at env K j c" by (rule means_splice [OF k out(1,2) assms(1) out(3-5) assms(3,4)])
  then show ?thesis by (rule good_node_object [OF _ assms(5)]) (use out assms in \<open>simp_all add: assms(5)\<close>)
qed


lemma plan_trueD:
  assumes "plan_true env K em B"
  shows "i < length (em_members em) \<Longrightarrow> B i \<in> K \<and> mb_size (em_members em ! i) = length (B i) \<and> length (B i) < 2 ^ 64"
    and "digests_of em i = Some (Inr dg) \<Longrightarrow> dg_sha256 dg = ce_sha env (B i)"
    and "map_of (pl_extracts (em_plan em)) i = Some e \<Longrightarrow> extract_true env e (B i)"
    and "map_of (pl_compress (em_plan em)) i = Some c \<Longrightarrow> comp_true env (cp_how c) (B (cp_child c)) (B i)"
    and "map_of (pl_builds (em_plan em)) i = Some b \<Longrightarrow>
           seg_tiles 0 (bd_segs b) (length (B i)) \<and> (\<forall>s \<in> set (bd_segs b). seg_stands env K em B (B i) s)"
    and "fetched em i \<Longrightarrow> map_of (pl_extracts (em_plan em)) i = None \<Longrightarrow> map_of (pl_compress (em_plan em)) i = None \<Longrightarrow>
           map_of (pl_builds (em_plan em)) i = None \<Longrightarrow> ce_blobs env (hex_sha env (B i)) \<noteq> None"
  using assms digests_of_InrD [of em i dg] unfolding plan_true_def by blast+

lemma emitted_children:
  "map_of (pl_compress (em_plan em)) i = Some c \<Longrightarrow> emitted em (cp_child c)"
  "map_of (pl_builds (em_plan em)) i = Some b \<Longrightarrow> s \<in> set (bd_segs b) \<Longrightarrow> seg_child_is k s \<Longrightarrow> emitted em k"
  by (auto simp: emitted_def fetched_def referenced_as_leaf_def list_ex_iff dest!: map_of_SomeD)

lemma member_good:
  assumes node: "member_json rec em src_of node_of i = Some (Inr j)"
    and plan: "plan_true env K em B" and arch: "archives_good env em src_of" and tab: "table_good env K B node_of"
    and em: "emitted em i"
    and rec: "\<And>i j. rec i = Some (Inr j) \<Longrightarrow> emitted em i \<Longrightarrow> good_node env K j (B i)"
  shows "good_node env K j (B i)"
proof -
  note D = plan_trueD [OF plan]
  have i: "i < length (em_members em)" using node by (auto simp: member_json_def failF_def split: if_splits)
  note Bi = D(1) [OF i]
  have sizes: "\<forall>i < length (em_members em). mb_size (em_members em ! i) = length (B i)" using D(1) by blast
  show ?thesis
  proof (cases "map_of (pl_extracts (em_plan em)) i")
    case (Some e)
    then obtain k d where kd: "map_of src_of i = Some k" "digests_of em i = Some (Inr d)" "j = extract_json (em_members em ! i) d e k"
      using node i by (auto simp: member_json_def Let_def okF_def dest!: bindF_InrD expect_InrD)
    obtain e' where "k < length (ce_sources env)" "k < 2 ^ 64" "ce_sources env ! k = archive_json e'"
      "ar_digest (ex_archive e') = ar_digest (ex_archive e)"
      using arch Some kd(1) unfolding archives_good_def by blast
    then show ?thesis unfolding kd(3) using extract_good [OF _ _ D(2) [OF kd(2)] _ D(3) [OF Some]] Bi by blast
  next
    case no_extract: None
    show ?thesis
    proof (cases "map_of (pl_compress (em_plan em)) i")
      case (Some c)
      obtain builder params where bp: "comp_json (cp_how c) = (builder, params)" by (cases "comp_json (cp_how c)")
      then obtain d input where n: "digests_of em i = Some (Inr d)" "rec (cp_child c) = Some (Inr input)"
        "j = JObj [(''build'', JObj [(''builder'', JStr builder), (''name'', JStr (leaf_name (em_members em ! i))), (''params'', params),
           (''output'', output_json (dg_sha256 d) (mb_size (em_members em ! i))), (''inputs'', JArr [input])])]"
        using node i no_extract Some by (auto simp: member_json_def Let_def okF_def dest!: bindF_InrD)
      have "means env K input (B (cp_child c))" by (rule good_node_means [OF rec [OF n(2) emitted_children(1) [OF Some]]])
      then show ?thesis
        using compress_good [OF _ _ _ D(4) [OF Some] bp] n(3) Bi D(2) [OF n(1)] by auto
    next
      case no_compress: None
      show ?thesis
      proof (cases "map_of (pl_builds (em_plan em)) i")
        case (Some b)
        then obtain d inputs where n: "digests_of em i = Some (Inr d)" "segs_json rec em node_of (bd_segs b) = Some (Inr inputs)"
          "j = JObj [(''build'', JObj
             ([(''builder'', JStr ''splice@0''), (''name'', JStr (leaf_name (em_members em ! i))),
               (''output'', output_json (dg_sha256 d) (mb_size (em_members em ! i))), (''inputs'', JArr inputs)] @
              dropped_note (bd_dropped b)))]"
          using node i no_extract no_compress by (auto simp: member_json_def Let_def okF_def dest!: bindF_InrD)
        have "list_all2 (means env K) inputs (map (\<lambda>s. window (B i) (seg_at s) (seg_len s)) (bd_segs b))"
          by (rule segs_mean [OF n(2) _ tab sizes]) (use D(5) [OF Some] rec emitted_children(2) [OF Some] in auto)
        moreover have "concat (map (\<lambda>s. window (B i) (seg_at s) (seg_len s)) (bd_segs b)) = B i"
          using segs_concat [of 0 "bd_segs b" "length (B i)" "B i"] D(5) [OF Some] by (simp add: window_whole)
        ultimately show ?thesis
          using splice_good [of "B i" K env inputs] n(3) Bi D(2) [OF n(1)] by fastforce
      next
        case None
        then obtain d where n: "digests_of em i = Some (Inr d)" "j = ref_json (em_members em ! i) d (claims_json (em_evidence em ! i))"
          using node i no_extract no_compress by (auto simp: member_json_def Let_def okF_def failF_def dest!: bindF_InrD split: if_splits)
        have "fetched em i" using em no_extract no_compress None by (simp add: emitted_def)
        then show ?thesis
          unfolding n(2) using ref_good [OF _ _ D(2) [OF n(1)] D(6)] no_extract no_compress None Bi by blast
      qed
    qed
  qed
qed

lemma node_good:
  "plan_true env K em B \<Longrightarrow> archives_good env em src_of \<Longrightarrow> table_good env K B node_of \<Longrightarrow> emitted em i \<Longrightarrow>
     node_json d em src_of node_of i = Some (Inr j) \<Longrightarrow> good_node env K j (B i)"
proof (induction d arbitrary: i j)
  case (Suc d)
  then show ?case using member_good [of "node_json d em src_of node_of" em src_of node_of i j] by simp
qed simp

end
