(* ===== verification/Hdx_Mint.thy ===== *)
theory Hdx_Mint
  imports Hdx_Emitted
begin

text \<open>
  The document minting writes (\<open>mint\<close> in \<open>src/src/recipe_cmd.rs\<close>, from the plan on) with its coverage, and
  the round trip: the document of a true plan, with the sidecar written beside it, is rebuilt by the
  check to the bytes of the planned file.
\<close>

subsection \<open>Coverage\<close>

definition is_leaf :: "rplan \<Rightarrow> nat \<Rightarrow> bool" where
  "is_leaf plan i \<longleftrightarrow> map_of (pl_builds plan) i = None \<and> map_of (pl_compress plan) i = None"

definition leaf_len :: "rplan \<Rightarrow> nat \<Rightarrow> nat \<Rightarrow> nat" where
  "leaf_len plan i len = (if is_leaf plan i then len else 0)"

text \<open>What a segment or an input adds to the fetchable bytes and to the residue.\<close>

definition seg_coverage :: "rplan \<Rightarrow> seg \<Rightarrow> nat \<times> nat" where
  "seg_coverage plan s =
     (case s of
        SChild idx start len at root_off \<Rightarrow> (leaf_len plan idx len, 0)
      | STabled idx start len at root_off \<Rightarrow> (leaf_len plan idx len, 0)
      | SPcluster pc at len root_off \<Rightarrow> (0, 0)
      | SGap at len residue_off inline \<Rightarrow> (0, len))"

definition input_coverage :: "rplan \<Rightarrow> pc_input \<Rightarrow> nat \<times> nat" where
  "input_coverage plan input =
     (case input of
        PcMember idx start len \<Rightarrow> (leaf_len plan idx len, 0)
      | PcLiteral spool len residue_off inline \<Rightarrow> (0, len))"

definition coverage :: "member list \<Rightarrow> rplan \<Rightarrow> nat \<times> nat" where
  "coverage ms plan =
     (let parts = concat (map (\<lambda>(i, b). map (seg_coverage plan) (bd_segs b)) (pl_builds plan)) @
          concat (map (\<lambda>node. map (input_coverage plan) (pn_inputs node)) (pl_pclusters plan)) @
          map (\<lambda>(i, c). (leaf_len plan (cp_child c) (mb_size (ms ! cp_child c)), 0)) (pl_compress plan) in
      (sum_list (map fst parts), sum_list (map snd parts)))"

subsection \<open>The document\<close>

record residue_info =
  ri_sha256 :: "byte list"
  ri_file_len :: nat
  ri_raw_len :: nat

definition residue_json :: "residue_info option \<Rightarrow> json" where
  "residue_json residue =
     (case residue of
        None \<Rightarrow> JNull
      | Some r \<Rightarrow>
          JObj [(''sha256'', JStr (hex_lower (ri_sha256 r))), (''size'', json_nat (ri_file_len r)),
            (''uncompressed_size'', json_nat (ri_raw_len r)), (''compression'', JStr ''zstd'')])"

definition source_json :: "string \<Rightarrow> emit_env \<Rightarrow> (emit_error + json) option" where
  "source_json name em =
     (let root = pl_root (em_plan em) in
      if length (em_members em) \<le> root then failF EmitPanic
      else bindF (digests_of em root) (\<lambda>d.
        okF (JObj [(''name'', JStr name), (''size'', json_nat (mb_size (em_members em ! root))),
          (''sha256'', JStr (hex_lower (dg_sha256 d)))])))"

text \<open>The whole file as one archive member: a single extract node.\<close>

definition mint_extract :: "nat \<Rightarrow> emit_env \<Rightarrow> string \<Rightarrow> (emit_error + json) option" where
  "mint_extract d em name =
     bindF (sources_json d em) (\<lambda>(sources, src_of, node_of).
     bindF (source_json name em) (\<lambda>source.
     bindF (node_json d em src_of node_of (pl_root (em_plan em))) (\<lambda>root.
       okF (JObj [(''hdx_recipe'', JStr ''1''), (''source'', source), (''sources'', JArr sources), (''root'', root)]))))"

text \<open>Only what the surviving splices refer to is in the table.\<close>

definition settle_tabled :: "emit_env \<Rightarrow> emit_env" where
  "settle_tabled em = em\<lparr>em_plan := (em_plan em)\<lparr>pl_tabled := referenced_tabled (em_plan em)\<rparr>\<rparr>"

definition mint_splice :: "nat \<Rightarrow> emit_env \<Rightarrow> string \<Rightarrow> residue_info option \<Rightarrow> (emit_error + json) option" where
  "mint_splice d em name residue =
     (let em = settle_tabled em; (fetchable, residue_total) = coverage (em_members em) (em_plan em) in
      bindF (sources_json d em) (\<lambda>(sources, src_of, node_of).
      bindF (source_json name em) (\<lambda>source.
      bindF (node_json d em src_of node_of (pl_root (em_plan em))) (\<lambda>root.
        okF (JObj
          ([(''hdx_recipe'', JStr (if sources = [] then ''0'' else ''1'')), (''source'', source), (''root'', root),
            (''residue'', residue_json residue),
            (''coverage'', JObj [(''total_bytes'', json_nat (mb_size (em_members em ! pl_root (em_plan em)))),
               (''fetchable_bytes'', json_nat fetchable), (''residue_bytes'', json_nat residue_total)])] @
           (if sources \<noteq> [] then [(''sources'', JArr sources)] else [])))))))"

definition whole_extract :: "emit_env \<Rightarrow> bool" where
  "whole_extract em \<longleftrightarrow> map_of (pl_extracts (em_plan em)) (pl_root (em_plan em)) \<noteq> None"

definition mint_doc :: "nat \<Rightarrow> emit_env \<Rightarrow> string \<Rightarrow> residue_info option \<Rightarrow> (emit_error + json) option" where
  "mint_doc d em name residue = (if whole_extract em then mint_extract d em name else mint_splice d em name residue)"


subsection \<open>Where the indices of an emitted node point\<close>

definition below :: "nat \<Rightarrow> json \<Rightarrow> bool" where
  "below n j \<longleftrightarrow> everywhere (source_below n) j"

lemma below_plain [simp]: "below n (JStr s)" "below n (JNum i)" "below n (JBool b)" "below n JNull"
  by (simp_all add: below_def source_below_def)

lemma below_array: "below n (JArr xs) \<longleftrightarrow> (\<forall>x \<in> set xs. below n x)"
  by (simp add: below_def source_below_def list_all_iff)

lemma below_object:
  "as_u64 (jget (JObj kvs) ''source'') = None \<Longrightarrow> below n (JObj kvs) \<longleftrightarrow> (\<forall>v \<in> snd ` set kvs. below n v)"
  by (auto simp: below_def source_below_def list_all_iff)

lemma below_source: "k < n \<Longrightarrow> below n (JObj [(''source'', json_nat k)])"
  by (simp add: below_def source_below_def as_u64_json_nat json_nat_def)

lemma below_mono: "below n j \<Longrightarrow> n \<le> m \<Longrightarrow> below m j"
  unfolding below_def
  by (induction "source_below n" j rule: everywhere.induct)
    (auto simp: source_below_def list_all_iff split: option.splits)

lemma below_claims: "\<forall>x \<in> set (claims_json fs). below n x"
proof -
  have one: "\<forall>x \<in> set (fst (claims_of backend cs seen)). below n x" for backend cs seen
    by (induction backend cs seen rule: claims_of.induct)
      (auto simp: claim_json_def below_object split: option.splits prod.splits)
  have "\<forall>x \<in> set (claims_loop fs seen). below n x" for seen
  proof (induction fs seen rule: claims_loop.induct)
    case (2 f fs seen)
    obtain out seen' where o: "claims_of (fd_backend f) (fd_claims f) seen = (out, seen')" by fastforce
    then have "\<forall>x \<in> set out. below n x" using one [of "fd_backend f" "fd_claims f" seen] by simp
    then show ?case using 2 o by auto
  qed simp
  then show ?thesis by (simp add: claims_json_def)
qed

lemma below_parts:
  "below n (output_json sha sz)" "below n (digests_json dg)" "below n (claim_json a s JNull)" "below n (claim_json a s (JStr u))"
  "below n (zstd_json z)" "below n (json_nat i)"
  by (auto simp: output_json_def digests_json_def claim_json_def zstd_json_def json_nat_def below_object split: option.splits)

lemma below_archive: "below n (archive_json e)"
  by (auto simp: archive_json_def below_object below_array below_parts json_opt_def split: option.splits)

lemma below_literal: "literal_json len off inline = Some j \<Longrightarrow> below n j"
  by (auto simp: literal_json_def below_object below_parts split: option.splits)

text \<open>Indices of a map that are below a bound.\<close>

definition bounded :: "nat \<Rightarrow> (nat \<times> nat) list \<Rightarrow> bool" where
  "bounded n m \<longleftrightarrow> (\<forall>i k. map_of m i = Some k \<longrightarrow> k < n)"

lemma below_tabled: "tabled_json ms node_of idx start len = Some j \<Longrightarrow> bounded n node_of \<Longrightarrow> below n j"
  by (auto simp: tabled_json_def bounded_def below_def json_nat_def source_below_def split: option.splits if_splits)

lemma below_pcluster:
  assumes "pcluster_json node ms node_of = Some j" "bounded n node_of"
  shows "below n j"
proof -
  obtain inputs where i: "all_some (map (pc_input_json ms node_of) (pn_inputs node)) = Some inputs"
    using assms(1) by (auto simp: pcluster_json_def)
  have "\<forall>y \<in> set inputs. below n y"
  proof
    fix y assume "y \<in> set inputs"
    then obtain x where "pc_input_json ms node_of x = Some y"
      using all_some_map [OF i] by (auto simp: list_all2_conv_all_nth in_set_conv_nth)
    then show "below n y"
      using assms(2) by (auto simp: pc_input_json_def split: pc_input.splits dest: below_tabled below_literal)
  qed
  then show ?thesis
    using assms(1) i by (auto simp: pcluster_json_def below_object below_array below_parts)
qed

lemma below_seg:
  assumes "seg_json rec em node_of s = Some (Inr j)" "bounded n node_of" "\<And>i j. rec i = Some (Inr j) \<Longrightarrow> below n j"
  shows "below n j"
proof (cases s)
  case (SChild idx start len at root_off)
  then obtain t where "rec idx = Some (Inr t)"
    "j = (if start = 0 \<and> len = mb_size (em_members em ! idx) then t
          else JObj [(''slice'', JObj [(''of'', t), (''from'', json_nat start), (''len'', json_nat len)])])"
    using assms(1) by (auto simp: seg_json_def okF_def dest!: bindF_InrD split: if_splits)
  then show ?thesis using assms(3) by (auto simp: below_object below_parts)
next
  case (STabled idx start len at root_off)
  then show ?thesis using assms by (auto simp: seg_json_def dest!: expect_InrD intro: below_tabled)
next
  case (SPcluster pc at len root_off)
  then show ?thesis using assms by (auto simp: seg_json_def failF_def dest!: expect_InrD intro: below_pcluster split: if_splits)
next
  case (SGap at len residue_off inline)
  then show ?thesis using assms by (auto simp: seg_json_def dest!: expect_InrD intro: below_literal)
qed

lemma below_segs:
  "segs_json rec em node_of segs = Some (Inr js) \<Longrightarrow> bounded n node_of \<Longrightarrow> (\<And>i j. rec i = Some (Inr j) \<Longrightarrow> below n j) \<Longrightarrow>
     \<forall>j \<in> set js. below n j"
proof (induction segs arbitrary: js)
  case (Cons s segs)
  then obtain j js' where j: "js = j # js'" "seg_json rec em node_of s = Some (Inr j)" "segs_json rec em node_of segs = Some (Inr js')"
    by (auto simp: okF_def dest!: bindF_InrD)
  then show ?case using below_seg [OF j(2) Cons.prems(2,3)] Cons.IH [OF j(3) Cons.prems(2,3)] by simp
qed (simp add: okF_def)

lemma below_node:
  "node_json d em src_of node_of i = Some (Inr j) \<Longrightarrow> bounded n src_of \<Longrightarrow> bounded n node_of \<Longrightarrow> below n j"
proof (induction d arbitrary: i j)
  case (Suc d)
  let ?rec = "node_json d em src_of node_of"
  have rec: "below n j" if "?rec i = Some (Inr j)" for i j using Suc.IH Suc.prems(2,3) that by blast
  have node: "member_json ?rec em src_of node_of i = Some (Inr j)" using Suc.prems(1) by simp
  then have i: "i < length (em_members em)" by (auto simp: member_json_def failF_def split: if_splits)
  show ?case
  proof (cases "map_of (pl_extracts (em_plan em)) i")
    case (Some e)
    then obtain k dg where "map_of src_of i = Some k" "j = extract_json (em_members em ! i) dg e k"
      using node i by (auto simp: member_json_def Let_def okF_def dest!: bindF_InrD expect_InrD)
    then show ?thesis
      using Suc.prems(2) below_source [of k n]
      by (auto simp: extract_json_def below_object below_array below_parts bounded_def json_opt_def split: option.splits)
  next
    case no_extract: None
    show ?thesis
    proof (cases "map_of (pl_compress (em_plan em)) i")
      case (Some c)
      obtain builder params where bp: "comp_json (cp_how c) = (builder, params)" by (cases "comp_json (cp_how c)")
      then have "below n params" by (auto simp: comp_json_def below_object below_parts split: comp.splits)
      then show ?thesis
        using node i no_extract Some bp rec
        by (auto simp: member_json_def Let_def okF_def below_object below_array below_parts dest!: bindF_InrD)
    next
      case no_compress: None
      show ?thesis
      proof (cases "map_of (pl_builds (em_plan em)) i")
        case (Some b)
        obtain dg inputs where n: "segs_json ?rec em node_of (bd_segs b) = Some (Inr inputs)" "digests_of em i = Some (Inr dg)"
          "j = JObj [(''build'', JObj
             ([(''builder'', JStr ''splice@0''), (''name'', JStr (leaf_name (em_members em ! i))),
               (''output'', output_json (dg_sha256 dg) (mb_size (em_members em ! i))), (''inputs'', JArr inputs)] @
              dropped_note (bd_dropped b)))]"
          using node i no_extract no_compress Some by (auto simp: member_json_def Let_def okF_def dest!: bindF_InrD)
        then show ?thesis
          using below_segs [OF n(1) Suc.prems(3) rec] by (auto simp: dropped_note_def below_object below_array below_parts)
      next
        case None
        then obtain dg where "j = ref_json (em_members em ! i) dg (claims_json (em_evidence em ! i))"
          using node i no_extract no_compress by (auto simp: member_json_def Let_def okF_def failF_def dest!: bindF_InrD split: if_splits)
        then show ?thesis using below_claims by (auto simp: ref_json_def below_object below_array below_parts)
      qed
    qed
  qed
qed simp


subsection \<open>The sources table\<close>

definition archive_entry :: "json list \<Rightarrow> nat \<Rightarrow> string \<Rightarrow> bool" where
  "archive_entry sources k dg \<longleftrightarrow>
     k < length sources \<and> (\<exists>e. sources ! k = archive_json e \<and> ar_digest (ex_archive e) = dg)"

lemma archive_entry_append: "archive_entry sources k dg \<Longrightarrow> archive_entry (sources @ rest) k dg"
  by (auto simp: archive_entry_def nth_append)

lemma archive_loop_entries:
  "archive_loop es idx_of sources src_of = (S, M) \<Longrightarrow>
     (\<forall>dg k. map_of idx_of dg = Some k \<longrightarrow> archive_entry sources k dg) \<Longrightarrow>
     (\<exists>rest. S = sources @ rest \<and> (\<forall>x \<in> set rest. \<exists>e. x = archive_json e)) \<and>
     (\<forall>i k. map_of M i = Some k \<longrightarrow> map_of src_of i = Some k \<or>
        (\<exists>e. (i, e) \<in> set es \<and> archive_entry S k (ar_digest (ex_archive e))))"
proof (induction es idx_of sources src_of rule: archive_loop.induct)
  case (2 i e es idx_of sources src_of)
  let ?dg = "ar_digest (ex_archive e)"
  show ?case
  proof (cases "map_of idx_of ?dg")
    case (Some k)
    have IH: "(\<exists>rest. S = sources @ rest \<and> (\<forall>x \<in> set rest. \<exists>e. x = archive_json e)) \<and>
        (\<forall>i' k'. map_of M i' = Some k' \<longrightarrow> map_of ((i, k) # src_of) i' = Some k' \<or>
          (\<exists>e. (i', e) \<in> set es \<and> archive_entry S k' (ar_digest (ex_archive e))))"
      using 2 Some by simp
    then have "archive_entry S k ?dg" using "2.prems"(2) Some archive_entry_append by blast
    then have "map_of src_of i' = Some k' \<or> (\<exists>e'. (i', e') \<in> set ((i, e) # es) \<and> archive_entry S k' (ar_digest (ex_archive e')))"
      if "map_of M i' = Some k'" for i' k'
      using conjunct2 [OF IH, rule_format, OF that] by (cases "i' = i") auto
    then show ?thesis using conjunct1 [OF IH] by blast
  next
    case None
    let ?n = "length sources"
    have new: "archive_entry (sources @ [archive_json e]) ?n ?dg" by (auto simp: archive_entry_def)
    have ok: "\<forall>dg k. map_of ((?dg, ?n) # idx_of) dg = Some k \<longrightarrow> archive_entry (sources @ [archive_json e]) k dg"
      using "2.prems"(2) new archive_entry_append by auto
    have IH: "(\<exists>rest. S = (sources @ [archive_json e]) @ rest \<and> (\<forall>x \<in> set rest. \<exists>e. x = archive_json e)) \<and>
        (\<forall>i' k'. map_of M i' = Some k' \<longrightarrow> map_of ((i, ?n) # src_of) i' = Some k' \<or>
          (\<exists>e. (i', e) \<in> set es \<and> archive_entry S k' (ar_digest (ex_archive e))))"
      using "2.IH"(1) [OF None _ ok] "2.prems"(1) None by simp
    then obtain rest where r: "S = (sources @ [archive_json e]) @ rest" "\<forall>x \<in> set rest. \<exists>e. x = archive_json e" by blast
    then have "archive_entry S ?n ?dg" using archive_entry_append [OF new] by blast
    then have "map_of src_of i' = Some k' \<or> (\<exists>e'. (i', e') \<in> set ((i, e) # es) \<and> archive_entry S k' (ar_digest (ex_archive e')))"
      if "map_of M i' = Some k'" for i' k'
      using conjunct2 [OF IH, rule_format, OF that] by (cases "i' = i") auto
    moreover have "\<exists>rest. S = sources @ rest \<and> (\<forall>x \<in> set rest. \<exists>e. x = archive_json e)"
      using r by (intro exI [of _ "archive_json e # rest"]) auto
    ultimately show ?thesis by blast
  qed
qed auto

lemma tabled_loop_entries:
  "tabled_loop d em src_of is sources node_of = Some (Inr (S, N)) \<Longrightarrow>
     (\<exists>rest. S = sources @ rest \<and> (\<forall>x \<in> set rest. \<exists>i \<in> set is. node_json d em src_of [] i = Some (Inr x))) \<and>
     (\<forall>i k. map_of N i = Some k \<longrightarrow> map_of node_of i = Some k \<or>
        (i \<in> set is \<and> k < length S \<and> node_json d em src_of [] i = Some (Inr (S ! k))))"
proof (induction "is" arbitrary: sources node_of)
  case (Cons i "is")
  obtain j where j: "node_json d em src_of [] i = Some (Inr j)"
    "tabled_loop d em src_of is (sources @ [j]) ((i, length sources) # node_of) = Some (Inr (S, N))"
    using Cons.prems by (auto dest!: bindF_InrD)
  note IH = Cons.IH [OF j(2)]
  then obtain rest where r: "S = (sources @ [j]) @ rest"
    "\<forall>x \<in> set rest. \<exists>i \<in> set is. node_json d em src_of [] i = Some (Inr x)" by blast
  have "\<exists>rest. S = sources @ rest \<and> (\<forall>x \<in> set rest. \<exists>i \<in> set (i # is). node_json d em src_of [] i = Some (Inr x))"
    using r j(1) by (intro exI [of _ "j # rest"]) auto
  moreover have "map_of node_of i' = Some k \<or>
      (i' \<in> set (i # is) \<and> k < length S \<and> node_json d em src_of [] i' = Some (Inr (S ! k)))"
    if "map_of N i' = Some k" for i' k
  proof -
    have "length sources < length S" "S ! length sources = j" using r(1) by (simp_all add: nth_append)
    then show ?thesis using conjunct2 [OF IH, rule_format, OF that] j(1) by (cases "i' = i") auto
  qed
  ultimately show ?case by blast
qed (simp add: okF_def)

text \<open>The table: entries refer to archives, and archives to nothing.\<close>

lemma sources_table:
  assumes "sources_json d em = Some (Inr (sources, src_of, node_of))"
  shows "backward sources"
    and "distinct (map fst (pl_extracts (em_plan em))) \<Longrightarrow> map_of (pl_extracts (em_plan em)) i = Some e \<Longrightarrow>
           map_of src_of i = Some k \<Longrightarrow> archive_entry sources k (ar_digest (ex_archive e))"
    and "map_of node_of i = Some k \<Longrightarrow> i \<in> pl_tabled (em_plan em) \<and> k < length sources \<and>
           node_json d em src_of [] i = Some (Inr (sources ! k))"
proof -
  let ?es = "sort_key fst (pl_extracts (em_plan em))"
  obtain A where a: "archive_loop ?es [] [] [] = (A, src_of)"
    "tabled_loop d em src_of (sorted_list_of_set (pl_tabled (em_plan em))) A [] = Some (Inr (sources, node_of))"
    using assms by (auto simp: sources_json_def Let_def okF_def dest!: bindF_InrD split: prod.splits)
  note arch = archive_loop_entries [OF a(1)]
  note tab = tabled_loop_entries [OF a(2)]
  have A: "\<forall>x \<in> set A. \<exists>e. x = archive_json e"
    "map_of src_of i = Some k \<Longrightarrow> \<exists>e. (i, e) \<in> set ?es \<and> archive_entry A k (ar_digest (ex_archive e))" for i k
    using arch by auto
  obtain rest where r: "sources = A @ rest" "\<forall>x \<in> set rest. \<exists>i. node_json d em src_of [] i = Some (Inr x)"
    using tab by blast
  have bound: "bounded (length A) src_of" using A(2) by (auto simp: bounded_def archive_entry_def)
  have "below i (sources ! i)" if "i < length sources" for i
  proof (cases "i < length A")
    case True
    then obtain a where "A ! i = archive_json a" using A(1) nth_mem [OF True] by blast
    then have "sources ! i = archive_json a" using r(1) True by (simp add: nth_append)
    then show ?thesis using below_archive by simp
  next
    case False
    then have "sources ! i \<in> set rest" using r(1) that by (simp add: nth_append)
    then obtain m where "node_json d em src_of [] m = Some (Inr (sources ! i))" using r(2) by blast
    then have "below (length A) (sources ! i)" by (rule below_node [OF _ bound]) (simp add: bounded_def)
    then show ?thesis using below_mono False by simp
  qed
  then show "backward sources" by (simp add: backward_def below_def list_all_iff)
  show "archive_entry sources k (ar_digest (ex_archive e))"
    if "distinct (map fst (pl_extracts (em_plan em)))" "map_of (pl_extracts (em_plan em)) i = Some e" "map_of src_of i = Some k"
  proof -
    note h = that
    obtain e' where e': "(i, e') \<in> set (pl_extracts (em_plan em))" "archive_entry A k (ar_digest (ex_archive e'))"
      using A(2) [OF h(3)] by auto
    then have "e' = e" using h(1,2) by simp
    then show ?thesis using e'(2) archive_entry_append r(1) by simp
  qed
  show "i \<in> pl_tabled (em_plan em) \<and> k < length sources \<and> node_json d em src_of [] i = Some (Inr (sources ! k))"
    if "map_of node_of i = Some k"
    using tab that by (cases "finite (pl_tabled (em_plan em))") auto
qed


subsection \<open>The document of a true plan is rebuilt\<close>

lemma table_env_good:
  assumes "sources_json d em = Some (Inr (sources, src_of, node_of))" "distinct (map fst (pl_extracts (em_plan em)))"
    and "length sources < 2 ^ 64" "ce_sources env = sources" "plan_true env K em B"
  shows "archives_good env em src_of" and "table_good env K B node_of"
proof -
  show arch: "archives_good env em src_of"
    using sources_table(2) [OF assms(1,2)] assms(3,4) unfolding archives_good_def archive_entry_def
    by (metis less_trans)
  have "good_node env K (sources ! k) (B i) \<and> k < length sources" if "map_of node_of i = Some k" for i k
  proof -
    note t = sources_table(3) [OF assms(1) that]
    have "emitted em i" using t by (simp add: emitted_def fetched_def)
    moreover have "table_good env K B []" by (simp add: table_good_def)
    ultimately show ?thesis using node_good [OF assms(5) arch] t by blast
  qed
  then show "table_good env K B node_of" using assms(3,4) by (fastforce simp: table_good_def)
qed

text \<open>A plan says nothing of the table.\<close>

lemma plan_true_sources: "plan_true env K em B \<Longrightarrow> plan_true (env\<lparr>ce_sources := sources\<rparr>) K em B"
proof -
  let ?env = "env\<lparr>ce_sources := sources\<rparr>"
  have hex: "hex_sha ?env = hex_sha env" by (simp add: hex_sha_def fun_eq_iff)
  have lit: "literal_true ?env = literal_true env" by (simp add: literal_true_def fun_eq_iff split: option.split)
  have inp: "input_true ?env = input_true env" by (simp add: input_true_def lit fun_eq_iff split: pc_input.split)
  have pc: "pc_true ?env = pc_true env" by (simp add: pc_true_def inp fun_eq_iff)
  have seg: "seg_stands ?env = seg_stands env" by (simp add: seg_stands_def lit pc fun_eq_iff split: seg.split)
  have comp: "comp_true ?env = comp_true env" by (simp add: comp_true_def fun_eq_iff split: comp.split)
  have ext: "extract_true ?env = extract_true env" by (simp add: extract_true_def hex fun_eq_iff)
  show "plan_true env K em B \<Longrightarrow> plan_true ?env K em B"
    by (simp add: plan_true_def hex seg comp ext)
qed

definition settled :: "emit_env \<Rightarrow> emit_env" where
  "settled em = (if whole_extract em then em else settle_tabled em)"

lemma settled_same [simp]:
  "em_members (settled em) = em_members em" "pl_root (em_plan (settled em)) = pl_root (em_plan em)"
  "pl_extracts (em_plan (settled em)) = pl_extracts (em_plan em)"
  by (simp_all add: settled_def settle_tabled_def)

text \<open>The sidecar that the record in the document describes, as the check reads it back.\<close>

definition sidecar_written ::
  "check_env \<Rightarrow> (byte list \<Rightarrow> byte list option) \<Rightarrow> byte list option \<Rightarrow> residue_info option \<Rightarrow> spool option \<Rightarrow> bool" where
  "sidecar_written env unzstd sidecar info residue \<longleftrightarrow>
     (case info of
        None \<Rightarrow> residue = None
      | Some r \<Rightarrow>
          (\<exists>file raw. sidecar = Some file \<and> ri_sha256 r = ce_sha env file \<and> unzstd file = Some raw \<and>
             ri_raw_len r = length raw \<and> length raw < 2 ^ 64 \<and>
             residue = Some (if length raw \<le> CHECK_SPOOL_MAX then SpMem raw else SpFile raw)))"

lemma residue_opened:
  assumes "sidecar_written env unzstd sidecar info residue" "jget doc ''residue'' = residue_json info"
  shows "open_residue (ce_sha env) unzstd sidecar doc = Inr residue"
  using assms
  by (cases info)
    (auto simp: sidecar_written_def open_residue_def residue_json_def needed_def bindR_def ensureR_def unwrap_or_def as_u64_json_nat Let_def)

lemma mint_doc_parts:
  assumes "mint_doc d em name info = Some (Inr doc)"
  obtains sources src_of node_of root where
    "sources_json d (settled em) = Some (Inr (sources, src_of, node_of))"
    "node_json d (settled em) src_of node_of (pl_root (em_plan em)) = Some (Inr root)"
    "jget doc ''root'' = root" "unwrap_or [] (as_array (jget doc ''sources'')) = sources"
    "jget doc ''hdx_recipe'' = JStr ''0'' \<or> jget doc ''hdx_recipe'' = JStr ''1''"
    "jget doc ''residue'' = residue_json (if whole_extract em then None else info)"
proof (cases "whole_extract em")
  case True
  then obtain sources src_of node_of source root where
    "sources_json d em = Some (Inr (sources, src_of, node_of))"
    "node_json d em src_of node_of (pl_root (em_plan em)) = Some (Inr root)"
    "doc = JObj [(''hdx_recipe'', JStr ''1''), (''source'', source), (''sources'', JArr sources), (''root'', root)]"
    using assms by (auto simp: mint_doc_def mint_extract_def okF_def dest!: bindF_InrD)
  then show ?thesis by (intro that) (simp_all add: True settled_def unwrap_or_def residue_json_def)
next
  case False
  obtain fetchable left where c: "coverage (em_members em) (em_plan (settle_tabled em)) = (fetchable, left)" by fastforce
  obtain sources src_of node_of source root where
    "sources_json d (settle_tabled em) = Some (Inr (sources, src_of, node_of))"
    "node_json d (settle_tabled em) src_of node_of (pl_root (em_plan em)) = Some (Inr root)"
    "doc = JObj
          ([(''hdx_recipe'', JStr (if sources = [] then ''0'' else ''1'')), (''source'', source), (''root'', root),
            (''residue'', residue_json info),
            (''coverage'', JObj [(''total_bytes'', json_nat (mb_size (em_members em ! pl_root (em_plan em)))),
               (''fetchable_bytes'', json_nat fetchable), (''residue_bytes'', json_nat left)])] @
           (if sources \<noteq> [] then [(''sources'', JArr sources)] else []))"
    using assms False c by (auto simp: mint_doc_def mint_splice_def Let_def okF_def settle_tabled_def dest!: bindF_InrD)
  then show ?thesis by (intro that) (simp_all add: False settled_def unwrap_or_def)
qed

text \<open>
  C5. What is minted checks: when minting emits a document for a plan that is true of the members'
  contents, and the blob directory is honest and holds what the document refers to, the check of the
  document with the sidecar written beside it succeeds with the root's bytes and their number, at every
  depth from a bound that the document's size gives.
\<close>

theorem minted_document_checks:
  assumes "mint_doc d em name info = Some (Inr doc)"
    and "plan_true (env\<lparr>ce_residue := residue\<rparr>) K (settled em) B"
    and "sidecar_written env unzstd sidecar (if whole_extract em then None else info) residue"
    and "honest env K" and "distinct (map fst (pl_extracts (em_plan em)))"
    and "sources = unwrap_or [] (as_array (jget doc ''sources''))" and "length sources < 2 ^ 64"
    and "doc_weight sources (jget doc ''root'') + 2 \<le> d'"
  shows "check d' env unzstd sidecar doc =
           Some (Inr (B (pl_root (em_plan em)), length (B (pl_root (em_plan em)))))"
proof -
  let ?env = "env\<lparr>ce_residue := residue, ce_sources := sources\<rparr>" and ?root = "pl_root (em_plan em)"
  obtain src_of node_of root where m:
    "sources_json d (settled em) = Some (Inr (sources, src_of, node_of))"
    "node_json d (settled em) src_of node_of ?root = Some (Inr root)"
    "jget doc ''root'' = root" "jget doc ''hdx_recipe'' = JStr ''0'' \<or> jget doc ''hdx_recipe'' = JStr ''1''"
    "jget doc ''residue'' = residue_json (if whole_extract em then None else info)"
    using mint_doc_parts [OF assms(1)] assms(6) by metis
  have plan: "plan_true ?env K (settled em) B" using plan_true_sources [OF assms(2), of sources] by simp
  have tab: "archives_good ?env (settled em) src_of" "table_good ?env K B node_of"
    using table_env_good [OF m(1) _ assms(7) _ plan] assms(5) by simp_all
  have "emitted (settled em) ?root" by (simp add: emitted_def fetched_def)
  then have root: "good_node ?env K root (B ?root)" by (rule node_good [OF plan tab _ m(2)])
  have honest: "honest ?env K" using assms(4) by (simp add: honest_def hex_sha_def)
  show ?thesis
  proof (rule check_means [OF m(4) residue_opened [OF assms(3) m(5)]])
    show "?env = env\<lparr>ce_sources := unwrap_or [] (as_array (jget doc ''sources'')), ce_residue := residue\<rparr>"
      unfolding assms(6) by (cases env) simp
    show "backward (ce_sources ?env)" using sources_table(1) [OF m(1)] by simp
    show "means ?env K (jget doc ''root'') (B ?root)" using good_node_means [OF root] m(3) by simp
    show "node_sha256 (jget doc ''root'') = Inr (hex_sha env (B ?root))"
      using root m(3) by (simp add: good_node_def hex_sha_def)
  qed (use honest assms(8) in simp_all)
qed


text \<open>A blob spliced in, one through the table and an inline gap.\<close>

definition minted_member :: "nat \<Rightarrow> member" where
  "minted_member n = \<lparr>mb_path = [114], mb_kind = ''file'', mb_size = n, mb_sha256 = None, mb_extents = None, mb_space = None\<rparr>"

definition minted_digests :: "byte list \<Rightarrow> mdigests option" where
  "minted_digests bs =
     Some \<lparr>dg_sha1 = [], dg_sha256 = bs, dg_md5 = None, dg_sha512 = None, dg_blake2s = None, dg_sha1_git = None\<rparr>"

definition minted_content :: "nat \<Rightarrow> byte list" where
  "minted_content i = (if i = 0 then [0xaa, 0xbb, 0x0c] else if i = 1 then [0xaa] else [0xbb])"

definition minted_segs :: "seg list" where
  "minted_segs = [SChild 1 0 1 0 0, STabled 2 0 1 1 1, SGap 2 1 None (Some [0x0c])]"

definition minted_em :: emit_env where
  "minted_em =
     \<lparr>em_members = [minted_member 3, minted_member 1, minted_member 1],
      em_digests = map (\<lambda>i. minted_digests (minted_content i)) [0, 1, 2], em_evidence = [[], [], []],
      em_plan = \<lparr>pl_builds = [(0, \<lparr>bd_segs = minted_segs, bd_dropped = 0, bd_space = 0, bd_runs = []\<rparr>)], pl_compress = [], pl_extracts = [],
        pl_pclusters = [], pl_tabled = {}, pl_literals = None, pl_root = 0\<rparr>\<rparr>"

definition minted_ref :: "byte list \<Rightarrow> json" where
  "minted_ref bs =
     JObj [(''ref'', JObj [(''digests'', JObj [(''sha1'', JStr []), (''sha256'', JStr (hex_lower bs))]), (''size'', JNum 1), (''name'', JStr ''r'')])]"

definition minted_doc :: json where
  "minted_doc =
     JObj [(''hdx_recipe'', JStr ''1''),
       (''source'', JObj [(''name'', JStr ''r''), (''size'', JNum 3), (''sha256'', JStr ''aabb0c'')]),
       (''root'', JObj [(''build'', JObj
          [(''builder'', JStr ''splice@0''), (''name'', JStr ''r''),
           (''output'', JObj [(''sha256'', JStr ''aabb0c''), (''size'', JNum 3)]),
           (''inputs'', JArr [minted_ref [0xaa], JObj [(''source'', JNum 0)],
              JObj [(''literal'', JObj [(''inline_hex'', JStr ''0c''), (''len'', JNum 1)])]])])]),
       (''residue'', JNull),
       (''coverage'', JObj [(''total_bytes'', JNum 3), (''fetchable_bytes'', JNum 2), (''residue_bytes'', JNum 1)]),
       (''sources'', JArr [minted_ref [0xbb]])]"

lemma minted_sample: "mint_doc 2 minted_em ''r'' None = Some (Inr minted_doc)"
  by code_simp

lemma minted_plan: "plan_true (sample_env\<lparr>ce_residue := None\<rparr>) {[0xaa], [0xbb], [0xaa, 0xbb, 0x0c]} (settled minted_em) minted_content"
proof -
  let ?env = "sample_env\<lparr>ce_residue := None\<rparr>"
  have hex: "hex_sha ?env = hex_lower" by (simp add: hex_sha_def sample_env_def fun_eq_iff)
  have "referenced_tabled (em_plan minted_em) = {2}" by code_simp
  then have plan: "pl_tabled (em_plan (settled minted_em)) = {2}" "pl_compress (em_plan (settled minted_em)) = []"
    "pl_extracts (em_plan (settled minted_em)) = []" "pl_root (em_plan (settled minted_em)) = 0"
    "pl_builds (em_plan (settled minted_em)) = [(0, \<lparr>bd_segs = minted_segs, bd_dropped = 0, bd_space = 0, bd_runs = []\<rparr>)]"
    "em_members (settled minted_em) = em_members minted_em" "em_digests (settled minted_em) = em_digests minted_em"
    unfolding settled_def whole_extract_def settle_tabled_def by (simp_all add: minted_em_def)
  have "referenced_as_leaf (em_plan (settled minted_em)) i \<Longrightarrow> i = 1" for i
    by (simp add: plan referenced_as_leaf_def minted_segs_def seg_child_is_def)
  moreover have root: "pl_root (em_plan minted_em) = 0" by (simp add: minted_em_def)
  ultimately have leaf: "i = 0 \<or> i = 1 \<or> i = 2" if "fetched (settled minted_em) i" for i
    using that root by (auto simp: fetched_def plan)
  have blobs: "ce_blobs ?env (hex_lower [0xaa]) \<noteq> None" "ce_blobs ?env (hex_lower [0xbb]) \<noteq> None"
    by (simp_all add: sample_hex sample_env_def)
  have members: "\<forall>i < length (em_members minted_em). minted_content i \<in> {[0xaa], [0xbb], [0xaa, 0xbb, 0x0c]} \<and>
      mb_size (em_members minted_em ! i) = length (minted_content i) \<and> length (minted_content i) < 2 ^ 64"
    by (auto simp: minted_em_def minted_member_def minted_content_def All_less_Suc)
  have digests: "\<forall>i < length (em_digests minted_em). \<forall>d. em_digests minted_em ! i = Some d \<longrightarrow> dg_sha256 d = ce_sha ?env (minted_content i)"
    by (auto simp: minted_em_def minted_digests_def sample_env_def All_less_Suc eval_nat_numeral)
  have segs: "seg_tiles 0 minted_segs (length [0xaa, 0xbb, 0x0c :: byte])" "\<forall>s \<in> set minted_segs. seg_stands ?env K (settled minted_em) minted_content [0xaa, 0xbb, 0x0c] s" for K
    by (auto simp: minted_segs_def seg_stands_def range_true_def literal_true_def plan(6) minted_em_def minted_content_def window_def)
  show ?thesis
    unfolding plan_true_def plan hex
  proof (intro conjI allI impI)
    show "ce_blobs ?env (hex_lower (minted_content i)) \<noteq> None"
      if "fetched (settled minted_em) i" "map_of [(0, \<lparr>bd_segs = minted_segs, bd_dropped = 0, bd_space = 0, bd_runs = []\<rparr>)] i = None" for i
      using leaf [OF that(1)] that(2) blobs by (auto simp: minted_content_def)
  qed (use members digests segs in \<open>auto simp: minted_content_def split: if_splits\<close>)
qed

lemma minted_document_checks_witness:
  "mint_doc 2 minted_em ''r'' None = Some (Inr minted_doc) \<and>
   check 40 sample_env Some None minted_doc = Some (Inr ([0xaa, 0xbb, 0x0c], 3))"
proof -
  let ?K = "{[0xaa], [0xbb], [0xaa, 0xbb, 0x0c]} :: byte list set"
  have honest: "honest sample_env ?K"
    by (auto simp: honest_def sample_env_def hex_sha_def sample_hex inj_on_def split: if_splits)
  have w: "doc_weight [minted_ref [0xbb]] (jget minted_doc ''root'') + 2 \<le> 40" by code_simp
  have "check 40 sample_env Some None minted_doc =
      Some (Inr (minted_content (pl_root (em_plan minted_em)), length (minted_content (pl_root (em_plan minted_em)))))"
    by (rule minted_document_checks [OF minted_sample minted_plan _ honest _ _ _ w])
      (simp_all add: sidecar_written_def whole_extract_def minted_em_def minted_doc_def unwrap_or_def)
  then show ?thesis using minted_sample by (simp add: minted_em_def minted_content_def)
qed

end
