(* ===== verification/Spec2Isabelle.thy ===== *)
theory Spec2Isabelle
  imports Hdx_Filter Hdx_Fat Hdx_Range_Store Hdx_Git_Tree Hdx_Microcode Hdx_Compressors Hdx_Cache Hdx_Erofs_Dir Hdx_Verify Hdx_Check_Total Hdx_Available Hdx_Mint
begin

text \<open>
  A verification library for hashdex (\<open>hdx\<close>), the Rust program under \<open>src/\<close> that identifies files by
  their content hashes, looks inside containers, and writes recipes that rebuild a container from
  its parts.

  \<^bold>\<open>The program and its parts.\<close> A query is a set of coordinates (\<open>coord.rs\<close>). The walk (\<open>walk.rs\<close>) asks local
  sources and the observation store (\<open>cache.rs\<close>) for findings (\<open>finding.rs\<close>) about a coordinate, follows
  the coordinates a finding co-observes for a bounded number of hops, and groups the evidence into
  clusters of one identity. Local sources are cheap to rule out by bloom filters in the DCSO format
  (\<open>dcso.rs\<close>, \<open>filter.rs\<close>). Containers are read through positioned byte sources and views over them
  (\<open>peek_source.rs\<close>; \<open>range_store.rs\<close> when the file is remote): FAT and El Torito images (\<open>fat.rs\<close>), EROFS
  images (\<open>erofs.rs\<close>), microcode archives (\<open>microcode.rs\<close>), rpm, cpio, ISO and zip records (\<open>peek_walk.rs\<close>), git trees
  (\<open>git_tree.rs\<close>). The recipe commands (\<open>recipe_cmd.rs\<close>) plan how a container's bytes are rebuilt from its
  members, from recompressed streams (\<open>compressors.rs\<close>) and from literal residue, verify the plan by
  building it, write it as a JSON document, and check such a document against local blobs.

  \<^bold>\<open>Theories and the code they model.\<close>
  \<^item> \<open>Hdx_Prelude\<close>: bytes, windows of byte lists, little-endian codecs, results; \<open>Hdx_Text\<close>: the standard
    library's lossy decoders; \<open>Hdx_BTreeMap\<close>: the ordered map of the standard library.
  \<^item> \<open>Hdx_Coord\<close>: \<open>coord.rs\<close>, the datatype of schemes and \<open>coord_new\<close>, \<open>coord_parse\<close>, printing.
  \<^item> \<open>Hdx_Dcso\<close>, \<open>Hdx_Filter\<close>: \<open>dcso.rs\<close> and \<open>filter.rs\<close>; a \<open>Bloom\<close> is its header and the bytes of the file, a
    \<open>BloomBuilder\<close> its header and 64-bit words.
  \<^item> \<open>Hdx_View\<close>, \<open>Hdx_Reader\<close>: \<open>peek_source.rs\<close>; a view is extents over a source with a cursor.
  \<^item> \<open>Hdx_Range_Store\<close>: \<open>range_store.rs\<close>, the state behind the lock and its operations.
  \<^item> \<open>Hdx_Git_Tree\<close>, \<open>Hdx_Microcode\<close>, \<open>Hdx_Fat\<close>, \<open>Hdx_Compressors\<close>: the modules of these names.
  \<^item> \<open>Hdx_Erofs\<close> (superblock, inodes, lcluster indexes, chunk tables and the plans made of them),
    \<open>Hdx_Erofs_Map\<close> (what the plans satisfy), \<open>Hdx_Erofs_Read\<close> (pcluster decoding, the cache of packed
    pclusters, the streaming reader), \<open>Hdx_Erofs_Dir\<close> (directories, the walk over them): \<open>erofs.rs\<close>.
  \<^item> \<open>Hdx_Archive\<close>: the record readers of \<open>peek_walk.rs\<close> and the extraction of one rpm or archive member.
  \<^item> \<open>Hdx_Walk\<close>: \<open>walk.rs\<close>, \<open>finding.rs\<close>; \<open>Hdx_Cache\<close>: \<open>cache.rs\<close>, the two tables and the queries on them.
  \<^item> \<open>recipe_cmd.rs\<close>, in the order in which a recipe lives: \<open>Hdx_Splice\<close> (segments, extent runs, interval sets),
    \<open>Hdx_Pcluster\<close> (pclusters a file owns), \<open>Hdx_Plan\<close> (the plan's maps, the build of a container, segments
    merged in), \<open>Hdx_Verify\<close> (building the plan, capturing literals and residue), \<open>Hdx_Emit\<close> (claims,
    references, the sources table, the nodes), \<open>Hdx_Mint\<close> (coverage and the document), \<open>Hdx_Check\<close> (reading the
    document, finding what is missing, assembling).
\<close>

text \<open>
  \<^bold>\<open>How the model follows the code.\<close> Structs are records with the field names prefixed, enums are datatypes,
  every operation is one executable definition over its state, which it returns updated. An error is
  \<open>Inl\<close> of the component's error type, with the branch of the code as its constructor; a panic (an index out
  of bounds, a failed assertion or expectation) is \<open>None\<close> or a constructor of its own where \<open>None\<close> is already
  taken by fuel, as the theory's opening text says. Integers are words where the code
  lets them wrap or where untrusted fields meet (filters, range arithmetic of \<open>check\<close>, inode positions),
  naturals where every value is an offset into something that was read. Hash maps are maps or
  association lists; wherever the code iterates over one, the order is an argument and the theorem
  holds for every order.

  \<^bold>\<open>What the lemmas show.\<close>
  \<^item> Filters: a written filter opens to itself, members are never lost, also after folding, and the bits
    of a folded filter are exact.
  \<^item> Walk and store: the walk's evidence is sound, and complete below the evidence cap; clusters are the
    classes of shared identity-grade coordinates for any order of groups; the store answers from the
    latest answer of each question, and its answer row carries its unrelated findings along.
  \<^item> Readers: slices and positional reads are windows of the view's bytes; the range store's answers are
    the remote file's bytes and a served miss is served; EROFS plans tile the file, the reader returns
    the plan's bytes for every buffer size and cache state; FAT chains are followed exactly, and a
    reported file is the content its directory entry names; splitters and record readers invert the
    layouts; git tree hashes depend on the content only.
  \<^item> Recipes: builds tile the container and a verified build has its digest (\<open>Hdx_Plan\<close>, \<open>Hdx_Verify\<close>); \<open>check\<close>
    returns within a bounded depth (\<open>Hdx_Check_Total\<close>), its two traversals agree on what is missing
    (\<open>Hdx_Available\<close>), an assembled node has its digest (\<open>Hdx_Checked\<close>); \<open>Hdx_Meaning\<close> gives recipes a meaning, the
    relation \<open>means\<close>, and proves that \<open>check\<close> computes it; \<open>Hdx_Emitted\<close> and \<open>Hdx_Mint\<close> close the circle:
    the document minted from a plan that is true of the members is rebuilt by \<open>check\<close>.
  \<^item> Where the code does not do what it promises, a theorem shows it: overlapping runs of one child, a short
    inline plain extent, a table entry that slices itself, a slice whose end wraps.

  \<^bold>\<open>Interfaces.\<close> \<open>ordered_map\<close> (\<open>Hdx_BTreeMap\<close>) serves the range store and the interval sets; \<open>positioned_source\<close>
  (\<open>Hdx_View\<close>) the reads of a view; \<open>byte_reader\<close> (\<open>Hdx_Reader\<close>) is the contract of \<open>std::io::Read\<close>, kept by views and
  by the EROFS stream reader, with \<open>read_to_end\<close> and the window loop of own pclusters as clients;
  \<open>bit_store\<close> (\<open>Hdx_Filter\<close>) the bits of a filter under construction; \<open>weld_store\<close> (\<open>Hdx_Walk\<close>) the union-find
  under the clustering. Each is interpreted on the code's own model in the theory that provides it.
\<close>

text \<open>
  \<^bold>\<open>Bounds and fuel.\<close> The code's own limits are constants of the model (\<open>MAX_HOPS\<close>, \<open>MAX_EVIDENCE\<close>,
  \<open>MAX_DIR_DEPTH\<close>, \<open>DIR_MAX_DEPTH\<close>, \<open>PCLUSTER_MAX_SIZE\<close> and so on). Loops over finite data end by a measure.
  Fuel remains in five places. \<open>read_to_end\<close> and the window loop need one unit more than the bytes left,
  since every successful read of a non-empty buffer advances. \<open>check\<close> recurses over an untrusted
  document: with a table whose entries refer to earlier entries, \<open>doc_weight\<close> of the document plus 2 is
  enough, because every nested call either enters a smaller JSON value or an earlier entry; without it
  there is no bound. \<open>verify_build\<close> and \<open>node_json\<close> recurse over planned nodes; their theorems take a run that
  returned as the premise, and for flat builds verification is shown to return. The search under a
  member for something fetchable ends because children come after their parents. \<open>uf_find\<close> is a partial
  function, shown to return on every union-find reached.

  \<^bold>\<open>Parameters.\<close> What is not code of the repository is an argument: the decompressors and compressors, the
  MicroLZMA encoder, SHA-1, SHA-256 and the other digests, base64 and base32, the JSON writer and reader of
  the store, Unicode lower-casing, the floating-point powers of a filter's header, the clock, the blob
  directory. Hypotheses about them say what their documentation says (a decoder inverts the encoder
  on what was written; distinct findings have distinct JSON) or that a digest has no collision among
  the contents at hand (\<open>honest\<close>).

  \<^bold>\<open>Not modelled.\<close> Network backends and the resolver, the parquet, census and package data readers, the commands
  with their printing and progress, the web front end: drivers of third-party crates. Of \<open>peek_pool.rs\<close>
  and \<open>peek_walk.rs\<close> the threads and the decoders of foreign containers; only their data types and the
  record readers above are here. Of \<open>recipe_cmd.rs\<close> the compressor searches and their threads, the
  threaded sweep over the packed inode, microcode and jigdo splicing, member collection and
  resolution, the summary lines, and the document of a file that is claimed as a whole; the planner
  of a child is an argument of \<open>plan_build_inner\<close>. Shared state behind a mutex is modelled as the sequence of its
  holders. I/O errors of the local disk and failing allocations are left out throughout.
\<close>

end
